(* ===== verification/Prelude.thy ===== *)
theory Prelude
  imports Main "HOL-Library.Product_Lexorder"
begin

text \<open>
  Shared vocabulary of the development. Positions are the \<open>(x, y)\<close> tile pairs
  of the Python code (unbounded \<open>int\<close>, as Python's), a tile map is the list of
  rows of characters kept in \<open>TilemapManager.tilemap\<close> (\<open>src/config.py\<close>),
  and a path is the list of positions the searches return. The theory also holds
  the list minimum used for \<open>heapq.heappop\<close>, orthogonal adjacency and the
  generic lemmas on lists and maps that the component theories share.
\<close>

type_synonym pos = "int \<times> int"
type_synonym tilemap = "char list list"
type_synonym path = "pos list"

named_theorems grid_simps "unfolding rules for the tile-map predicates"

subsection \<open>Orthogonal adjacency and walks\<close>

definition adjacent :: "pos \<Rightarrow> pos \<Rightarrow> bool" where
  "adjacent p q \<longleftrightarrow> \<bar>fst p - fst q\<bar> + \<bar>snd p - snd q\<bar> = 1"

text \<open>
  \<open>walk ok s ps\<close>: every position of \<open>ps\<close> satisfies \<open>ok\<close> and each is adjacent
  to the one before it, the first to \<open>s\<close>. This is the spec's notion of a path
  "from (but excluding) a start cell".
\<close>

fun walk :: "(pos \<Rightarrow> bool) \<Rightarrow> pos \<Rightarrow> path \<Rightarrow> bool" where
  "walk ok s [] = True"
| "walk ok s (p # ps) = (ok p \<and> adjacent s p \<and> walk ok p ps)"

subsection \<open>The four neighbour offsets\<close>

text \<open>
  \<open>self.directions = [(0, 1), (1, 0), (0, -1), (-1, 0)]\<close> of
  \<open>AStarAlgorithm\<close>, and the same literal list in every ghost search.
\<close>

definition directions :: "pos list" where
  "directions = [(0, 1), (1, 0), (0, -1), (-1, 0)]"

definition neighbour :: "pos \<Rightarrow> pos \<Rightarrow> pos" where
  "neighbour p d = (fst p + fst d, snd p + snd d)"

subsection \<open>Minimum of a non-empty list\<close>

text \<open>
  \<open>heapq.heappop\<close> returns a least element of the heap; the heap is modelled by
  the list of its elements, so a pop is the list minimum and \<open>remove1\<close>.
\<close>

fun list_min :: "'a::linorder list \<Rightarrow> 'a" where
  "list_min [x] = x"
| "list_min (x # y # zs) = min x (list_min (y # zs))"
| "list_min [] = undefined"

text \<open>\<open>list.index(x)\<close>: the position of the first occurrence (the length of the
  list when there is none; Python raises \<open>ValueError\<close> there, which the callers
  exclude).\<close>

fun list_index :: "'a list \<Rightarrow> 'a \<Rightarrow> nat" where
  "list_index [] x = 0"
| "list_index (y # ys) x = (if y = x then 0 else Suc (list_index ys x))"

subsection \<open>Lemmas\<close>

lemma walk_append [simp]:
  "walk ok s (xs @ ys) = (walk ok s xs \<and> walk ok (last (s # xs)) ys)"
  by (induction xs arbitrary: s) auto

lemma walk_mono:
  "walk ok s ps \<Longrightarrow> (\<And>p. ok p \<Longrightarrow> ok' p) \<Longrightarrow> walk ok' s ps"
  by (induction ps arbitrary: s) auto

lemma walk_set: "walk ok s ps \<Longrightarrow> p \<in> set ps \<Longrightarrow> ok p"
  by (induction ps arbitrary: s) auto

lemma adjacent_sym: "adjacent p q = adjacent q p"
  by (auto simp: adjacent_def)

lemma adjacent_neighbour:
  "d \<in> set directions \<Longrightarrow> adjacent p (neighbour p d)"
  by (auto simp: directions_def neighbour_def adjacent_def)

lemma neighbour_ne: "d \<in> set directions \<Longrightarrow> neighbour p d \<noteq> p"
  by (auto simp: directions_def neighbour_def prod_eq_iff)

lemma adjacent_directions:
  assumes "adjacent p q"
  shows "\<exists>d \<in> set directions. q = neighbour p d"
proof -
  obtain a b c e where pq: "p = (a, b)" "q = (c, e)" by (cases p, cases q)
  from assms have "\<bar>a - c\<bar> + \<bar>b - e\<bar> = 1" by (simp add: pq adjacent_def)
  then have "(c - a, e - b) \<in> set directions" by (auto simp: directions_def abs_if split: if_splits)
  then show ?thesis by (intro bexI [of _ "(c - a, e - b)"]) (simp_all add: pq neighbour_def)
qed

lemma fst_mono_prod: "(x :: 'a::linorder \<times> 'b::linorder) \<le> y \<Longrightarrow> fst x \<le> fst y"
  by (cases x, cases y) auto

lemma list_min_in: "xs \<noteq> [] \<Longrightarrow> list_min xs \<in> set xs"
  by (induction xs rule: list_min.induct) (auto simp: min_def)

lemma list_min_le: "x \<in> set xs \<Longrightarrow> list_min xs \<le> x"
  by (induction xs rule: list_min.induct) (auto simp: min.coboundedI2)

lemma list_index_less: "x \<in> set xs \<Longrightarrow> list_index xs x < length xs"
  by (induction xs) auto

lemma nth_list_index: "x \<in> set xs \<Longrightarrow> xs ! list_index xs x = x"
  by (induction xs) auto

lemma length_remove1_in: "x \<in> set xs \<Longrightarrow> length (remove1 x xs) = length xs - 1"
  by (simp add: length_remove1)

end
