(* ===== verification/Grid.thy ===== *)
theory Grid
  imports Prelude
begin

text \<open>
  The maze of \<open>src/config.py\<close> (\<open>TilemapManager.tilemap\<close>,
  \<open>original_tilemap\<close>) and the operations the other components use on it:
  the bounds check, the walkability rule of \<open>AStarAlgorithm.is_walkable\<close>
  (\<open>src/model.py\<close>), the pellet count and the tile-map reset of
  \<open>Game\<close> (\<open>src/main.py\<close>), and the single-tile write the player uses to
  eat a pellet. The characters are the source's: \<open>W\<close> wall, \<open>.\<close> pellet,
  \<open>T\<close> teleporter, space open floor, and the spawn markers \<open>P R L I C\<close>.
\<close>

definition original_tilemap :: tilemap where
  "original_tilemap =
    [''WWWWWWWWWWWWWWWWWWWWW'',
     ''W........WWW........W'',
     ''W.WWWWWW.WWW.WWWWWW.W'',
     ''W...................W'',
     ''W.WW.W.WWWWWWW.W.WW.W'',
     ''W....W....W....W....W'',
     ''WWWW.WWWW.W.WWWW.WWWW'',
     ''WWWW.W         W.WWWW'',
     ''WWWW.W WWW WWW W.WWWW'',
     ''WTP... WIR LCW ... TW'',
     ''WWWW.W WWWWWWW W.WWWW'',
     ''WWWW.W         W.WWWW'',
     ''WWWW.W.WWWWWWW.W.WWWW'',
     ''W.........W.........W'',
     ''W.WW.WWWW.W.WWWW.WW.W'',
     ''W..W.............W..W'',
     ''WW.W.W.WWWWWWW.W.W.WW'',
     ''W....W....W....W....W'',
     ''W.WWWWWWW.W.WWWWWWW.W'',
     ''W...................W'',
     ''WWWWWWWWWWWWWWWWWWWWW'']"

subsection \<open>Reading the map\<close>

text \<open>
  \<open>tilemap[y][x]\<close>. Every read in the code is guarded by a bounds check, so the
  model only reads in bounds; \<open>len(tilemap[0])\<close> is the width.
\<close>

definition tile_at :: "tilemap \<Rightarrow> pos \<Rightarrow> char" where
  "tile_at m p = m ! nat (snd p) ! nat (fst p)"

definition width :: "tilemap \<Rightarrow> int" where
  "width m = int (length (hd m))"

definition height :: "tilemap \<Rightarrow> int" where
  "height m = int (length m)"

definition in_bounds :: "tilemap \<Rightarrow> pos \<Rightarrow> bool" where
  "in_bounds m p \<longleftrightarrow> 0 \<le> fst p \<and> fst p < width m \<and> 0 \<le> snd p \<and> snd p < height m"

text \<open>\<open>AStarAlgorithm.is_walkable\<close>: in bounds and not a wall.\<close>

definition is_walkable :: "tilemap \<Rightarrow> pos \<Rightarrow> bool" where
  "is_walkable m p \<longleftrightarrow> in_bounds m p \<and> tile_at m p \<noteq> CHR ''W''"

definition is_pellet :: "tilemap \<Rightarrow> pos \<Rightarrow> bool" where
  "is_pellet m p \<longleftrightarrow> tile_at m p = CHR ''.''"

declare tile_at_def [grid_simps] width_def [grid_simps] height_def [grid_simps]
  in_bounds_def [grid_simps] is_walkable_def [grid_simps] is_pellet_def [grid_simps]

text \<open>A rectangular, non-empty map: every row as wide as the first.\<close>

definition wf_tilemap :: "tilemap \<Rightarrow> bool" where
  "wf_tilemap m \<longleftrightarrow> m \<noteq> [] \<and> (\<forall>r \<in> set m. length r = length (hd m))"

subsection \<open>Game-level operations on the map\<close>

text \<open>\<open>Game.count_total_pellets\<close>: \<open>row.count('.')\<close> summed over the rows.\<close>

definition count_total_pellets :: "tilemap \<Rightarrow> nat" where
  "count_total_pellets m = sum_list (map (\<lambda>row. count_list row CHR ''.'') m)"

text \<open>\<open>Game.reset_tilemap\<close>: a fresh mutable copy of \<open>original_tilemap\<close>.\<close>

definition reset_tilemap :: tilemap where
  "reset_tilemap = original_tilemap"

text \<open>\<open>tilemap[y][x] = c\<close> on the mutable list-of-lists map.\<close>

definition set_tile :: "tilemap \<Rightarrow> pos \<Rightarrow> char \<Rightarrow> tilemap" where
  "set_tile m p c = m[nat (snd p) := (m ! nat (snd p))[nat (fst p) := c]]"

subsection \<open>Lemmas\<close>

lemma walkable_in_bounds: "is_walkable m p \<Longrightarrow> in_bounds m p"
  by (simp add: is_walkable_def)

lemma finite_in_bounds: "finite {p. in_bounds m p}"
proof -
  have "{p. in_bounds m p} \<subseteq> {0..<width m} \<times> {0..<height m}"
    by (auto simp: in_bounds_def)
  then show ?thesis by (rule finite_subset) simp
qed

lemma finite_walkable: "finite {p. is_walkable m p}"
  by (rule finite_subset [OF _ finite_in_bounds]) (auto simp: is_walkable_def)


lemma length_set_tile_row [simp]: "length (set_tile m p c ! i) = length (m ! i)"
proof (cases "i = nat (snd p) \<and> i < length m")
  case True
  then show ?thesis by (simp add: set_tile_def)
next
  case False
  then show ?thesis
    by (cases "i = nat (snd p)") (simp_all add: set_tile_def list_update_beyond)
qed

lemma length_set_tile [simp]: "length (set_tile m p c) = length m"
  by (simp add: set_tile_def)

lemma width_set_tile [simp]: "width (set_tile m p c) = width m"
proof (cases "m = []")
  case True
  then show ?thesis by (simp add: set_tile_def)
next
  case False
  moreover have "set_tile m p c \<noteq> []"
    using False length_set_tile [of m p c] by (metis length_0_conv)
  ultimately show ?thesis
    by (simp add: width_def hd_conv_nth del: length_set_tile_row)
      (simp add: length_set_tile_row)
qed

lemma height_set_tile [simp]: "height (set_tile m p c) = height m"
  by (simp add: height_def)

lemma in_bounds_set_tile [simp]: "in_bounds (set_tile m p c) q = in_bounds m q"
  by (simp add: in_bounds_def)

lemma wf_row_length: "wf_tilemap m \<Longrightarrow> i < length m \<Longrightarrow> length (m ! i) = length (hd m)"
  unfolding wf_tilemap_def using nth_mem by blast

lemma wf_set_tile: "wf_tilemap m \<Longrightarrow> wf_tilemap (set_tile m p c)"
proof -
  assume wf: "wf_tilemap m"
  have hd_len: "length (hd (set_tile m p c)) = length (hd m)"
    using width_set_tile [of m p c] by (simp add: width_def)
  have "length r = length (hd (set_tile m p c))" if "r \<in> set (set_tile m p c)" for r
  proof -
    from that obtain i where i: "i < length m" "r = set_tile m p c ! i"
      by (auto simp: in_set_conv_nth)
    then have "length r = length (m ! i)" by simp
    also have "\<dots> = length (hd m)" using wf i(1) nth_mem unfolding wf_tilemap_def by blast
    finally show ?thesis using hd_len by simp
  qed
  moreover have "set_tile m p c \<noteq> []"
    using wf length_set_tile [of m p c] unfolding wf_tilemap_def by (metis length_0_conv)
  ultimately show ?thesis unfolding wf_tilemap_def by blast
qed

lemma tile_at_set_tile:
  assumes "wf_tilemap m" "in_bounds m p" "in_bounds m q"
  shows "tile_at (set_tile m p c) q = (if q = p then c else tile_at m q)"
proof -
  have y: "nat (snd q) < length m" "nat (snd p) < length m"
    using assms by (auto simp: in_bounds_def height_def)
  have x: "nat (fst q) < length (m ! nat (snd q))"
    using assms y wf_row_length [OF assms(1) y(1)] by (auto simp: in_bounds_def width_def)
  have eq: "q = p \<longleftrightarrow> nat (snd q) = nat (snd p) \<and> nat (fst q) = nat (fst p)"
    using assms by (auto simp: in_bounds_def prod_eq_iff)
  show ?thesis
  proof (cases "nat (snd q) = nat (snd p)")
    case True
    with x y eq show ?thesis by (simp add: tile_at_def set_tile_def nth_list_update)
  next
    case False
    with eq show ?thesis by (simp add: tile_at_def set_tile_def)
  qed
qed

lemma is_walkable_set_tile:
  assumes "wf_tilemap m" "in_bounds m p" "tile_at m p \<noteq> CHR ''W''" "c \<noteq> CHR ''W''"
  shows "is_walkable (set_tile m p c) q = is_walkable m q"
proof (cases "in_bounds m q")
  case True
  with assms tile_at_set_tile [OF assms(1,2) True, of c] show ?thesis
    by (simp add: is_walkable_def)
next
  case False
  then show ?thesis by (simp add: is_walkable_def)
qed

lemma wf_original_tilemap: "wf_tilemap original_tilemap"
  by (simp add: wf_tilemap_def original_tilemap_def)

end
