(* ===== verification/Fitness.thy ===== *)
theory Fitness
  imports Grid
begin

text \<open>
  The fitness evaluation of \<open>src/model.py\<close>: the move symbols, the simulated
  move of \<open>GeneticAlgorithm.simulate_move\<close>, the ghost-proximity test
  \<open>is_near_enemy\<close>, the reference-path bonus \<open>follow_a_star_path\<close> with
  \<open>get_direction\<close>, and the two scoring loops (the baseline
  \<open>evaluate_fitness_without_adversarial\<close> and
  \<open>AdversarialAlgorithm.evaluate_fitness\<close>), dispatched by
  \<open>GeneticAlgorithm.evaluate_fitness\<close>. The game object the code reads is the
  snapshot \<open>world\<close>: the player's tile and the enemies' tiles.
\<close>

text \<open>The strings \<open>'UP'\<close>, \<open>'DOWN'\<close>, \<open>'LEFT'\<close>, \<open>'RIGHT'\<close>.\<close>

datatype move = UP | DOWN | LEFT | RIGHT

record world =
  player_tile :: pos
  enemy_tiles :: "pos list"

subsection \<open>Moves and directions\<close>

text \<open>The offset a move symbol stands for (the \<open>if\<close>/\<open>elif\<close> chain of
  \<open>simulate_move\<close>).\<close>

fun step_of :: "move \<Rightarrow> pos \<Rightarrow> pos" where
  "step_of UP (x, y) = (x, y - 1)"
| "step_of DOWN (x, y) = (x, y + 1)"
| "step_of LEFT (x, y) = (x - 1, y)"
| "step_of RIGHT (x, y) = (x + 1, y)"

text \<open>
  \<open>simulate_move\<close>: the moved position if it is in bounds and not a wall
  (the inline test is exactly \<open>is_walkable\<close>), else the old position.
\<close>

definition simulate_move :: "tilemap \<Rightarrow> pos \<Rightarrow> move \<Rightarrow> pos" where
  "simulate_move m p mv = (let q = step_of mv p in if is_walkable m q then q else p)"

text \<open>\<open>is_near_enemy\<close>: some ghost at Manhattan distance at most 1.\<close>

definition is_near_enemy :: "pos \<Rightarrow> pos list \<Rightarrow> bool" where
  "is_near_enemy p gs = list_ex (\<lambda>g. \<bar>fst p - fst g\<bar> + \<bar>snd p - snd g\<bar> \<le> 1) gs"

text \<open>
  \<open>get_direction\<close>: the first of the four tests that holds, else \<open>None\<close>.
  The guard \<open>if not end\<close> never fires: \<open>end\<close> is always a pair.
\<close>

definition get_direction :: "pos \<Rightarrow> pos \<Rightarrow> move option" where
  "get_direction s e =
     (let dx = fst e - fst s; dy = snd e - snd s in
      if dx = 1 then Some RIGHT
      else if dx = -1 then Some LEFT
      else if dy = 1 then Some DOWN
      else if dy = -1 then Some UP
      else None)"

subsection \<open>The reference-path bonus\<close>

text \<open>
  The loop of \<open>follow_a_star_path\<close>, with its locals \<open>position\<close>,
  \<open>path_index\<close> and \<open>score\<close> as accumulators.
\<close>

fun follow_loop :: "path \<Rightarrow> move list \<Rightarrow> pos \<Rightarrow> nat \<Rightarrow> int \<Rightarrow> int" where
  "follow_loop P [] p i sc = sc"
| "follow_loop P (mv # ms) p i sc =
     (if i < length P then
        (let nxt = P ! i in
         if Some mv = get_direction p nxt then follow_loop P ms nxt (Suc i) (sc + 100)
         else follow_loop P ms p i (sc - 50))
      else follow_loop P ms p i (sc - 20))"

definition follow_a_star_path :: "path \<Rightarrow> move list \<Rightarrow> pos \<Rightarrow> int" where
  "follow_a_star_path P c p0 = follow_loop P c p0 0 0"

subsection \<open>The scoring loop\<close>

text \<open>
  The \<open>for move in chromosome\<close> loop shared by both evaluators: \<open>sm\<close> is the
  tile map of \<open>simulate_move\<close> (the genetic algorithm's), \<open>pm\<close> the one the
  pellet test reads (the evaluator's own \<open>self.tilemap\<close>), \<open>gs\<close> the ghost
  positions. The proximity penalty and the pellet reward sit in the \<open>else\<close>
  branch: they apply on the first visit of a tile only.
\<close>

fun score_loop :: "tilemap \<Rightarrow> tilemap \<Rightarrow> pos list \<Rightarrow> move list \<Rightarrow> pos \<Rightarrow> pos set \<Rightarrow> int \<Rightarrow> int" where
  "score_loop sm pm gs [] p vis sc = sc"
| "score_loop sm pm gs (mv # ms) p vis sc =
     (let np = simulate_move sm p mv in
      if np \<in> vis then score_loop sm pm gs ms np vis (sc - 500)
      else score_loop sm pm gs ms np (insert np vis)
             (sc + (if tile_at pm np = CHR ''.'' then 2500 else 0)
                 - (if is_near_enemy np gs then 1000 else 0)))"

text \<open>\<open>GeneticAlgorithm.evaluate_fitness_without_adversarial\<close>: the ghosts are
  read from the game's enemies.\<close>

definition evaluate_fitness_without_adversarial :: "tilemap \<Rightarrow> world \<Rightarrow> move list \<Rightarrow> path \<Rightarrow> int" where
  "evaluate_fitness_without_adversarial m g c P =
     score_loop m m (enemy_tiles g) c (player_tile g) {} 0
     + follow_a_star_path P c (player_tile g)"

text \<open>\<open>AdversarialAlgorithm.evaluate_fitness\<close>: the ghosts are the argument;
  \<open>am\<close> is the adversarial object's own tile map, \<open>m\<close> the genetic
  algorithm's.\<close>

definition adversarial_evaluate_fitness ::
  "tilemap \<Rightarrow> tilemap \<Rightarrow> world \<Rightarrow> move list \<Rightarrow> path \<Rightarrow> pos list \<Rightarrow> int" where
  "adversarial_evaluate_fitness m am g c P gs =
     score_loop m am gs c (player_tile g) {} 0 + follow_a_star_path P c (player_tile g)"

text \<open>
  \<open>GeneticAlgorithm.evaluate_fitness\<close>: \<open>adv\<close> is the optional
  \<open>adversarial_algorithm\<close> attribute, given by its tile map when present.
\<close>

definition evaluate_fitness ::
  "tilemap \<Rightarrow> tilemap option \<Rightarrow> world \<Rightarrow> move list \<Rightarrow> path \<Rightarrow> pos list \<Rightarrow> int" where
  "evaluate_fitness m adv g c P gs =
     (case adv of
        Some am \<Rightarrow> adversarial_evaluate_fitness m am g c P gs
      | None \<Rightarrow> evaluate_fitness_without_adversarial m g c P)"

subsection \<open>Observation helpers\<close>

text \<open>The tiles the scoring loop moves through, one per gene.\<close>

fun sim_trace :: "tilemap \<Rightarrow> pos \<Rightarrow> move list \<Rightarrow> pos list" where
  "sim_trace m p [] = []"
| "sim_trace m p (mv # ms) = simulate_move m p mv # sim_trace m (simulate_move m p mv) ms"

text \<open>The moves that retrace a path step by step.\<close>

fun moves_along :: "pos \<Rightarrow> path \<Rightarrow> move list" where
  "moves_along s [] = []"
| "moves_along s (p # ps) = the (get_direction s p) # moves_along p ps"

subsection \<open>Lemmas on moves\<close>

lemma get_direction_step_of: "get_direction p (step_of mv p) = Some mv"
  by (cases mv; cases p) (auto simp: get_direction_def)

lemma adjacent_is_step: "adjacent p q \<Longrightarrow> \<exists>mv. q = step_of mv p"
proof -
  assume adj: "adjacent p q"
  obtain a b c d where pq: "p = (a, b)" "q = (c, d)" by (cases p; cases q)
  with adj have "(c = a + 1 \<and> d = b) \<or> (c = a - 1 \<and> d = b) \<or> (c = a \<and> d = b + 1) \<or> (c = a \<and> d = b - 1)"
    by (auto simp: adjacent_def abs_if split: if_splits)
  then show ?thesis
  proof (elim disjE)
    assume "c = a + 1 \<and> d = b" then show ?thesis using pq by (intro exI [of _ RIGHT]) simp
  next
    assume "c = a - 1 \<and> d = b" then show ?thesis using pq by (intro exI [of _ LEFT]) simp
  next
    assume "c = a \<and> d = b + 1" then show ?thesis using pq by (intro exI [of _ DOWN]) simp
  next
    assume "c = a \<and> d = b - 1" then show ?thesis using pq by (intro exI [of _ UP]) simp
  qed
qed

lemma simulate_move_walkable: "is_walkable m p \<Longrightarrow> is_walkable m (simulate_move m p mv)"
  by (simp add: simulate_move_def Let_def)

lemma near_enemy_Nil [simp]: "\<not> is_near_enemy p []"
  by (simp add: is_near_enemy_def)

subsection \<open>Lemmas on the reference-path bonus\<close>

lemma follow_loop_bounds:
  "sc - 50 * int (length c) \<le> follow_loop P c p i sc \<and>
   follow_loop P c p i sc \<le> sc + 100 * int (length c) \<and>
   follow_loop P c p i sc \<le> sc + 100 * int (length P - i)"
proof (induction c arbitrary: p i sc)
  case Nil
  then show ?case by simp
next
  case (Cons mv ms)
  show ?case
  proof (cases "i < length P")
    case True
    show ?thesis
    proof (cases "Some mv = get_direction p (P ! i)")
      case True
      have eq: "int (length P - i) = int (length P - Suc i) + 1" using \<open>i < length P\<close> by simp
      with True \<open>i < length P\<close> Cons.IH [where p = "P ! i" and i = "Suc i" and sc = "sc + 100"]
      show ?thesis by auto
    next
      case False
      with \<open>i < length P\<close> Cons.IH [where p = p and i = i and sc = "sc - 50"]
      show ?thesis by auto
    qed
  next
    case False
    with Cons.IH [where p = p and i = i and sc = "sc - 20"] show ?thesis by auto
  qed
qed

lemma follow_loop_along:
  "walk ok (last (s # xs)) ys \<Longrightarrow>
   follow_loop (xs @ ys) (moves_along (last (s # xs)) ys @ rest) (last (s # xs)) (length xs) sc
   = sc + 100 * int (length ys) - 20 * int (length rest)"
proof (induction ys arbitrary: xs sc)
  case Nil
  then show ?case by (induction rest arbitrary: sc) simp_all
next
  case (Cons y ys)
  let ?p = "last (s # xs)"
  from Cons.prems obtain mv where y: "y = step_of mv ?p" and "walk ok y ys"
    using adjacent_is_step by fastforce
  then have "walk ok (last (s # xs @ [y])) ys" by simp
  from Cons.IH [OF this, of "sc + 100"] y
  show ?case by (simp add: get_direction_step_of nth_append)
qed

subsection \<open>Lemmas on the scoring loop\<close>

lemma score_loop_acc:
  "score_loop sm pm gs c p vis sc = sc + score_loop sm pm gs c p vis 0"
proof (induction c arbitrary: p vis sc)
  case Nil
  then show ?case by simp
next
  case (Cons mv ms)
  let ?q = "simulate_move sm p mv"
  show ?case
  proof (cases "?q \<in> vis")
    case True
    with Cons.IH [where p = ?q and vis = vis and sc = "sc - 500"]
      Cons.IH [where p = ?q and vis = vis and sc = "- 500"]
    show ?thesis by (simp add: Let_def)
  next
    case False
    let ?d = "(if tile_at pm ?q = CHR ''.'' then 2500 else 0) - (if is_near_enemy ?q gs then 1000 else 0) :: int"
    from False Cons.IH [where p = ?q and vis = "insert ?q vis" and sc = "sc + ?d"]
      Cons.IH [where p = ?q and vis = "insert ?q vis" and sc = "?d"]
    show ?thesis by (simp add: Let_def add_diff_eq)
  qed
qed

text \<open>
  The proximity term of the scoring loop: one penalty of 1000 per distinct tile
  near a ghost that the simulation enters for the first time.
\<close>

lemma score_loop_penalty:
  "score_loop sm pm gs c p vis sc =
   score_loop sm pm [] c p vis sc
   - 1000 * int (card ((set (sim_trace sm p c) - vis) \<inter> {q. is_near_enemy q gs}))"
proof (induction c arbitrary: p vis sc)
  case Nil
  then show ?case by simp
next
  case (Cons mv ms)
  let ?q = "simulate_move sm p mv"
  let ?T = "set (sim_trace sm ?q ms)"
  let ?N = "{q. is_near_enemy q gs}"
  show ?case
  proof (cases "?q \<in> vis")
    case True
    then have "(insert ?q ?T - vis) \<inter> ?N = (?T - vis) \<inter> ?N" by auto
    with True Cons.IH [where p = ?q and vis = vis and sc = "sc - 500"] show ?thesis
      by (simp add: Let_def)
  next
    case False
    have split: "(insert ?q ?T - vis) \<inter> ?N = ({?q} \<inter> ?N) \<union> ((?T - insert ?q vis) \<inter> ?N)"
      using False by auto
    have card: "card ((insert ?q ?T - vis) \<inter> ?N)
                = (if is_near_enemy ?q gs then 1 else 0) + card ((?T - insert ?q vis) \<inter> ?N)"
      unfolding split by (subst card_Un_disjoint) auto
    let ?pel = "(if tile_at pm ?q = CHR ''.'' then 2500 else 0) :: int"
    let ?d = "?pel - (if is_near_enemy ?q gs then 1000 else 0)"
    have L: "score_loop sm pm gs (mv # ms) p vis sc
             = sc + ?d + score_loop sm pm gs ms ?q (insert ?q vis) 0"
      using False score_loop_acc [where sc = "sc + ?d" and gs = gs and c = ms]
      by (simp add: Let_def add_diff_eq)
    have R: "score_loop sm pm [] (mv # ms) p vis sc
             = sc + ?pel + score_loop sm pm [] ms ?q (insert ?q vis) 0"
      using False score_loop_acc [where sc = "sc + ?pel" and gs = "[]" and c = ms]
      by (simp add: Let_def)
    show ?thesis
      using L R card Cons.IH [where p = ?q and vis = "insert ?q vis" and sc = 0] by simp
  qed
qed


lemma card_near_empty:
  "\<forall>q \<in> set (sim_trace sm p c). \<forall>g \<in> set gs. 1 < \<bar>fst q - fst g\<bar> + \<bar>snd q - snd g\<bar> \<Longrightarrow>
   (set (sim_trace sm p c) - vis) \<inter> {q. is_near_enemy q gs} = {}"
proof -
  assume far: "\<forall>q \<in> set (sim_trace sm p c). \<forall>g \<in> set gs. 1 < \<bar>fst q - fst g\<bar> + \<bar>snd q - snd g\<bar>"
  have "\<not> is_near_enemy q gs" if "q \<in> set (sim_trace sm p c)" for q
  proof
    assume "is_near_enemy q gs"
    then obtain g where "g \<in> set gs" "\<bar>fst q - fst g\<bar> + \<bar>snd q - snd g\<bar> \<le> 1"
      by (auto simp: is_near_enemy_def list_ex_iff)
    with far that show False by fastforce
  qed
  then show ?thesis by blast
qed

lemma adjacent_step_of: "adjacent p (step_of mv p)"
  by (cases mv; cases p) (auto simp: adjacent_def)

subsection \<open>Properties of the fitness evaluation\<close>

text \<open>C6: the ghost-proximity term of the baseline fitness is 1000 times the
  number of distinct tiles near a ghost that the simulated chromosome enters, not
  one penalty per simulated step: the penalty sits in the first-visit branch.\<close>

theorem fitness_proximity_once_per_tile:
  "evaluate_fitness_without_adversarial m g c P =
   evaluate_fitness_without_adversarial m (g\<lparr>enemy_tiles := []\<rparr>) c P
   - 1000 * int (card (set (sim_trace m (player_tile g) c) \<inter> {q. is_near_enemy q (enemy_tiles g)}))"
  using score_loop_penalty [of m m "enemy_tiles g" c "player_tile g" "{}" 0]
  by (simp add: evaluate_fitness_without_adversarial_def)

text \<open>C7: when every tile the chromosome moves through is farther than
  Manhattan distance 1 from every ghost, no proximity penalty is applied: the
  score is the score with no ghosts at all.\<close>

theorem fitness_far_ghosts_no_penalty:
  assumes "\<forall>q \<in> set (sim_trace m (player_tile g) c). \<forall>gh \<in> set (enemy_tiles g).
             1 < \<bar>fst q - fst gh\<bar> + \<bar>snd q - snd gh\<bar>"
  shows "evaluate_fitness_without_adversarial m g c P =
         evaluate_fitness_without_adversarial m (g\<lparr>enemy_tiles := []\<rparr>) c P"
  using score_loop_penalty [of m m "enemy_tiles g" c "player_tile g" "{}" 0]
    card_near_empty [OF assms, of "{}"]
  by (simp add: evaluate_fitness_without_adversarial_def)

theorem fitness_far_ghosts_no_penalty_witness:
  "evaluate_fitness_without_adversarial [''   ''] \<lparr>player_tile = (0, 0), enemy_tiles = [(2, 5)]\<rparr>
     [RIGHT, RIGHT, LEFT] [(1, 0)] =
   evaluate_fitness_without_adversarial [''   ''] \<lparr>player_tile = (0, 0), enemy_tiles = []\<rparr>
     [RIGHT, RIGHT, LEFT] [(1, 0)]"
proof -
  have "\<forall>q \<in> set (sim_trace [''   ''] (0, 0) [RIGHT, RIGHT, LEFT]). \<forall>gh \<in> set [(2, 5)].
          1 < \<bar>fst q - fst gh\<bar> + \<bar>snd q - snd gh\<bar>"
    by (simp add: simulate_move_def is_walkable_def in_bounds_def tile_at_def width_def height_def)
  then show ?thesis
    using fitness_far_ghosts_no_penalty [of "[''   '']" "\<lparr>player_tile = (0, 0), enemy_tiles = [(2, 5)]\<rparr>"
        "[RIGHT, RIGHT, LEFT]" "[(1, 0)]"]
    by simp
qed

text \<open>C8: the reference-path bonus of a chromosome of \<open>n\<close> genes lies
  between \<open>-50 n\<close> and \<open>100 min(n, |path|)\<close>.\<close>

theorem follow_a_star_path_bounds:
  "- 50 * int (length c) \<le> follow_a_star_path P c p \<and>
   follow_a_star_path P c p \<le> 100 * int (min (length c) (length P))"
  using follow_loop_bounds [of 0 c P p 0]
  by (simp add: follow_a_star_path_def min_def)

text \<open>C9: a chromosome that retraces the reference path move by move and then
  has \<open>k\<close> more genes earns exactly \<open>100 |path| - 20 k\<close>, the largest
  bonus a chromosome of that length can earn once the path is used up.\<close>

theorem follow_a_star_path_retrace:
  assumes "walk ok s P"
  shows "follow_a_star_path P (moves_along s P @ rest) s = 100 * int (length P) - 20 * int (length rest)"
  using follow_loop_along [of ok s "[]" P rest 0] assms
  by (simp add: follow_a_star_path_def)

theorem follow_a_star_path_retrace_witness:
  "follow_a_star_path [(1, 0), (1, 1), (2, 1)] (moves_along (0, 0) [(1, 0), (1, 1), (2, 1)] @ [UP, UP])
     (0, 0) = 260"
proof -
  have "walk (\<lambda>_. True) (0, 0) [(1, 0), (1, 1), (2, 1)]" by (simp add: adjacent_def)
  from follow_a_star_path_retrace [OF this, of "[UP, UP]"] show ?thesis by simp
qed


text \<open>C11: a simulated move from a walkable tile ends on a walkable tile, either
  the same one (the move was into a wall or out of bounds) or an orthogonal
  neighbour.\<close>

theorem simulate_move_safe:
  assumes "is_walkable m p"
  shows "is_walkable m (simulate_move m p mv) \<and>
         (simulate_move m p mv = p \<or> adjacent p (simulate_move m p mv))"
  using assms adjacent_step_of [of p mv] by (simp add: simulate_move_def Let_def)

theorem simulate_move_safe_witness:
  "is_walkable [''W  ''] (simulate_move [''W  ''] (1, 0) LEFT) \<and> simulate_move [''W  ''] (1, 0) LEFT = (1, 0)"
proof -
  have h: "is_walkable [''W  ''] (1, 0)"
    by (simp add: is_walkable_def in_bounds_def tile_at_def width_def height_def)
  have "simulate_move [''W  ''] (1, 0) LEFT = (1, 0)"
    by (simp add: simulate_move_def is_walkable_def in_bounds_def tile_at_def width_def height_def)
  with simulate_move_safe [OF h, of LEFT] show ?thesis by simp
qed

end
