(* ===== verification/AStar.thy ===== *)
theory AStar
  imports Grid
begin

text \<open>
  \<open>AStarAlgorithm\<close> of \<open>src/model.py\<close>: the Manhattan \<open>heuristic\<close>,
  \<open>find_path\<close> and \<open>reconstruct_path\<close>. The locals of \<open>find_path\<close> are the
  record \<open>astar_state\<close>: the heap \<open>open_set\<close> as the list of its entries
  \<open>(f, position)\<close> (\<open>heappush\<close> adds an entry, \<open>heappop\<close> removes a least
  one in the lexicographic order of Python tuples), and the dictionaries
  \<open>came_from\<close>, \<open>g_score\<close> and \<open>f_score\<close> as maps. The \<open>while\<close> loop and
  the reconstruction loop are option-valued partial functions; the theorems below
  prove that both always return.
\<close>

definition heuristic :: "pos \<Rightarrow> pos \<Rightarrow> int" where
  "heuristic a b = \<bar>fst a - fst b\<bar> + \<bar>snd a - snd b\<bar>"

record astar_state =
  open_set :: "(int \<times> pos) list"
  came_from :: "pos \<Rightarrow> pos option"
  g_score :: "pos \<Rightarrow> nat option"
  f_score :: "pos \<Rightarrow> int option"

subsection \<open>Path reconstruction\<close>

text \<open>
  \<open>while current in came_from: path.append(current); current = came_from[current]\<close>,
  then \<open>path.reverse()\<close>.
\<close>

partial_function (option) reconstruct_loop :: "(pos \<Rightarrow> pos option) \<Rightarrow> pos \<Rightarrow> path \<Rightarrow> path option" where
  "reconstruct_loop cf cur acc =
     (case cf cur of
        None \<Rightarrow> Some acc
      | Some prev \<Rightarrow> reconstruct_loop cf prev (acc @ [cur]))"

declare reconstruct_loop.simps [code]

definition reconstruct_path :: "(pos \<Rightarrow> pos option) \<Rightarrow> pos \<Rightarrow> path option" where
  "reconstruct_path cf cur = map_option rev (reconstruct_loop cf cur [])"

subsection \<open>The search loop\<close>

text \<open>
  One iteration of \<open>for dx, dy in self.directions\<close> for the popped position
  \<open>cur\<close>: skip a neighbour that is not walkable or is blocked; otherwise relax it
  when it has no g-score yet or the new one is smaller. \<open>g_score[current]\<close> is
  always present (lemma \<open>astar_inv_cur\<close> below), so its \<open>KeyError\<close> is
  unreachable and the lookup is written with \<open>the\<close>.
\<close>

definition relax :: "tilemap \<Rightarrow> pos \<Rightarrow> pos list \<Rightarrow> pos \<Rightarrow> pos \<Rightarrow> astar_state \<Rightarrow> astar_state" where
  "relax m goal blocked cur d st =
     (let nb = neighbour cur d in
      if \<not> is_walkable m nb \<or> nb \<in> set blocked then st
      else
        (let t = the (g_score st cur) + 1 in
         if g_score st nb = None \<or> t < the (g_score st nb) then
           st\<lparr>came_from := (came_from st)(nb \<mapsto> cur),
              g_score := (g_score st)(nb \<mapsto> t),
              f_score := (f_score st)(nb \<mapsto> int t + heuristic nb goal),
              open_set := open_set st @ [(int t + heuristic nb goal, nb)]\<rparr>
         else st))"

definition expand :: "tilemap \<Rightarrow> pos \<Rightarrow> pos list \<Rightarrow> pos \<Rightarrow> astar_state \<Rightarrow> astar_state" where
  "expand m goal blocked cur st = fold (relax m goal blocked cur) directions st"

text \<open>
  \<open>while open_set\<close>: pop a least entry; return the reconstructed path when it is
  the goal, else expand it. An empty heap returns \<open>[]\<close>.
\<close>

partial_function (option) astar_loop :: "tilemap \<Rightarrow> pos \<Rightarrow> pos list \<Rightarrow> astar_state \<Rightarrow> path option" where
  "astar_loop m goal blocked st =
     (if open_set st = [] then Some []
      else
        (let e = list_min (open_set st);
             cur = snd e;
             st' = st\<lparr>open_set := remove1 e (open_set st)\<rparr>
         in if cur = goal then reconstruct_path (came_from st') cur
            else astar_loop m goal blocked (expand m goal blocked cur st')))"

declare astar_loop.simps [code]

definition astar_init :: "pos \<Rightarrow> pos \<Rightarrow> astar_state" where
  "astar_init start goal =
     \<lparr>open_set = [(0, start)], came_from = Map.empty,
      g_score = [start \<mapsto> 0], f_score = [start \<mapsto> heuristic start goal]\<rparr>"

text \<open>\<open>find_path(start, goal, blocked_positions)\<close>; \<open>None\<close> for the default
  argument is the empty list.\<close>

definition find_path :: "tilemap \<Rightarrow> pos \<Rightarrow> pos \<Rightarrow> pos list \<Rightarrow> path option" where
  "find_path m start goal blocked = astar_loop m goal blocked (astar_init start goal)"

subsection \<open>Invariant and termination measure of the search\<close>

text \<open>
  \<open>astar_ok\<close>: the positions the search may enter. \<open>astar_inv\<close> holds of
  the state at every test of the \<open>while\<close> guard: g-scores only for the start
  and enterable cells, the start at 0, every g-score below the number of scored
  cells (a new score is one more than an existing one), every heap entry scored,
  every \<open>came_from\<close> edge an enterable adjacent step to a cell of smaller
  g-score, and every scored cell but the start reached by such an edge.
  \<open>astar_pot\<close> sums the g-scores over those cells (an unscored cell counts as the
  number of cells); each push lowers it, so \<open>2 * astar_pot + |open_set|\<close>
  falls at every iteration.
\<close>

definition astar_ok :: "tilemap \<Rightarrow> pos list \<Rightarrow> pos \<Rightarrow> bool" where
  "astar_ok m blocked q \<longleftrightarrow> is_walkable m q \<and> q \<notin> set blocked"

definition astar_cells :: "tilemap \<Rightarrow> pos list \<Rightarrow> pos \<Rightarrow> pos set" where
  "astar_cells m blocked s = insert s {q. astar_ok m blocked q}"

definition astar_inv :: "tilemap \<Rightarrow> pos list \<Rightarrow> pos \<Rightarrow> astar_state \<Rightarrow> bool" where
  "astar_inv m blocked s st \<longleftrightarrow>
     dom (g_score st) \<subseteq> astar_cells m blocked s \<and>
     g_score st s = Some 0 \<and>
     (\<forall>v n. g_score st v = Some n \<longrightarrow> n < card (dom (g_score st))) \<and>
     (\<forall>e \<in> set (open_set st). snd e \<in> dom (g_score st)) \<and>
     (\<forall>v u. came_from st v = Some u \<longrightarrow>
        v \<in> dom (g_score st) \<and> u \<in> dom (g_score st) \<and>
        the (g_score st u) < the (g_score st v) \<and> adjacent u v \<and> astar_ok m blocked v) \<and>
     (\<forall>v \<in> dom (g_score st). v \<noteq> s \<longrightarrow> v \<in> dom (came_from st))"

definition astar_pot :: "tilemap \<Rightarrow> pos list \<Rightarrow> pos \<Rightarrow> astar_state \<Rightarrow> nat" where
  "astar_pot m blocked s st =
     (\<Sum>v \<in> astar_cells m blocked s.
        case g_score st v of None \<Rightarrow> card (astar_cells m blocked s) | Some n \<Rightarrow> n)"

text \<open>
  The optimality invariant. \<open>astar_entry goal s v n\<close> is the heap entry pushed
  when \<open>v\<close> gets g-score \<open>n\<close> (the start's is \<open>(0, start)\<close>).
  \<open>astar_settled\<close>: every scored cell still has the entry of its current
  g-score in the heap, or it is not the goal and every enterable neighbour has a
  g-score at most one more (it was expanded with its current score).
  \<open>astar_fbound\<close>: every heap entry but \<open>(0, start)\<close> is at least the g-score
  plus heuristic of its cell. \<open>astar_desc\<close> relates a state to a later one of
  the same expansion: the heap only grows, g-scores only fall, and a changed
  g-score has its entry in the heap.
\<close>

definition astar_entry :: "pos \<Rightarrow> pos \<Rightarrow> pos \<Rightarrow> nat \<Rightarrow> int \<times> pos" where
  "astar_entry goal s v n = ((if v = s then 0 else int n + heuristic v goal), v)"

definition astar_settled :: "tilemap \<Rightarrow> pos list \<Rightarrow> pos \<Rightarrow> pos \<Rightarrow> astar_state \<Rightarrow> bool" where
  "astar_settled m blocked goal s st \<longleftrightarrow>
     (\<forall>v n. g_score st v = Some n \<longrightarrow>
        astar_entry goal s v n \<in> set (open_set st) \<or>
        (v \<noteq> goal \<and> (\<forall>d \<in> set directions. astar_ok m blocked (neighbour v d) \<longrightarrow>
           (\<exists>n'. g_score st (neighbour v d) = Some n' \<and> n' \<le> n + 1))))"

definition astar_fbound :: "pos \<Rightarrow> pos \<Rightarrow> astar_state \<Rightarrow> bool" where
  "astar_fbound goal s st \<longleftrightarrow>
     (\<forall>e \<in> set (open_set st). e = (0, s) \<or>
        (snd e \<noteq> s \<and> (\<exists>n. g_score st (snd e) = Some n \<and> int n + heuristic (snd e) goal \<le> fst e)))"

definition astar_desc :: "pos \<Rightarrow> pos \<Rightarrow> astar_state \<Rightarrow> astar_state \<Rightarrow> bool" where
  "astar_desc goal s st st' \<longleftrightarrow>
     set (open_set st) \<subseteq> set (open_set st') \<and>
     (\<forall>v n. g_score st v = Some n \<longrightarrow> (\<exists>n'. g_score st' v = Some n' \<and> n' \<le> n)) \<and>
     (\<forall>v n. g_score st' v = Some n \<longrightarrow> g_score st v \<noteq> Some n \<longrightarrow>
        astar_entry goal s v n \<in> set (open_set st'))"

subsection \<open>Lemmas\<close>

lemma astar_invD:
  assumes "astar_inv m blocked s st"
  shows "dom (g_score st) \<subseteq> astar_cells m blocked s"
    and "g_score st s = Some 0"
    and "g_score st v = Some n \<Longrightarrow> n < card (dom (g_score st))"
    and "e \<in> set (open_set st) \<Longrightarrow> snd e \<in> dom (g_score st)"
    and "came_from st v = Some u \<Longrightarrow>
         v \<in> dom (g_score st) \<and> u \<in> dom (g_score st) \<and>
         the (g_score st u) < the (g_score st v) \<and> adjacent u v \<and> astar_ok m blocked v"
    and "v \<in> dom (g_score st) \<Longrightarrow> v \<noteq> s \<Longrightarrow> v \<in> dom (came_from st)"
  using assms unfolding astar_inv_def by blast+

lemma finite_astar_cells: "finite (astar_cells m blocked s)"
proof -
  have "{q. astar_ok m blocked q} \<subseteq> {q. is_walkable m q}" by (auto simp: astar_ok_def)
  then show ?thesis unfolding astar_cells_def by (simp add: finite_subset [OF _ finite_walkable])
qed

lemma astar_inv_card:
  "astar_inv m blocked s st \<Longrightarrow> card (dom (g_score st)) \<le> card (astar_cells m blocked s)"
  by (simp add: astar_invD(1) card_mono finite_astar_cells)

lemma astar_inv_finite_dom:
  "astar_inv m blocked s st \<Longrightarrow> finite (dom (g_score st))"
  by (meson astar_invD(1) finite_astar_cells finite_subset)

text \<open>The effect of one successful relaxation of \<open>nb\<close> from \<open>cur\<close>.\<close>

lemma relax_update:
  fixes st :: astar_state and fv :: int
  assumes inv: "astar_inv m blocked s st"
    and cur: "g_score st cur = Some gc"
    and ok: "astar_ok m blocked nb" and adj: "adjacent cur nb"
    and better: "g_score st nb = None \<or> gc + 1 < the (g_score st nb)"
  defines "st' \<equiv> st\<lparr>came_from := (came_from st)(nb \<mapsto> cur),
              g_score := (g_score st)(nb \<mapsto> gc + 1),
              f_score := (f_score st)(nb \<mapsto> fv),
              open_set := open_set st @ [(fv, nb)]\<rparr>"
  shows "astar_inv m blocked s st' \<and> astar_pot m blocked s st' < astar_pot m blocked s st"
proof -
  let ?g = "g_score st" and ?C = "astar_cells m blocked s"
  have fin: "finite (dom ?g)" using inv by (rule astar_inv_finite_dom)
  note sub = astar_invD(1) [OF inv] and gs = astar_invD(2) [OF inv]
    and bound = astar_invD(3) [OF inv]
  have nb_ne_s: "nb \<noteq> s" using better gs by auto
  have nb_ne_cur: "nb \<noteq> cur" using adj by (auto simp: adjacent_def)
  have nbC: "nb \<in> ?C" using ok by (simp add: astar_cells_def)
  have gc: "gc < card (dom ?g)" using bound cur by blast
  have dom': "dom (g_score st') = insert nb (dom ?g)" by (simp add: st'_def)
  have card_le: "card (dom ?g) \<le> card (dom (g_score st'))"
    using fin by (simp add: dom' card_insert_le)
  have new_bound: "gc + 1 < card (dom (g_score st'))"
  proof (cases "?g nb")
    case None
    then have "nb \<notin> dom ?g" by auto
    with fin gc show ?thesis by (simp add: dom')
  next
    case (Some n)
    with better bound [OF Some] card_le show ?thesis by auto
  qed
  have c1: "dom (g_score st') \<subseteq> ?C" using sub nbC by (simp add: dom')
  have c2: "g_score st' s = Some 0" using gs nb_ne_s by (simp add: st'_def)
  have c3: "\<forall>v n. g_score st' v = Some n \<longrightarrow> n < card (dom (g_score st'))"
  proof (intro allI impI)
    fix v n assume h: "g_score st' v = Some n"
    show "n < card (dom (g_score st'))"
    proof (cases "v = nb")
      case True
      with h new_bound show ?thesis by (simp add: st'_def)
    next
      case False
      with h have "?g v = Some n" by (simp add: st'_def)
      then have "n < card (dom ?g)" by (rule bound)
      with card_le show ?thesis by simp
    qed
  qed
  have c4: "\<forall>e \<in> set (open_set st'). snd e \<in> dom (g_score st')"
  proof
    fix e assume "e \<in> set (open_set st')"
    then have "e \<in> set (open_set st) \<or> e = (fv, nb)" by (auto simp: st'_def)
    then show "snd e \<in> dom (g_score st')"
      using astar_invD(4) [OF inv, of e] by (auto simp: st'_def)
  qed
  have c5: "\<forall>v u. came_from st' v = Some u \<longrightarrow>
        v \<in> dom (g_score st') \<and> u \<in> dom (g_score st') \<and>
        the (g_score st' u) < the (g_score st' v) \<and> adjacent u v \<and> astar_ok m blocked v"
  proof (intro allI impI)
    fix v u assume cf: "came_from st' v = Some u"
    show "v \<in> dom (g_score st') \<and> u \<in> dom (g_score st') \<and>
          the (g_score st' u) < the (g_score st' v) \<and> adjacent u v \<and> astar_ok m blocked v"
    proof (cases "v = nb")
      case True
      with cf cur nb_ne_cur adj ok show ?thesis by (auto simp: st'_def)
    next
      case False
      with cf have old: "came_from st v = Some u" by (simp add: st'_def)
      with astar_invD(5) [OF inv] have facts: "v \<in> dom ?g" "u \<in> dom ?g"
          "the (?g u) < the (?g v)" "adjacent u v" "astar_ok m blocked v"
        by blast+
      show ?thesis
      proof (cases "u = nb")
        case True
        with facts better have "gc + 1 < the (?g v)" by auto
        with True False facts show ?thesis by (auto simp: st'_def)
      next
        case u: False
        with False facts show ?thesis by (auto simp: st'_def)
      qed
    qed
  qed
  have c6: "\<forall>v \<in> dom (g_score st'). v \<noteq> s \<longrightarrow> v \<in> dom (came_from st')"
    using astar_invD(6) [OF inv] by (auto simp: st'_def)
  have inv': "astar_inv m blocked s st'"
    unfolding astar_inv_def using c1 c2 c3 c4 c5 c6 by blast
  have pot: "astar_pot m blocked s st' < astar_pot m blocked s st"
    unfolding astar_pot_def
  proof (rule sum_strict_mono_ex1 [OF finite_astar_cells])
    show "\<forall>v\<in>?C. (case g_score st' v of None \<Rightarrow> card ?C | Some n \<Rightarrow> n)
                 \<le> (case ?g v of None \<Rightarrow> card ?C | Some n \<Rightarrow> n)"
    proof
      fix v assume "v \<in> ?C"
      show "(case g_score st' v of None \<Rightarrow> card ?C | Some n \<Rightarrow> n)
            \<le> (case ?g v of None \<Rightarrow> card ?C | Some n \<Rightarrow> n)"
      proof (cases "v = nb")
        case True
        have "card (dom (g_score st')) \<le> card ?C"
          using inv' by (rule astar_inv_card)
        with new_bound better True show ?thesis by (auto simp: st'_def split: option.splits)
      next
        case False
        then show ?thesis by (simp add: st'_def)
      qed
    qed
    have "card (dom (g_score st')) \<le> card ?C"
      using inv' by (rule astar_inv_card)
    with new_bound better
    have "(case g_score st' nb of None \<Rightarrow> card ?C | Some n \<Rightarrow> n)
          < (case ?g nb of None \<Rightarrow> card ?C | Some n \<Rightarrow> n)"
      by (auto simp: st'_def split: option.splits)
    with nbC show "\<exists>v\<in>?C. (case g_score st' v of None \<Rightarrow> card ?C | Some n \<Rightarrow> n)
                 < (case ?g v of None \<Rightarrow> card ?C | Some n \<Rightarrow> n)" by blast
  qed
  from inv' pot show ?thesis by blast
qed

lemma relax_step:
  assumes inv: "astar_inv m blocked s st" and cur: "g_score st cur = Some gc"
    and d: "d \<in> set directions"
  shows "astar_inv m blocked s (relax m goal blocked cur d st) \<and>
         g_score (relax m goal blocked cur d st) cur = Some gc \<and>
         2 * astar_pot m blocked s (relax m goal blocked cur d st)
           + length (open_set (relax m goal blocked cur d st))
         \<le> 2 * astar_pot m blocked s st + length (open_set st)"
proof -
  let ?nb = "neighbour cur d"
  have adj: "adjacent cur ?nb" using d by (rule adjacent_neighbour)
  have ne: "?nb \<noteq> cur" using d by (rule neighbour_ne)
  show ?thesis
  proof (cases "astar_ok m blocked ?nb \<and> (g_score st ?nb = None \<or> gc + 1 < the (g_score st ?nb))")
    case True
    let ?fv = "int (gc + 1) + heuristic ?nb goal"
    have eq: "relax m goal blocked cur d st =
      st\<lparr>came_from := (came_from st)(?nb \<mapsto> cur), g_score := (g_score st)(?nb \<mapsto> gc + 1),
         f_score := (f_score st)(?nb \<mapsto> ?fv), open_set := open_set st @ [(?fv, ?nb)]\<rparr>"
      using True cur by (simp add: relax_def astar_ok_def Let_def)
    from relax_update [OF inv cur _ adj, of ?fv] True
    show ?thesis using ne cur by (simp add: eq)
  next
    case False
    then have "relax m goal blocked cur d st = st"
      using cur by (auto simp: relax_def astar_ok_def Let_def)
    with inv cur show ?thesis by simp
  qed
qed

lemma fold_relax_step:
  assumes "astar_inv m blocked s st" and "g_score st cur = Some gc"
    and "set ds \<subseteq> set directions"
  shows "astar_inv m blocked s (fold (relax m goal blocked cur) ds st) \<and>
         g_score (fold (relax m goal blocked cur) ds st) cur = Some gc \<and>
         2 * astar_pot m blocked s (fold (relax m goal blocked cur) ds st)
           + length (open_set (fold (relax m goal blocked cur) ds st))
         \<le> 2 * astar_pot m blocked s st + length (open_set st)"
  using assms
proof (induction ds arbitrary: st)
  case Nil
  then show ?case by simp
next
  case (Cons d ds)
  from relax_step [OF Cons.prems(1,2)] Cons.prems(3)
  have step: "astar_inv m blocked s (relax m goal blocked cur d st)"
    "g_score (relax m goal blocked cur d st) cur = Some gc"
    "2 * astar_pot m blocked s (relax m goal blocked cur d st)
       + length (open_set (relax m goal blocked cur d st))
     \<le> 2 * astar_pot m blocked s st + length (open_set st)" by auto
  from Cons.IH [OF step(1,2)] Cons.prems(3) step(3) show ?case by auto
qed

lemma expand_step:
  assumes "astar_inv m blocked s st" and "g_score st cur = Some gc"
  shows "astar_inv m blocked s (expand m goal blocked cur st) \<and>
         2 * astar_pot m blocked s (expand m goal blocked cur st)
           + length (open_set (expand m goal blocked cur st))
         \<le> 2 * astar_pot m blocked s st + length (open_set st)"
  using fold_relax_step [OF assms, of directions goal] by (simp add: expand_def)

lemma pop_step:
  assumes inv: "astar_inv m blocked s st" and ne: "open_set st \<noteq> []"
  defines "e \<equiv> list_min (open_set st)"
  shows "astar_inv m blocked s (st\<lparr>open_set := remove1 e (open_set st)\<rparr>) \<and>
         snd e \<in> dom (g_score st) \<and>
         length (open_set (st\<lparr>open_set := remove1 e (open_set st)\<rparr>)) < length (open_set st)"
proof -
  have mem: "e \<in> set (open_set st)" using ne by (simp add: e_def list_min_in)
  have "set (remove1 e (open_set st)) \<subseteq> set (open_set st)" by (rule set_remove1_subset)
  then have "astar_inv m blocked s (st\<lparr>open_set := remove1 e (open_set st)\<rparr>)"
    using inv unfolding astar_inv_def by auto
  moreover have "snd e \<in> dom (g_score st)" using astar_invD(4) [OF inv mem] .
  moreover have "length (remove1 e (open_set st)) < length (open_set st)"
  proof -
    have "0 < length (open_set st)" using mem by (rule length_pos_if_in_set)
    with mem show ?thesis by (simp add: length_remove1)
  qed
  ultimately show ?thesis by simp
qed

lemma reconstruct_loop_ok:
  assumes inv: "astar_inv m blocked s st" and v: "v \<in> dom (g_score st)"
  shows "\<exists>q. reconstruct_loop (came_from st) v acc = Some (acc @ rev q) \<and>
             walk (astar_ok m blocked) s q \<and> (if v = s then q = [] else q \<noteq> [] \<and> last q = v) \<and>
             length q \<le> the (g_score st v)"
  using v
proof (induction "the (g_score st v)" arbitrary: v acc rule: less_induct)
  case less
  show ?case
  proof (cases "v = s")
    case True
    have "came_from st s = None"
    proof (rule ccontr)
      assume "came_from st s \<noteq> None"
      then obtain u where "came_from st s = Some u" by auto
      from astar_invD(5) [OF inv this] astar_invD(2) [OF inv] show False by simp
    qed
    with True show ?thesis by (simp add: reconstruct_loop.simps [of _ s])
  next
    case False
    with astar_invD(6) [OF inv less.prems] obtain u where cf: "came_from st v = Some u" by auto
    from astar_invD(5) [OF inv cf]
    have u: "u \<in> dom (g_score st)" and lt: "the (g_score st u) < the (g_score st v)"
      and adj: "adjacent u v" and ok: "astar_ok m blocked v" by auto
    from less.hyps [OF lt u, of "acc @ [v]"] obtain q' where
      rec: "reconstruct_loop (came_from st) u (acc @ [v]) = Some (acc @ [v] @ rev q')"
      and w: "walk (astar_ok m blocked) s q'"
      and l: "if u = s then q' = [] else q' \<noteq> [] \<and> last q' = u"
      and len: "length q' \<le> the (g_score st u)" by auto
    have last_u: "last (s # q') = u" using l by (auto split: if_splits)
    have "reconstruct_loop (came_from st) v acc = Some (acc @ rev (q' @ [v]))"
      using cf rec by (simp add: reconstruct_loop.simps [of _ v])
    moreover have "walk (astar_ok m blocked) s (q' @ [v])"
      using w last_u adj ok by simp
    ultimately show ?thesis using False len lt by (intro exI [of _ "q' @ [v]"]) simp
  qed
qed

lemma astar_loop_ok:
  assumes "astar_inv m blocked s st"
  shows "\<exists>p. astar_loop m goal blocked st = Some p \<and>
             (p \<noteq> [] \<longrightarrow> walk (astar_ok m blocked) s p \<and> last p = goal) \<and>
             (goal \<notin> astar_cells m blocked s \<longrightarrow> p = [])"
  using assms
proof (induction "2 * astar_pot m blocked s st + length (open_set st)" arbitrary: st rule: less_induct)
  case less
  note inv = less.prems
  show ?case
  proof (cases "open_set st = []")
    case True
    then show ?thesis by (simp add: astar_loop.simps [of m goal blocked st])
  next
    case False
    let ?e = "list_min (open_set st)"
    let ?cur = "snd ?e"
    let ?st' = "st\<lparr>open_set := remove1 ?e (open_set st)\<rparr>"
    from pop_step [OF inv False] have inv': "astar_inv m blocked s ?st'"
      and cur: "?cur \<in> dom (g_score st)"
      and shorter: "length (open_set ?st') < length (open_set st)" by auto
    have unfold: "astar_loop m goal blocked st =
        (if ?cur = goal then reconstruct_path (came_from ?st') ?cur
         else astar_loop m goal blocked (expand m goal blocked ?cur ?st'))"
      using False by (simp add: astar_loop.simps [of m goal blocked st] Let_def)
    show ?thesis
    proof (cases "?cur = goal")
      case True
      have cur': "?cur \<in> dom (g_score ?st')" using cur by simp
      from reconstruct_loop_ok [OF inv' cur', of "[]"] obtain q where
        rec: "reconstruct_loop (came_from ?st') ?cur [] = Some (rev q)"
        and w: "walk (astar_ok m blocked) s q"
        and l: "if ?cur = s then q = [] else q \<noteq> [] \<and> last q = ?cur" by auto
      have "goal \<in> astar_cells m blocked s" using True cur astar_invD(1) [OF inv] by auto
      with True rec w l show ?thesis
        by (auto simp: unfold reconstruct_path_def split: if_splits)
    next
      case False
      from cur obtain gc where gc: "g_score ?st' ?cur = Some gc" by auto
      from expand_step [OF inv' gc, of goal]
      have inv'': "astar_inv m blocked s (expand m goal blocked ?cur ?st')"
        and le: "2 * astar_pot m blocked s (expand m goal blocked ?cur ?st')
                 + length (open_set (expand m goal blocked ?cur ?st'))
               \<le> 2 * astar_pot m blocked s ?st' + length (open_set ?st')" by auto
      have pot_eq: "astar_pot m blocked s ?st' = astar_pot m blocked s st"
        by (simp add: astar_pot_def)
      from le shorter pot_eq
      have "2 * astar_pot m blocked s (expand m goal blocked ?cur ?st')
              + length (open_set (expand m goal blocked ?cur ?st'))
            < 2 * astar_pot m blocked s st + length (open_set st)" by linarith
      from less.hyps [OF this inv''] False show ?thesis by (simp add: unfold)
    qed
  qed
qed

lemma astar_inv_init: "astar_inv m blocked s (astar_init s goal)"
  by (simp add: astar_inv_def astar_init_def astar_cells_def)

text \<open>What every caller of \<open>find_path\<close> uses: it returns, and what it returns.\<close>

lemma find_path_ok:
  "\<exists>p. find_path m start goal blocked = Some p \<and>
       (p \<noteq> [] \<longrightarrow> walk (astar_ok m blocked) start p \<and> last p = goal) \<and>
       (goal \<notin> astar_cells m blocked start \<longrightarrow> p = [])"
  unfolding find_path_def by (rule astar_loop_ok [OF astar_inv_init])

lemma astar_init_opt:
  "astar_settled m blocked goal s (astar_init s goal) \<and> astar_fbound goal s (astar_init s goal)"
  by (simp add: astar_settled_def astar_fbound_def astar_init_def astar_entry_def)

lemma astar_settledD:
  "astar_settled m blocked goal s st \<Longrightarrow> g_score st v = Some n \<Longrightarrow>
   astar_entry goal s v n \<in> set (open_set st) \<or>
   (v \<noteq> goal \<and> (\<forall>d \<in> set directions. astar_ok m blocked (neighbour v d) \<longrightarrow>
      (\<exists>n'. g_score st (neighbour v d) = Some n' \<and> n' \<le> n + 1)))"
  unfolding astar_settled_def by blast

lemma heuristic_walk: "walk ok v q \<Longrightarrow> heuristic v (last (v # q)) \<le> int (length q)"
proof (induction q arbitrary: v)
  case Nil
  then show ?case by (simp add: heuristic_def)
next
  case (Cons w q)
  then have adj: "adjacent v w" and w: "walk ok w q" by simp_all
  have "heuristic v (last (w # q)) \<le> heuristic v w + heuristic w (last (w # q))"
    unfolding heuristic_def by arith
  moreover have "heuristic v w = 1" using adj by (simp add: heuristic_def adjacent_def)
  ultimately show ?case using Cons.IH [OF w] by simp
qed

lemma astar_desc_refl: "astar_desc goal s st st"
  by (auto simp: astar_desc_def)

lemma astar_desc_g:
  "astar_desc goal s st st' \<Longrightarrow> g_score st v = Some n \<Longrightarrow> n \<le> k \<Longrightarrow>
   \<exists>n'. g_score st' v = Some n' \<and> n' \<le> k"
  unfolding astar_desc_def by (meson order_trans)

lemma astar_desc_trans:
  assumes d1: "astar_desc goal s st1 st2" and d2: "astar_desc goal s st2 st3"
  shows "astar_desc goal s st1 st3"
proof -
  have e: "astar_entry goal s v n \<in> set (open_set st3)"
    if 3: "g_score st3 v = Some n" and 1: "g_score st1 v \<noteq> Some n" for v n
  proof (cases "g_score st2 v = Some n")
    case True
    with 1 d1 d2 show ?thesis unfolding astar_desc_def by blast
  next
    case False
    with 3 d2 show ?thesis unfolding astar_desc_def by blast
  qed
  have "g_score st1 v = Some n \<Longrightarrow> \<exists>n'. g_score st3 v = Some n' \<and> n' \<le> n" for v n
    using astar_desc_g [OF d2] d1 unfolding astar_desc_def by blast
  with e d1 d2 show ?thesis unfolding astar_desc_def by blast
qed

text \<open>One relaxation keeps the optimality bookkeeping and leaves the relaxed
  neighbour, when enterable, with a g-score at most one above the current one.\<close>

lemma relax_desc:
  fixes d :: pos
  assumes inv: "astar_inv m blocked s st" and cur: "g_score st cur = Some gc"
    and fb: "astar_fbound goal s st"
  defines "nb \<equiv> neighbour cur d" and "st' \<equiv> relax m goal blocked cur d st"
  shows "astar_desc goal s st st' \<and> astar_fbound goal s st' \<and>
         (astar_ok m blocked nb \<longrightarrow> (\<exists>n'. g_score st' nb = Some n' \<and> n' \<le> gc + 1))"
proof (cases "astar_ok m blocked nb \<and> (g_score st nb = None \<or> gc + 1 < the (g_score st nb))")
  case True
  let ?fv = "int (gc + 1) + heuristic nb goal"
  have eq: "st' = st\<lparr>came_from := (came_from st)(nb \<mapsto> cur), g_score := (g_score st)(nb \<mapsto> gc + 1),
         f_score := (f_score st)(nb \<mapsto> ?fv), open_set := open_set st @ [(?fv, nb)]\<rparr>"
    using True cur by (simp add: st'_def nb_def relax_def astar_ok_def Let_def)
  have nb_s: "nb \<noteq> s" using True astar_invD(2) [OF inv] by auto
  have lower: "gc + 1 \<le> n" if "g_score st nb = Some n" for n
    using True that by auto
  have desc: "astar_desc goal s st st'"
    using lower nb_s by (auto simp: eq astar_desc_def astar_entry_def)
  have "astar_fbound goal s st'"
    unfolding astar_fbound_def
  proof
    fix e assume "e \<in> set (open_set st')"
    then consider (old) "e \<in> set (open_set st)" | (new) "e = (?fv, nb)" by (auto simp: eq)
    then show "e = (0, s) \<or>
      (snd e \<noteq> s \<and> (\<exists>n. g_score st' (snd e) = Some n \<and> int n + heuristic (snd e) goal \<le> fst e))"
    proof cases
      case old
      with fb have "e = (0, s) \<or>
        (snd e \<noteq> s \<and> (\<exists>n. g_score st (snd e) = Some n \<and> int n + heuristic (snd e) goal \<le> fst e))"
        unfolding astar_fbound_def by blast
      then show ?thesis using lower by (auto simp: eq)
    next
      case new
      then show ?thesis using nb_s by (simp add: eq)
    qed
  qed
  with desc show ?thesis by (simp add: eq)
next
  case False
  then have "st' = st" using cur by (auto simp: st'_def nb_def relax_def astar_ok_def Let_def)
  moreover have "astar_ok m blocked nb \<longrightarrow> (\<exists>n'. g_score st nb = Some n' \<and> n' \<le> gc + 1)"
    using False by (cases "g_score st nb") auto
  ultimately show ?thesis using fb by (simp add: astar_desc_refl)
qed

lemma fold_relax_desc:
  assumes "astar_inv m blocked s st" and "g_score st cur = Some gc"
    and "set ds \<subseteq> set directions" and "astar_fbound goal s st"
  shows "astar_desc goal s st (fold (relax m goal blocked cur) ds st) \<and>
         astar_fbound goal s (fold (relax m goal blocked cur) ds st) \<and>
         (\<forall>d \<in> set ds. astar_ok m blocked (neighbour cur d) \<longrightarrow>
            (\<exists>n'. g_score (fold (relax m goal blocked cur) ds st) (neighbour cur d) = Some n' \<and> n' \<le> gc + 1))"
  using assms
proof (induction ds arbitrary: st)
  case Nil
  then show ?case by (simp add: astar_desc_refl)
next
  case (Cons d ds)
  let ?st1 = "relax m goal blocked cur d st"
  let ?st2 = "fold (relax m goal blocked cur) ds ?st1"
  have d: "d \<in> set directions" using Cons.prems(3) by simp
  from relax_step [OF Cons.prems(1,2) d]
  have inv1: "astar_inv m blocked s ?st1" and cur1: "g_score ?st1 cur = Some gc" by auto
  from relax_desc [OF Cons.prems(1,2,4), of d]
  have desc1: "astar_desc goal s st ?st1" and fb1: "astar_fbound goal s ?st1"
    and nb1: "astar_ok m blocked (neighbour cur d) \<longrightarrow>
              (\<exists>n'. g_score ?st1 (neighbour cur d) = Some n' \<and> n' \<le> gc + 1)" by auto
  from Cons.IH [OF inv1 cur1 _ fb1] Cons.prems(3)
  have desc2: "astar_desc goal s ?st1 ?st2" and fb2: "astar_fbound goal s ?st2"
    and nbs: "\<forall>d' \<in> set ds. astar_ok m blocked (neighbour cur d') \<longrightarrow>
              (\<exists>n'. g_score ?st2 (neighbour cur d') = Some n' \<and> n' \<le> gc + 1)" by auto
  have "astar_ok m blocked (neighbour cur d) \<longrightarrow>
        (\<exists>n'. g_score ?st2 (neighbour cur d) = Some n' \<and> n' \<le> gc + 1)"
    using nb1 astar_desc_g [OF desc2] by blast
  with astar_desc_trans [OF desc1 desc2] fb2 nbs show ?case by simp
qed

text \<open>An iteration that pops a cell other than the goal and expands it keeps
  the optimality invariant.\<close>

lemma expand_settled:
  assumes inv: "astar_inv m blocked s st" and stl: "astar_settled m blocked goal s st"
    and fb: "astar_fbound goal s st" and ne: "open_set st \<noteq> []"
    and cg: "snd (list_min (open_set st)) \<noteq> goal"
  defines "e \<equiv> list_min (open_set st)"
  defines "st2 \<equiv> expand m goal blocked (snd e) (st\<lparr>open_set := remove1 e (open_set st)\<rparr>)"
  shows "astar_settled m blocked goal s st2 \<and> astar_fbound goal s st2"
proof -
  let ?cur = "snd e"
  let ?st1 = "st\<lparr>open_set := remove1 e (open_set st)\<rparr>"
  from pop_step [OF inv ne] have inv1: "astar_inv m blocked s ?st1"
    and "?cur \<in> dom (g_score st)" by (auto simp: e_def)
  then obtain gc where gc: "g_score ?st1 ?cur = Some gc" by auto
  have fb1: "astar_fbound goal s ?st1"
    using fb set_remove1_subset [of e "open_set st"] by (auto simp: astar_fbound_def)
  from fold_relax_desc [OF inv1 gc order_refl fb1]
  have desc: "astar_desc goal s ?st1 st2" and fb2: "astar_fbound goal s st2"
    and nbs: "\<forall>d \<in> set directions. astar_ok m blocked (neighbour ?cur d) \<longrightarrow>
              (\<exists>n'. g_score st2 (neighbour ?cur d) = Some n' \<and> n' \<le> gc + 1)"
    by (auto simp: st2_def expand_def)
  have gc2: "g_score st2 ?cur = Some gc"
    using fold_relax_step [OF inv1 gc order_refl, of goal] by (simp add: st2_def expand_def)
  have "astar_entry goal s v n \<in> set (open_set st2) \<or>
        (v \<noteq> goal \<and> (\<forall>d \<in> set directions. astar_ok m blocked (neighbour v d) \<longrightarrow>
           (\<exists>n'. g_score st2 (neighbour v d) = Some n' \<and> n' \<le> n + 1)))"
    if v2: "g_score st2 v = Some n" for v n
  proof (cases "g_score ?st1 v = Some n")
    case False
    with desc v2 show ?thesis unfolding astar_desc_def by blast
  next
    case v1: True
    show ?thesis
    proof (cases "v = ?cur")
      case True
      with v2 gc2 nbs cg show ?thesis by (simp add: e_def)
    next
      case vc: False
      from v1 have "g_score st v = Some n" by simp
      from astar_settledD [OF stl this] show ?thesis
      proof
        assume "astar_entry goal s v n \<in> set (open_set st)"
        moreover have "astar_entry goal s v n \<noteq> e" using vc by (auto simp: astar_entry_def)
        ultimately have "astar_entry goal s v n \<in> set (open_set ?st1)" by simp
        with desc show ?thesis unfolding astar_desc_def by blast
      next
        assume "v \<noteq> goal \<and> (\<forall>d \<in> set directions. astar_ok m blocked (neighbour v d) \<longrightarrow>
           (\<exists>n'. g_score st (neighbour v d) = Some n' \<and> n' \<le> n + 1))"
        then show ?thesis using astar_desc_g [OF desc] by fastforce
      qed
    qed
  qed
  then have "astar_settled m blocked goal s st2" unfolding astar_settled_def by blast
  with fb2 show ?thesis by simp
qed

text \<open>Along any walk to the goal from a scored cell, the heap holds an entry no
  larger than that cell's g-score plus the walk's length: the first cell of the
  walk that was not expanded with an optimal score has its entry in the heap, and
  the heuristic never exceeds the remaining length.\<close>

lemma astar_frontier:
  assumes stl: "astar_settled m blocked goal s st"
  shows "g_score st v = Some n \<Longrightarrow> walk (astar_ok m blocked) v q \<Longrightarrow> last (v # q) = goal \<Longrightarrow>
         \<exists>e \<in> set (open_set st). fst e \<le> int n + int (length q)"
proof (induction q arbitrary: v n)
  case Nil
  then have "astar_entry goal s v n \<in> set (open_set st)" using astar_settledD [OF stl, of v n] by simp
  with Nil.prems(3) show ?case
    by (intro bexI [of _ "astar_entry goal s v n"]) (simp_all add: astar_entry_def heuristic_def)
next
  case (Cons w q)
  from Cons.prems have ok: "astar_ok m blocked w" and adj: "adjacent v w"
    and wq: "walk (astar_ok m blocked) w q" and lw: "last (w # q) = goal" by auto
  from astar_settledD [OF stl Cons.prems(1)] consider
      (entry) "astar_entry goal s v n \<in> set (open_set st)"
    | (expanded) "\<forall>d \<in> set directions. astar_ok m blocked (neighbour v d) \<longrightarrow>
               (\<exists>n'. g_score st (neighbour v d) = Some n' \<and> n' \<le> n + 1)"
    by blast
  then show ?case
  proof cases
    case entry
    have "heuristic v goal \<le> int (length (w # q))"
      using heuristic_walk [OF Cons.prems(2)] Cons.prems(3) by simp
    then have "fst (astar_entry goal s v n) \<le> int n + int (length (w # q))"
      by (simp add: astar_entry_def)
    with entry show ?thesis by blast
  next
    case expanded
    from adjacent_directions [OF adj] obtain d where "d \<in> set directions" "w = neighbour v d" by blast
    with expanded ok obtain n' where n': "g_score st w = Some n'" "n' \<le> n + 1" by auto
    from Cons.IH [OF n'(1) wq lw] obtain e where "e \<in> set (open_set st)"
      "fst e \<le> int n' + int (length q)" by blast
    with n'(2) show ?thesis by (intro bexI [of _ e]) simp_all
  qed
qed

lemma astar_loop_optimal:
  assumes "astar_inv m blocked s st" and "astar_settled m blocked goal s st"
    and "astar_fbound goal s st"
    and q: "walk (astar_ok m blocked) s q" and lq: "last (s # q) = goal" and gs: "goal \<noteq> s"
  shows "\<exists>p. astar_loop m goal blocked st = Some p \<and> p \<noteq> [] \<and> length p \<le> length q"
  using assms(1-3)
proof (induction "2 * astar_pot m blocked s st + length (open_set st)" arbitrary: st rule: less_induct)
  case less
  note inv = less.prems(1) and stl = less.prems(2) and fb = less.prems(3)
  from astar_frontier [OF stl astar_invD(2) [OF inv] q lq]
  obtain e0 where e0: "e0 \<in> set (open_set st)" "fst e0 \<le> int (length q)" by auto
  then have ne: "open_set st \<noteq> []" by auto
  let ?e = "list_min (open_set st)"
  let ?cur = "snd ?e"
  let ?st' = "st\<lparr>open_set := remove1 ?e (open_set st)\<rparr>"
  from pop_step [OF inv ne] have inv': "astar_inv m blocked s ?st'"
    and cur: "?cur \<in> dom (g_score st)"
    and shorter: "length (open_set ?st') < length (open_set st)" by auto
  have unfold: "astar_loop m goal blocked st =
      (if ?cur = goal then reconstruct_path (came_from ?st') ?cur
       else astar_loop m goal blocked (expand m goal blocked ?cur ?st'))"
    using ne by (simp add: astar_loop.simps [of m goal blocked st] Let_def)
  have fe: "fst ?e \<le> int (length q)"
    using fst_mono_prod [OF list_min_le [OF e0(1)]] e0(2) by linarith
  show ?case
  proof (cases "?cur = goal")
    case True
    have "?e \<in> set (open_set st)" using ne by (rule list_min_in)
    with fb True gs obtain n where n: "g_score st goal = Some n" "int n \<le> fst ?e"
      unfolding astar_fbound_def by (auto simp: heuristic_def)
    have cur': "goal \<in> dom (g_score ?st')" using n by auto
    from reconstruct_loop_ok [OF inv' cur', of "[]"] gs n obtain p where
      "reconstruct_loop (came_from st) goal [] = Some (rev p)" "p \<noteq> []" "length p \<le> n" by auto
    then show ?thesis using True fe n by (auto simp: unfold reconstruct_path_def)
  next
    case False
    from cur obtain gc where gc: "g_score ?st' ?cur = Some gc" by auto
    from expand_step [OF inv' gc, of goal]
    have inv'': "astar_inv m blocked s (expand m goal blocked ?cur ?st')"
      and le: "2 * astar_pot m blocked s (expand m goal blocked ?cur ?st')
               + length (open_set (expand m goal blocked ?cur ?st'))
             \<le> 2 * astar_pot m blocked s ?st' + length (open_set ?st')" by auto
    from expand_settled [OF inv stl fb ne False]
    have stl'': "astar_settled m blocked goal s (expand m goal blocked ?cur ?st')"
      and fb'': "astar_fbound goal s (expand m goal blocked ?cur ?st')" by auto
    have "astar_pot m blocked s ?st' = astar_pot m blocked s st"
      by (simp add: astar_pot_def)
    with le shorter
    have "2 * astar_pot m blocked s (expand m goal blocked ?cur ?st')
            + length (open_set (expand m goal blocked ?cur ?st'))
          < 2 * astar_pot m blocked s st + length (open_set st)" by linarith
    from less.hyps [OF this inv'' stl'' fb''] False show ?thesis by (simp add: unfold)
  qed
qed

subsection \<open>Properties of find_path\<close>

text \<open>C1: \<open>find_path\<close> always returns: the search loop and the path
  reconstruction terminate on every map, start, goal and blocked list.\<close>

theorem find_path_terminates: "\<exists>p. find_path m start goal blocked = Some p"
  using find_path_ok by blast

text \<open>C3: a non-empty path returned by \<open>find_path\<close> leads from the start
  (excluded) to the goal through walkable, unblocked cells, each orthogonally
  adjacent to the one before.\<close>

theorem find_path_sound:
  assumes "find_path m start goal blocked = Some p" and "p \<noteq> []"
  shows "walk (\<lambda>q. is_walkable m q \<and> q \<notin> set blocked) start p \<and> last p = goal"
  using find_path_ok [of m start goal blocked] assms by (auto simp: astar_ok_def [abs_def])

lemma find_path_open5:
  "find_path (replicate 5 (replicate 5 CHR '' '')) (0, 0) (4, 4) [] =
   Some [(0, 1), (0, 2), (0, 3), (0, 4), (1, 4), (2, 4), (3, 4), (4, 4)]"
  by code_simp

theorem find_path_sound_witness:
  "walk (\<lambda>q. is_walkable (replicate 5 (replicate 5 CHR '' '')) q \<and> q \<notin> set [])
     (0, 0) [(0, 1), (0, 2), (0, 3), (0, 4), (1, 4), (2, 4), (3, 4), (4, 4)] \<and>
   last [(0, 1), (0, 2), (0, 3), (0, 4), (1, 4), (2, 4), (3, 4), (4, 4)] = ((4, 4) :: pos)"
  using find_path_sound [OF find_path_open5] by simp

text \<open>C2: \<open>find_path\<close> returns a shortest path: when the goal differs from the
  start and some walk of walkable, unblocked cells reaches it, \<open>find_path\<close>
  returns a non-empty path no longer than that walk.\<close>

theorem find_path_optimal:
  assumes w: "walk (\<lambda>q. is_walkable m q \<and> q \<notin> set blocked) start q"
    and l: "last (start # q) = goal" and ne: "goal \<noteq> start"
  shows "\<exists>p. find_path m start goal blocked = Some p \<and> p \<noteq> [] \<and> length p \<le> length q"
proof -
  from w have "walk (astar_ok m blocked) start q" by (simp add: astar_ok_def [abs_def])
  from astar_loop_optimal [OF astar_inv_init conjunct1 [OF astar_init_opt]
      conjunct2 [OF astar_init_opt] this l ne]
  show ?thesis by (simp add: find_path_def)
qed

theorem find_path_optimal_witness:
  "\<exists>p. find_path (replicate 5 (replicate 5 CHR '' '')) (0, 0) (4, 4) [(0, 1), (1, 1), (2, 1), (3, 1)] = Some p \<and>
       p \<noteq> [] \<and> length p \<le> 8"
  using find_path_optimal [of "replicate 5 (replicate 5 CHR '' '')" "[(0, 1), (1, 1), (2, 1), (3, 1)]" "(0, 0)"
      "[(1, 0), (2, 0), (3, 0), (4, 0), (4, 1), (4, 2), (4, 3), (4, 4)]" "(4, 4)"]
  by (simp add: is_walkable_def in_bounds_def tile_at_def width_def height_def adjacent_def numeral_eq_Suc)

text \<open>C4: no blocked position ever appears in a path \<open>find_path\<close> returns,
  even when it lies on every shortest route.\<close>

theorem find_path_avoids_blocked:
  assumes "find_path m start goal blocked = Some p"
  shows "set p \<inter> set blocked = {}"
proof -
  have "walk (astar_ok m blocked) start p"
    using find_path_ok [of m start goal blocked] assms by auto
  then show ?thesis by (auto dest: walk_set simp: astar_ok_def)
qed

lemma find_path_open5_blocked:
  "find_path (replicate 5 (replicate 5 CHR '' '')) (0, 0) (4, 4) [(0, 1), (1, 1), (2, 1), (3, 1)] =
   Some [(1, 0), (2, 0), (3, 0), (4, 0), (4, 1), (4, 2), (4, 3), (4, 4)]"
  by code_simp

theorem find_path_avoids_blocked_witness:
  "set [(1, 0), (2, 0), (3, 0), (4, 0), (4, 1), (4, 2), (4, 3), (4, 4)]
     \<inter> set [(0, 1), (1, 1), (2, 1), (3, 1)] = ({} :: pos set)"
  using find_path_avoids_blocked [OF find_path_open5_blocked] .

text \<open>C5: a goal that is a wall, out of bounds or blocked, and is not the start,
  makes \<open>find_path\<close> return the empty path ("no path found").\<close>

theorem find_path_unreachable_goal:
  assumes "goal \<noteq> start" and "\<not> is_walkable m goal \<or> goal \<in> set blocked"
  shows "find_path m start goal blocked = Some []"
proof -
  have "goal \<notin> astar_cells m blocked start"
    using assms by (auto simp: astar_cells_def astar_ok_def)
  then show ?thesis using find_path_ok [of m start goal blocked] by auto
qed

theorem find_path_unreachable_goal_witness:
  "find_path [''  W''] (0, 0) (2, 0) [] = Some []"
proof -
  have "(2, 0) \<noteq> ((0, 0) :: pos)" by simp
  moreover have "\<not> is_walkable [''  W''] (2, 0) \<or> (2, 0) \<in> set ([] :: pos list)"
    by (simp add: is_walkable_def in_bounds_def tile_at_def width_def height_def)
  ultimately show ?thesis by (rule find_path_unreachable_goal)
qed

end
