(* ===== verification/Genetic.thy ===== *)
theory Genetic
  imports Complex_Main Fitness AStar
begin

text \<open>
  \<open>GeneticAlgorithm\<close> of \<open>src/model.py\<close>: its state (the record \<open>ga\<close>),
  \<open>initialize_population\<close>, \<open>get_target\<close>, \<open>select_population\<close>,
  \<open>crossover\<close>, \<open>mutate\<close>, \<open>get_best_chromosome\<close> and \<open>evolve\<close>, and
  \<open>AdversarialAlgorithm.calculate_avoidance_path\<close> and \<open>.evolve\<close>.
  Every value the code draws from \<open>random\<close> is an argument: a function from the
  draw's number to its outcome (\<open>random.random()\<close> as the exact rational value of
  the float it returns). A Python exception is an \<open>Inl\<close> value of \<open>py_error\<close>.
  \<open>evolve\<close> calls \<open>find_path\<close>, an option-valued function; its own result is
  therefore an option too, and \<open>evolve_returns\<close> below shows it is never
  \<open>None\<close>.
\<close>

datatype py_error = ValueError | IndexError

record ga =
  population_size :: nat
  chromosome_length :: nat
  mutation_rate :: rat
  ga_tilemap :: tilemap
  population :: "move list list"
  adversarial :: "tilemap option"
  fitness_history :: "int list"

text \<open>The random draws of one call of \<open>evolve\<close>.\<close>

record ga_draws =
  choice_idx :: nat
  sel_u :: "nat \<Rightarrow> rat"
  sel_perm :: "nat list"
  pair_draw :: "nat \<Rightarrow> nat \<times> nat"
  split_draw :: "nat \<Rightarrow> nat"
  mut_draw :: "nat \<Rightarrow> nat \<Rightarrow> rat \<times> move"

subsection \<open>Population\<close>

text \<open>\<open>initialize_population\<close>: gene \<open>j\<close> of chromosome \<open>i\<close> is the draw
  \<open>draw i j\<close> of \<open>random.choice(moves)\<close>.\<close>

definition initialize_population :: "nat \<Rightarrow> nat \<Rightarrow> (nat \<Rightarrow> nat \<Rightarrow> move) \<Rightarrow> move list list" where
  "initialize_population ps cl draw = map (\<lambda>i. map (draw i) [0..<cl]) [0..<ps]"

subsection \<open>Target selection\<close>

text \<open>
  \<open>get_target\<close>: scan the map row by row, keeping the first pellet at strictly
  smaller Manhattan distance than the best so far (\<open>min_distance\<close> starts at
  infinity: \<open>None\<close>).
\<close>

definition map_cells :: "tilemap \<Rightarrow> (pos \<times> char) list" where
  "map_cells m = concat (map (\<lambda>(y, row). map (\<lambda>(x, t). ((int x, int y), t)) (enumerate 0 row)) (enumerate 0 m))"

definition target_step :: "pos \<Rightarrow> (pos \<times> int) option \<Rightarrow> pos \<times> char \<Rightarrow> (pos \<times> int) option" where
  "target_step start best cell =
     (if snd cell = CHR ''.'' then
        (let d = heuristic start (fst cell) in
         case best of
           None \<Rightarrow> Some (fst cell, d)
         | Some (_, md) \<Rightarrow> if d < md then Some (fst cell, d) else best)
      else best)"

definition get_target :: "tilemap \<Rightarrow> pos \<Rightarrow> pos option" where
  "get_target m start = map_option fst (foldl (target_step start) None (map_cells m))"

subsection \<open>Selection\<close>

text \<open>
  \<open>random.sample(population, k)\<close>: the first \<open>k\<close> positions of the
  permutation \<open>perm\<close> the library draws. \<open>random.choices(population,
  weights=w, k=k)\<close>: the cumulative weights, and for each draw \<open>u\<close> of
  \<open>random()\<close> the index \<open>bisect_right(cum_weights, u * total, 0, n - 1)\<close>;
  on the sorted list of cumulative weights the binary search returns the number of
  entries up to \<open>hi\<close> that are at most its key.
\<close>

fun cum_weights :: "rat \<Rightarrow> rat list \<Rightarrow> rat list" where
  "cum_weights acc [] = []"
| "cum_weights acc (w # ws) = (acc + w) # cum_weights (acc + w) ws"

definition bisect_right :: "rat list \<Rightarrow> rat \<Rightarrow> nat \<Rightarrow> nat" where
  "bisect_right a x hi = length (takeWhile (\<lambda>v. v \<le> x) (take hi a))"

definition choices :: "'a list \<Rightarrow> rat list \<Rightarrow> nat \<Rightarrow> (nat \<Rightarrow> rat) \<Rightarrow> 'a list" where
  "choices pop ws k u =
     (let cw = cum_weights 0 ws; total = last cw
      in map (\<lambda>j. pop ! bisect_right cw (u j * total) (length pop - 1)) [0..<k])"

definition sample :: "'a list \<Rightarrow> nat \<Rightarrow> nat list \<Rightarrow> 'a list" where
  "sample pop k perm = map (\<lambda>i. pop ! i) (take k perm)"

text \<open>\<open>select_population\<close>: roulette selection over \<open>max(score, 0)\<close>, or a
  uniform sample when every weight is 0.\<close>

definition select_population :: "move list list \<Rightarrow> int list \<Rightarrow> ga_draws \<Rightarrow> move list list" where
  "select_population pop scores dr =
     (let total = sum_list (map (\<lambda>s. max s 0) scores) in
      if total = 0 then sample pop (length pop div 2) (sel_perm dr)
      else choices pop (map (\<lambda>s. of_int (max s 0) / of_int total) scores) (length pop div 2) (sel_u dr))"

subsection \<open>Crossover and mutation\<close>

text \<open>\<open>crossover\<close>: \<open>random.randint(1, chromosome_length - 1)\<close> raises
  \<open>ValueError\<close> on an empty range; otherwise the drawn cut \<open>split\<close>.\<close>

definition crossover :: "nat \<Rightarrow> nat \<Rightarrow> move list \<Rightarrow> move list \<Rightarrow> py_error + move list \<times> move list" where
  "crossover cl split p1 p2 =
     (if int cl - 1 < 1 then Inl ValueError
      else Inr (take split p1 @ drop split p2, take split p2 @ drop split p1))"

text \<open>\<open>mutate\<close>: gene \<open>i\<close> is replaced by the drawn move when the drawn
  \<open>random.random()\<close> is below the rate.\<close>

definition mutate :: "rat \<Rightarrow> (nat \<Rightarrow> rat \<times> move) \<Rightarrow> move list \<Rightarrow> move list" where
  "mutate rate draw c = map (\<lambda>(i, g). if fst (draw i) < rate then snd (draw i) else g) (enumerate 0 c)"

subsection \<open>Best chromosome\<close>

text \<open>\<open>fitness_scores.index(max(fitness_scores))\<close> and the lookup in
  \<open>self.population\<close>; \<open>max\<close> of an empty list raises \<open>ValueError\<close>.\<close>

definition get_best_chromosome :: "move list list \<Rightarrow> int list \<Rightarrow> py_error + move list" where
  "get_best_chromosome pop scores =
     (if scores = [] then Inl ValueError
      else (let i = list_index scores (Max (set scores)) in
            if i < length pop then Inr (pop ! i) else Inl IndexError))"

subsection \<open>The evolution step\<close>

text \<open>
  The \<open>while len(new_population) < self.population_size\<close> loop (the same
  lines in both \<open>evolve\<close> methods): iteration \<open>i\<close> draws two distinct
  positions of \<open>selected\<close> (\<open>random.sample(selected, 2)\<close> raises
  \<open>ValueError\<close> when \<open>selected\<close> has fewer than two), the cut of its
  crossover, and the draws of mutation calls \<open>2 i\<close> and \<open>2 i + 1\<close>.
\<close>

function breed :: "ga \<Rightarrow> move list list \<Rightarrow> ga_draws \<Rightarrow> nat \<Rightarrow> move list list \<Rightarrow> py_error + move list list" where
  "breed g selected dr i newpop =
     (if length newpop < population_size g then
        (if length selected < 2 then Inl ValueError
         else
           (case crossover (chromosome_length g) (split_draw dr i)
                   (selected ! fst (pair_draw dr i)) (selected ! snd (pair_draw dr i)) of
              Inl e \<Rightarrow> Inl e
            | Inr (c1, c2) \<Rightarrow>
                (let np1 = newpop @ [mutate (mutation_rate g) (mut_draw dr (2 * i)) c1];
                     np2 = (if length np1 < population_size g
                            then np1 @ [mutate (mutation_rate g) (mut_draw dr (2 * i + 1)) c2]
                            else np1)
                 in breed g selected dr (Suc i) np2)))
      else Inr newpop)"
  by pat_completeness auto
termination
  by (relation "measure (\<lambda>(g, sel, dr, i, np). population_size g - length np)") auto

declare breed.simps [simp del]

text \<open>
  \<open>GeneticAlgorithm.evolve\<close>. Its argument \<open>a_star_path\<close> is overwritten
  before use and is not modelled. Without a target the result is
  \<open>random.choice(self.population)\<close> and the state is unchanged. Otherwise:
  the reference path, the scores of the whole population, the appended maximum
  (\<open>max\<close> of no scores raises \<open>ValueError\<close>), selection, breeding, the
  replaced population, and then \<open>get_best_chromosome\<close>, which reads the
  population after the replacement.
\<close>

definition evolve :: "ga \<Rightarrow> world \<Rightarrow> ga_draws \<Rightarrow> (py_error + ga \<times> move list) option" where
  "evolve g w dr =
     (let start = player_tile w; m = ga_tilemap g in
      case get_target m start of
        None \<Rightarrow> Some (if population g = [] then Inl IndexError
                       else Inr (g, population g ! choice_idx dr))
      | Some target \<Rightarrow>
          (case find_path m start target [] of
             None \<Rightarrow> None
           | Some P \<Rightarrow> Some
               (let scores = map (\<lambda>c. evaluate_fitness m (adversarial g) w c P (enemy_tiles w)) (population g)
                in if scores = [] then Inl ValueError
                   else
                     (let g1 = g\<lparr>fitness_history := fitness_history g @ [Max (set scores)]\<rparr>;
                          selected = select_population (population g) scores dr
                      in case breed g1 selected dr 0 [] of
                           Inl e \<Rightarrow> Inl e
                         | Inr newpop \<Rightarrow>
                             (let g2 = g1\<lparr>population := newpop\<rparr> in
                              case get_best_chromosome newpop scores of
                                Inl e \<Rightarrow> Inl e
                              | Inr best \<Rightarrow> Inr (g2, best))))))"

subsection \<open>The adversarial variant\<close>

text \<open>\<open>AdversarialAlgorithm.calculate_avoidance_path\<close>: the ghost tiles are
  blocked (\<open>set(ghost_positions)\<close> has the list's members).\<close>

definition calculate_avoidance_path :: "tilemap \<Rightarrow> pos \<Rightarrow> pos \<Rightarrow> pos list \<Rightarrow> path option" where
  "calculate_avoidance_path pm start target gs = find_path pm start target gs"

text \<open>
  \<open>AdversarialAlgorithm.evolve\<close>: \<open>am\<close> is the adversarial object's tile map
  (read by its pellet test), \<open>pm\<close> the tile map of the \<open>a_star_pathfinder\<close>
  it was given, \<open>g\<close> the genetic algorithm it drives. It scores with
  \<open>AdversarialAlgorithm.evaluate_fitness\<close> and appends nothing to
  \<open>fitness_history\<close>.
\<close>

definition adversarial_evolve :: "tilemap \<Rightarrow> tilemap \<Rightarrow> ga \<Rightarrow> world \<Rightarrow> ga_draws \<Rightarrow> (py_error + ga \<times> move list) option" where
  "adversarial_evolve am pm g w dr =
     (let start = player_tile w in
      case get_target (ga_tilemap g) start of
        None \<Rightarrow> Some (if population g = [] then Inl IndexError
                       else Inr (g, population g ! choice_idx dr))
      | Some target \<Rightarrow>
          (let gs = enemy_tiles w in
           case calculate_avoidance_path pm start target gs of
             None \<Rightarrow> None
           | Some P \<Rightarrow> Some
               (let scores = map (\<lambda>c. adversarial_evaluate_fitness (ga_tilemap g) am w c P gs) (population g);
                    selected = select_population (population g) scores dr
                in case breed g selected dr 0 [] of
                     Inl e \<Rightarrow> Inl e
                   | Inr newpop \<Rightarrow>
                       (let g2 = g\<lparr>population := newpop\<rparr> in
                        case get_best_chromosome newpop scores of
                          Inl e \<Rightarrow> Inl e
                        | Inr best \<Rightarrow> Inr (g2, best)))))"

subsection \<open>Admissible draws\<close>

text \<open>\<open>perm_of n perm\<close>: \<open>perm\<close> is an ordering of \<open>0 ..< n\<close>, the draw that
  \<open>random.sample\<close> makes. \<open>draws_ok\<close> collects what the library calls
  guarantee: \<open>random.sample(selected, 2)\<close> picks two distinct indices of the
  selected list, \<open>random.randint(1, chromosome_length - 1)\<close> a split in that
  range.\<close>

definition perm_of :: "nat \<Rightarrow> nat list \<Rightarrow> bool" where
  "perm_of n perm \<longleftrightarrow> distinct perm \<and> length perm = n \<and> list_all (\<lambda>j. j < n) perm"

definition draws_ok :: "nat \<Rightarrow> nat \<Rightarrow> ga_draws \<Rightarrow> bool" where
  "draws_ok n cl dr \<longleftrightarrow>
     perm_of n (sel_perm dr) \<and>
     (\<forall>i. fst (pair_draw dr i) < n div 2 \<and> snd (pair_draw dr i) < n div 2 \<and>
          fst (pair_draw dr i) \<noteq> snd (pair_draw dr i)) \<and>
     (\<forall>i. 1 \<le> split_draw dr i \<and> split_draw dr i \<le> cl - 1)"

subsection \<open>Example population\<close>

text \<open>A two-row maze with one pellet at \<open>(2, 0)\<close>, four chromosomes of two
  moves, and one set of draws; \<open>demo_draws_mut\<close> mutates every gene of the
  first child to Up.\<close>

definition demo_ga :: ga where
  "demo_ga = \<lparr>population_size = 4, chromosome_length = 2, mutation_rate = 1/10,
     ga_tilemap = [''  .'', ''   ''],
     population = [[RIGHT, RIGHT], [UP, UP], [LEFT, DOWN], [DOWN, DOWN]],
     adversarial = None, fitness_history = []\<rparr>"

definition demo_world :: world where
  "demo_world = \<lparr>player_tile = (0, 0), enemy_tiles = []\<rparr>"

definition demo_draws :: ga_draws where
  "demo_draws = \<lparr>choice_idx = 0, sel_u = (\<lambda>j. [0, 9/10] ! j), sel_perm = [0, 1, 2, 3],
     pair_draw = (\<lambda>i. (0, 1)), split_draw = (\<lambda>i. 1), mut_draw = (\<lambda>j i. (1/2, UP))\<rparr>"

definition demo_draws_mut :: ga_draws where
  "demo_draws_mut = demo_draws\<lparr>mut_draw := (\<lambda>j i. if j = 0 then (0, UP) else (1/2, UP))\<rparr>"

subsection \<open>Lemmas on the genetic operators\<close>

lemma length_mutate [simp]: "length (mutate r d c) = length c"
  by (simp add: mutate_def)

lemma bisect_right_le: "bisect_right a x hi \<le> hi"
proof -
  have "length (takeWhile (\<lambda>v. v \<le> x) (take hi a)) \<le> length (take hi a)"
    by (rule length_takeWhile_le)
  then show ?thesis by (simp add: bisect_right_def)
qed

lemma choices_length [simp]: "length (choices pop ws k u) = k"
  by (simp add: choices_def Let_def)

lemma choices_mem: "pop \<noteq> [] \<Longrightarrow> c \<in> set (choices pop ws k u) \<Longrightarrow> c \<in> set pop"
proof -
  assume ne: "pop \<noteq> []" and c: "c \<in> set (choices pop ws k u)"
  then obtain j where "c = pop ! bisect_right (cum_weights 0 ws) (u j * last (cum_weights 0 ws)) (length pop - 1)"
    by (auto simp: choices_def Let_def)
  moreover have "bisect_right (cum_weights 0 ws) (u j * last (cum_weights 0 ws)) (length pop - 1) < length pop"
    using bisect_right_le [of _ _ "length pop - 1"] ne by (meson diff_less le_less_trans length_greater_0_conv zero_less_one)
  ultimately show ?thesis by simp
qed

lemma perm_of_length: "perm_of n perm \<Longrightarrow> length perm = n"
  by (simp add: perm_of_def)

lemma sample_length: "perm_of n perm \<Longrightarrow> k \<le> n \<Longrightarrow> length (sample pop k perm) = k"
  by (simp add: sample_def perm_of_length)

lemma sample_mem: "perm_of (length pop) perm \<Longrightarrow> c \<in> set (sample pop k perm) \<Longrightarrow> c \<in> set pop"
  by (auto simp: sample_def perm_of_def list_all_iff dest!: in_set_takeD)

lemma select_length:
  "perm_of (length pop) (sel_perm dr) \<Longrightarrow> length (select_population pop scores dr) = length pop div 2"
  by (simp add: select_population_def Let_def sample_length)

lemma select_mem:
  assumes "perm_of (length pop) (sel_perm dr)" and "c \<in> set (select_population pop scores dr)"
  shows "c \<in> set pop"
proof (cases "pop = []")
  case True
  with assms(2) show ?thesis
    by (simp add: select_population_def Let_def sample_def choices_def split: if_splits)
next
  case False
  with assms show ?thesis
    by (auto simp: select_population_def Let_def split: if_splits dest: sample_mem choices_mem)
qed

lemma crossover_Inr:
  "2 \<le> cl \<Longrightarrow> crossover cl s p1 p2 = Inr (take s p1 @ drop s p2, take s p2 @ drop s p1)"
  by (simp add: crossover_def)

lemma crossover_lengths:
  assumes "crossover cl s p1 p2 = Inr (c1, c2)" "s \<le> length p1" "length p1 = length p2"
  shows "length c1 = length p1 \<and> length c2 = length p1"
  using assms by (auto simp: crossover_def split: if_splits)

lemma breed_shape:
  assumes sel: "\<forall>c \<in> set selected. length c = chromosome_length g"
    and two: "2 \<le> length selected" and cl: "2 \<le> chromosome_length g"
    and pairs: "\<forall>i. fst (pair_draw dr i) < length selected \<and> snd (pair_draw dr i) < length selected"
    and splits: "\<forall>i. split_draw dr i \<le> chromosome_length g"
    and np: "length newpop \<le> population_size g" "\<forall>c \<in> set newpop. length c = chromosome_length g"
  shows "\<exists>res. breed g selected dr i newpop = Inr res \<and> length res = population_size g \<and>
               (\<forall>c \<in> set res. length c = chromosome_length g)"
  using assms
proof (induction g selected dr i newpop rule: breed.induct)
  case (1 g selected dr i newpop)
  note sel = "1.prems"(1) and two = "1.prems"(2) and cl = "1.prems"(3)
    and pairs = "1.prems"(4) and splits = "1.prems"(5)
  let ?L = "chromosome_length g" and ?ps = "population_size g"
  show ?case
  proof (cases "length newpop < ?ps")
    case False
    then have "breed g selected dr i newpop = Inr newpop" by (simp add: breed.simps [of g selected dr i newpop])
    with False "1.prems" show ?thesis by auto
  next
    case True
    define a where "a = fst (pair_draw dr i)"
    define b where "b = snd (pair_draw dr i)"
    define s where "s = split_draw dr i"
    define c1 where "c1 = take s (selected ! a) @ drop s (selected ! b)"
    define c2 where "c2 = take s (selected ! b) @ drop s (selected ! a)"
    have cx: "crossover ?L s (selected ! a) (selected ! b) = Inr (c1, c2)"
      using cl by (simp add: crossover_def c1_def c2_def)
    have la: "length (selected ! a) = ?L" "length (selected ! b) = ?L"
      using sel pairs by (auto simp: a_def b_def)
    have lc: "length c1 = ?L" "length c2 = ?L"
      using la splits by (auto simp: c1_def c2_def s_def)
    define np1 where "np1 = newpop @ [mutate (mutation_rate g) (mut_draw dr (2 * i)) c1]"
    define np2 where "np2 = (if length np1 < ?ps then np1 @ [mutate (mutation_rate g) (mut_draw dr (2 * i + 1)) c2] else np1)"
    have step: "breed g selected dr i newpop = breed g selected dr (Suc i) np2"
      using True two cx
      by (simp add: breed.simps [of g selected dr i newpop] np1_def np2_def a_def b_def s_def Let_def)
    have np2: "length np2 \<le> ?ps" "\<forall>c \<in> set np2. length c = ?L"
      using True "1.prems"(7) lc by (auto simp: np1_def np2_def)
    have "\<not> length selected < 2" using two by simp
    from "1.IH" [OF True this cx [unfolded a_def b_def s_def] refl np1_def np2_def sel two cl pairs splits np2]
    show ?thesis by (simp add: step np1_def np2_def a_def b_def s_def)
  qed
qed

lemma get_best_Inr:
  "scores \<noteq> [] \<Longrightarrow> length pop = length scores \<Longrightarrow>
   get_best_chromosome pop scores = Inr (pop ! list_index scores (Max (set scores)))"
  by (simp add: get_best_chromosome_def Let_def list_index_less)

lemma evolve_target_cases:
  assumes "get_target (ga_tilemap g) (player_tile w) = Some t"
  obtains P where "find_path (ga_tilemap g) (player_tile w) t [] = Some P"
    and "evolve g w dr = Some
          (let scores = map (\<lambda>c. evaluate_fitness (ga_tilemap g) (adversarial g) w c P (enemy_tiles w)) (population g)
           in if scores = [] then Inl ValueError
              else (let g1 = g\<lparr>fitness_history := fitness_history g @ [Max (set scores)]\<rparr>;
                        selected = select_population (population g) scores dr
                    in case breed g1 selected dr 0 [] of
                         Inl e \<Rightarrow> Inl e
                       | Inr newpop \<Rightarrow>
                           (let g2 = g1\<lparr>population := newpop\<rparr> in
                            case get_best_chromosome newpop scores of
                              Inl e \<Rightarrow> Inl e
                            | Inr best \<Rightarrow> Inr (g2, best))))"
proof -
  obtain P where P: "find_path (ga_tilemap g) (player_tile w) t [] = Some P"
    using find_path_ok [of "ga_tilemap g" "player_tile w" t "[]"] by blast
  with assms show ?thesis using that by (simp add: evolve_def Let_def)
qed

lemma sample_length_le: "length (sample pop k perm) \<le> k"
  by (simp add: sample_def)

lemma select_length_le: "length (select_population pop scores dr) \<le> length pop div 2"
  by (simp add: select_population_def Let_def sample_length_le)

lemma target_fold_None:
  "foldl (target_step s) best cs = None \<longleftrightarrow> best = None \<and> (\<forall>q. (q, CHR ''.'') \<notin> set cs)"
proof (induction cs arbitrary: best)
  case Nil
  then show ?case by simp
next
  case (Cons c cs)
  then show ?case
    by (cases c; cases best) (auto simp: target_step_def Let_def split: if_splits)
qed

lemma target_fold_Some:
  "foldl (target_step s) best cs = Some (p, d) \<Longrightarrow>
   (best = Some (p, d) \<or> (p, CHR ''.'') \<in> set cs \<and> d = heuristic s p) \<and>
   (\<forall>q. (q, CHR ''.'') \<in> set cs \<longrightarrow> d \<le> heuristic s q) \<and>
   (\<forall>p' md. best = Some (p', md) \<longrightarrow> d \<le> md)"
proof (induction cs arbitrary: best)
  case Nil
  then show ?case by simp
next
  case (Cons c cs)
  obtain q ch where c: "c = (q, ch)" by (cases c)
  let ?b = "target_step s best c"
  from Cons.IH [of ?b] Cons.prems have IH:
    "(?b = Some (p, d) \<or> (p, CHR ''.'') \<in> set cs \<and> d = heuristic s p) \<and>
     (\<forall>q. (q, CHR ''.'') \<in> set cs \<longrightarrow> d \<le> heuristic s q) \<and>
     (\<forall>p' md. ?b = Some (p', md) \<longrightarrow> d \<le> md)" by simp
  show ?case
  proof (cases "ch = CHR ''.''")
    case False
    then have "?b = best" by (simp add: c target_step_def)
    with IH c False show ?thesis by auto
  next
    case True
    show ?thesis
    proof (cases best)
      case None
      with True have "?b = Some (q, heuristic s q)" by (simp add: c target_step_def)
      with IH c None True show ?thesis by auto
    next
      case (Some bm)
      obtain bp md where bm: "bm = (bp, md)" by (cases bm)
      show ?thesis
      proof (cases "heuristic s q < md")
        case True
        with \<open>ch = CHR ''.''\<close> Some bm have "?b = Some (q, heuristic s q)"
          by (simp add: c target_step_def)
        with IH c Some bm True \<open>ch = CHR ''.''\<close> show ?thesis by fastforce
      next
        case False
        with \<open>ch = CHR ''.''\<close> Some bm have "?b = best"
          by (simp add: c target_step_def)
        with IH c Some bm False \<open>ch = CHR ''.''\<close> show ?thesis by fastforce
      qed
    qed
  qed
qed

lemma map_cells_iff:
  "(q, ch) \<in> set (map_cells m) \<longleftrightarrow>
   (\<exists>x y. y < length m \<and> x < length (m ! y) \<and> q = (int x, int y) \<and> ch = m ! y ! x)"
  by (force simp: map_cells_def in_set_enumerate_eq)

lemma map_cells_tile:
  assumes wf: "wf_tilemap m"
  shows "(q, c) \<in> set (map_cells m) \<longleftrightarrow> in_bounds m q \<and> tile_at m q = c"
proof
  assume "(q, c) \<in> set (map_cells m)"
  then obtain x y where y: "y < length m" and x: "x < length (m ! y)" and q: "q = (int x, int y)"
      and t: "c = m ! y ! x"
    unfolding map_cells_iff by auto
  have "length (m ! y) = length (hd m)" using wf_row_length [OF wf y] .
  with y x q t show "in_bounds m q \<and> tile_at m q = c"
    by (simp add: in_bounds_def width_def height_def tile_at_def)
next
  assume q: "in_bounds m q \<and> tile_at m q = c"
  obtain a b where ab: "q = (a, b)" by (cases q)
  from q ab have a0: "0 \<le> a" and aw: "a < int (length (hd m))" and b0: "0 \<le> b" and bh: "b < int (length m)"
    and t: "m ! nat b ! nat a = c"
    by (simp_all add: in_bounds_def width_def height_def tile_at_def)
  have y: "nat b < length m" using b0 bh by linarith
  have "length (m ! nat b) = length (hd m)" using wf_row_length [OF wf y] .
  with a0 aw have x: "nat a < length (m ! nat b)" by linarith
  have qq: "q = (int (nat a), int (nat b))" using ab a0 b0 by simp
  have "\<exists>x y. y < length m \<and> x < length (m ! y) \<and> q = (int x, int y) \<and> c = m ! y ! x"
    using y x t qq by (intro exI [of _ "nat a"] exI [of _ "nat b"]) simp
  then show "(q, c) \<in> set (map_cells m)" unfolding map_cells_iff .
qed

lemma map_cells_pellet:
  "wf_tilemap m \<Longrightarrow> (q, CHR ''.'') \<in> set (map_cells m) \<longleftrightarrow> in_bounds m q \<and> is_pellet m q"
  by (simp add: map_cells_tile is_pellet_def)

lemma nth_mutate: "i < length c \<Longrightarrow> mutate r d c ! i = (if fst (d i) < r then snd (d i) else c ! i)"
  by (simp add: mutate_def nth_enumerate_eq)

subsection \<open>The example run\<close>

lemma demo_target: "get_target (ga_tilemap demo_ga) (player_tile demo_world) = Some (2, 0)"
  by code_simp

lemma demo_path: "find_path (ga_tilemap demo_ga) (player_tile demo_world) (2, 0) [] = Some [(1, 0), (2, 0)]"
  by code_simp

lemma demo_scores:
  "map (\<lambda>c. evaluate_fitness (ga_tilemap demo_ga) (adversarial demo_ga) demo_world c [(1, 0), (2, 0)]
      (enemy_tiles demo_world)) (population demo_ga) = [2700, -600, -100, -600]"
  by code_simp

lemma demo_evolve_mut:
  "evolve demo_ga demo_world demo_draws_mut =
     Some (Inr (demo_ga\<lparr>population := [[UP, UP], [RIGHT, RIGHT], [RIGHT, RIGHT], [RIGHT, RIGHT]],
                        fitness_history := [2700]\<rparr>, [UP, UP]))"
  by code_simp

lemma demo_adversarial_evolve:
  "adversarial_evolve (ga_tilemap demo_ga) (ga_tilemap demo_ga) demo_ga demo_world demo_draws =
     Some (Inr (demo_ga\<lparr>population := replicate 4 [RIGHT, RIGHT]\<rparr>, [RIGHT, RIGHT]))"
  by code_simp

lemma evolve_normal_step:
  assumes pop: "length (population g) = population_size g"
      "\<forall>c \<in> set (population g). length c = chromosome_length g"
    and sizes: "4 \<le> population_size g" "2 \<le> chromosome_length g"
    and dr: "draws_ok (population_size g) (chromosome_length g) dr"
    and tgt: "get_target (ga_tilemap g) (player_tile w) = Some t"
  shows "\<exists>g' c. evolve g w dr = Some (Inr (g', c)) \<and>
           length (population g') = population_size g \<and>
           (\<forall>c' \<in> set (population g'). length c' = chromosome_length g) \<and>
           c \<in> set (population g') \<and>
           population_size g' = population_size g \<and> chromosome_length g' = chromosome_length g \<and>
           length (fitness_history g') = Suc (length (fitness_history g))"
proof -
  obtain P where ev: "evolve g w dr = Some
          (let scores = map (\<lambda>c. evaluate_fitness (ga_tilemap g) (adversarial g) w c P (enemy_tiles w)) (population g)
           in if scores = [] then Inl ValueError
              else (let g1 = g\<lparr>fitness_history := fitness_history g @ [Max (set scores)]\<rparr>;
                        selected = select_population (population g) scores dr
                    in case breed g1 selected dr 0 [] of
                         Inl e \<Rightarrow> Inl e
                       | Inr newpop \<Rightarrow>
                           (let g2 = g1\<lparr>population := newpop\<rparr> in
                            case get_best_chromosome newpop scores of
                              Inl e \<Rightarrow> Inl e
                            | Inr best \<Rightarrow> Inr (g2, best))))"
    using evolve_target_cases [OF tgt] by blast
  define scores where "scores = map (\<lambda>c. evaluate_fitness (ga_tilemap g) (adversarial g) w c P (enemy_tiles w)) (population g)"
  define g1 where "g1 = g\<lparr>fitness_history := fitness_history g @ [Max (set scores)]\<rparr>"
  define selected where "selected = select_population (population g) scores dr"
  have ne: "scores \<noteq> []" using pop sizes by (auto simp: scores_def)
  have perm: "perm_of (length (population g)) (sel_perm dr)" using dr pop by (simp add: draws_ok_def)
  have lsel: "length selected = population_size g div 2"
    using select_length [OF perm] pop by (simp add: selected_def)
  have msel: "\<forall>c \<in> set selected. length c = chromosome_length g1"
    using select_mem [OF perm] pop by (auto simp: selected_def g1_def)
  have two: "2 \<le> length selected" using lsel sizes by simp
  have pairs: "\<forall>i. fst (pair_draw dr i) < length selected \<and> snd (pair_draw dr i) < length selected"
    using dr lsel by (simp add: draws_ok_def)
  have splits: "\<forall>i. split_draw dr i \<le> chromosome_length g1"
  proof
    fix i
    have "split_draw dr i \<le> chromosome_length g - 1" using dr by (simp add: draws_ok_def)
    then show "split_draw dr i \<le> chromosome_length g1" by (simp add: g1_def)
  qed
  obtain res where br: "breed g1 selected dr 0 [] = Inr res" and lres: "length res = population_size g1"
      and mres: "\<forall>c \<in> set res. length c = chromosome_length g1"
    using breed_shape [OF msel two _ pairs splits, where i = 0 and newpop = "[]"] sizes by (auto simp: g1_def)
  have best: "get_best_chromosome res scores = Inr (res ! list_index scores (Max (set scores)))"
    using get_best_Inr [OF ne] lres pop by (simp add: scores_def g1_def)
  have idx: "list_index scores (Max (set scores)) < length res"
    using list_index_less [of "Max (set scores)" scores] ne lres pop by (simp add: scores_def g1_def)
  show ?thesis
    using ev br best idx lres mres
    by (simp add: Let_def scores_def [symmetric] g1_def [symmetric] selected_def [symmetric] ne)
      (auto simp: g1_def)
qed

subsection \<open>Properties of the genetic algorithm\<close>

text \<open>C12: the chromosome that \<open>evolve\<close> returns is the element of the new population at the index of the best score of the old population (\<open>get_best_chromosome\<close> runs after \<open>self.population = new_population\<close>), not the chromosome that earned that score.\<close>

theorem evolve_best_after_replacement:
  assumes ev: "evolve g w dr = Some (Inr (g', c))"
    and tgt: "get_target (ga_tilemap g) (player_tile w) = Some t"
    and P: "find_path (ga_tilemap g) (player_tile w) t [] = Some P"
  shows "c = population g' ! list_index
                (map (\<lambda>c. evaluate_fitness (ga_tilemap g) (adversarial g) w c P (enemy_tiles w)) (population g))
                (Max (set (map (\<lambda>c. evaluate_fitness (ga_tilemap g) (adversarial g) w c P (enemy_tiles w)) (population g))))"
  using ev tgt P
  by (auto simp: evolve_def Let_def get_best_chromosome_def split: if_splits sum.splits)

theorem evolve_best_after_replacement_witness:
  "[UP, UP] = population (demo_ga\<lparr>population := [[UP, UP], [RIGHT, RIGHT], [RIGHT, RIGHT], [RIGHT, RIGHT]],
                        fitness_history := [2700]\<rparr>) ! list_index [2700, -600, -100, -600] (Max (set [2700, -600, -100, -600::int]))"
  using evolve_best_after_replacement [OF demo_evolve_mut demo_target demo_path] demo_scores
  by simp

text \<open>A concrete run: the old population's best chromosome \<open>[Right, Right]\<close> scores 2700 and 2700 is appended to the fitness history, but the mutated child now at index 0, \<open>[Up, Up]\<close>, is returned, and it scores -600.\<close>

theorem evolve_returns_unrecorded_best:
  "\<exists>g' c. evolve demo_ga demo_world demo_draws_mut = Some (Inr (g', c)) \<and>
     fitness_history g' = [2700] \<and>
     evaluate_fitness (ga_tilemap demo_ga) (adversarial demo_ga) demo_world c [(1, 0), (2, 0)] [] = -600"
proof -
  have "evaluate_fitness (ga_tilemap demo_ga) (adversarial demo_ga) demo_world [UP, UP] [(1, 0), (2, 0)] [] = -600"
    by code_simp
  with demo_evolve_mut show ?thesis by simp
qed

text \<open>C13: with a population of \<open>population_size \<ge> 4\<close> chromosomes of \<open>chromosome_length \<ge> 2\<close> genes, admissible draws and a pellet left, \<open>evolve\<close> returns normally; the new population again has \<open>population_size\<close> chromosomes of \<open>chromosome_length\<close> genes, the returned chromosome belongs to it, and the fitness history grows by exactly one entry.\<close>

theorem evolve_shape:
  assumes pop: "length (population g) = population_size g"
      "\<forall>c \<in> set (population g). length c = chromosome_length g"
    and sizes: "4 \<le> population_size g" "2 \<le> chromosome_length g"
    and dr: "draws_ok (population_size g) (chromosome_length g) dr"
    and tgt: "get_target (ga_tilemap g) (player_tile w) = Some t"
  shows "\<exists>g' c. evolve g w dr = Some (Inr (g', c)) \<and>
           length (population g') = population_size g \<and>
           (\<forall>c' \<in> set (population g'). length c' = chromosome_length g) \<and>
           c \<in> set (population g') \<and>
           population_size g' = population_size g \<and> chromosome_length g' = chromosome_length g \<and>
           length (fitness_history g') = Suc (length (fitness_history g))"
  using pop sizes dr tgt by (rule evolve_normal_step)

theorem evolve_shape_witness:
  "\<exists>g' c. evolve demo_ga demo_world demo_draws = Some (Inr (g', c)) \<and>
           length (population g') = 4 \<and> (\<forall>c' \<in> set (population g'). length c' = 2) \<and>
           c \<in> set (population g') \<and> population_size g' = 4 \<and> chromosome_length g' = 2 \<and>
           length (fitness_history g') = 1"
proof -
  have "draws_ok 4 2 demo_draws"
    by (simp add: draws_ok_def demo_draws_def perm_of_def)
  then show ?thesis
    using evolve_shape [where g = demo_ga and w = demo_world and dr = demo_draws and t = "(2, 0)"] demo_target
    by (simp add: demo_ga_def)
qed

text \<open>C14: \<open>evolve\<close> always returns (a chromosome or a Python exception): the breeding loop \<open>while len(new_population) < population_size\<close> and both searches it calls terminate.\<close>

lemma evolve_returns: "\<exists>r. evolve g w dr = Some r"
proof (cases "get_target (ga_tilemap g) (player_tile w)")
  case None
  then show ?thesis by (simp add: evolve_def)
next
  case (Some t)
  then show ?thesis by (rule evolve_target_cases [where dr = dr]) simp
qed

text \<open>C15: with between 1 and 3 chromosomes and a pellet left, \<open>evolve\<close> raises \<open>ValueError\<close>: selection keeps \<open>len(population) // 2 < 2\<close> chromosomes and \<open>random.sample(selected, 2)\<close> fails.\<close>

theorem evolve_small_population_error:
  assumes "length (population g) = population_size g" "0 < population_size g" "population_size g < 4"
    and tgt: "get_target (ga_tilemap g) (player_tile w) = Some t"
  shows "evolve g w dr = Some (Inl ValueError)"
proof -
  obtain P where ev: "evolve g w dr = Some
          (let scores = map (\<lambda>c. evaluate_fitness (ga_tilemap g) (adversarial g) w c P (enemy_tiles w)) (population g)
           in if scores = [] then Inl ValueError
              else (let g1 = g\<lparr>fitness_history := fitness_history g @ [Max (set scores)]\<rparr>;
                        selected = select_population (population g) scores dr
                    in case breed g1 selected dr 0 [] of
                         Inl e \<Rightarrow> Inl e
                       | Inr newpop \<Rightarrow>
                           (let g2 = g1\<lparr>population := newpop\<rparr> in
                            case get_best_chromosome newpop scores of
                              Inl e \<Rightarrow> Inl e
                            | Inr best \<Rightarrow> Inr (g2, best))))"
    using evolve_target_cases [OF tgt] by blast
  have small: "length (select_population (population g) scs dr) < 2" for scs
    using select_length_le [of "population g" scs dr] assms(1,3) by simp
  have "breed g1 (select_population (population g) scs dr) dr 0 [] = Inl ValueError"
    if "population_size g1 = population_size g" for g1 scs
    using small [of scs] that assms(2)
    by (simp add: breed.simps [of g1 _ dr 0 "[]"])
  with ev show ?thesis by (simp add: Let_def)
qed

theorem evolve_small_population_error_witness:
  "evolve (demo_ga\<lparr>population_size := 2, population := [[RIGHT, RIGHT], [UP, UP]]\<rparr>) demo_world demo_draws
     = Some (Inl ValueError)"
  using evolve_small_population_error [of "demo_ga\<lparr>population_size := 2, population := [[RIGHT, RIGHT], [UP, UP]]\<rparr>"
      demo_world "(2, 0)" demo_draws] demo_target
  by (simp add: demo_ga_def)

text \<open>C16: \<open>get_target\<close> returns \<open>None\<close> exactly when the maze has no pellet, and otherwise a pellet tile at the least Manhattan distance from the player.\<close>

theorem get_target_nearest:
  assumes "wf_tilemap m"
  shows "(get_target m s = None \<longleftrightarrow> (\<forall>q. \<not> (in_bounds m q \<and> is_pellet m q))) \<and>
         (\<forall>p. get_target m s = Some p \<longrightarrow> in_bounds m p \<and> is_pellet m p \<and>
              (\<forall>q. in_bounds m q \<and> is_pellet m q \<longrightarrow> heuristic s p \<le> heuristic s q))"
proof
  show "get_target m s = None \<longleftrightarrow> (\<forall>q. \<not> (in_bounds m q \<and> is_pellet m q))"
    using target_fold_None [of s None "map_cells m"] map_cells_pellet [OF assms]
    by (simp add: get_target_def)
next
  show "\<forall>p. get_target m s = Some p \<longrightarrow> in_bounds m p \<and> is_pellet m p \<and>
              (\<forall>q. in_bounds m q \<and> is_pellet m q \<longrightarrow> heuristic s p \<le> heuristic s q)"
  proof (intro allI impI)
    fix p assume "get_target m s = Some p"
    then obtain d where "foldl (target_step s) None (map_cells m) = Some (p, d)"
      by (auto simp: get_target_def)
    from target_fold_Some [OF this] map_cells_pellet [OF assms]
    show "in_bounds m p \<and> is_pellet m p \<and>
          (\<forall>q. in_bounds m q \<and> is_pellet m q \<longrightarrow> heuristic s p \<le> heuristic s q)" by auto
  qed
qed

theorem get_target_nearest_witness:
  "get_target [''  .'', ''   ''] (0, 0) = Some (2, 0) \<and> in_bounds [''  .'', ''   ''] (2, 0) \<and>
   is_pellet [''  .'', ''   ''] (2, 0)"
proof -
  have wf: "wf_tilemap [''  .'', ''   '']" by (simp add: wf_tilemap_def)
  have t: "get_target [''  .'', ''   ''] (0, 0) = Some (2, 0)" by code_simp
  then show ?thesis using get_target_nearest [OF wf, of "(0, 0)"] by blast
qed

text \<open>C17: when the sample draw is an ordering of the population's indices, \<open>select_population\<close> returns \<open>len(population) // 2\<close> chromosomes, all taken from the population.\<close>

theorem select_population_size:
  "perm_of (length pop) (sel_perm dr) \<Longrightarrow>
   length (select_population pop scores dr) = length pop div 2 \<and>
   set (select_population pop scores dr) \<subseteq> set pop"
  using select_length select_mem by blast

theorem select_population_size_witness:
  "length (select_population [[UP], [DOWN], [LEFT], [RIGHT]] [1, 2, 3, 4] demo_draws) =
   length [[UP], [DOWN], [LEFT], [RIGHT]] div 2"
proof -
  have "perm_of (length [[UP], [DOWN], [LEFT], [RIGHT]]) (sel_perm demo_draws)"
    by (simp add: demo_draws_def perm_of_def)
  from select_population_size [OF this, where scores = "[1, 2, 3, 4]"] show ?thesis by blast
qed

text \<open>C18: \<open>AdversarialAlgorithm.evolve\<close> never appends to the fitness history: a normal return keeps \<open>fitness_history\<close> as it was.\<close>

theorem adversarial_evolve_history:
  assumes "adversarial_evolve am pm g w dr = Some (Inr (g', c))"
  shows "fitness_history g' = fitness_history g"
  using assms
  by (auto simp: adversarial_evolve_def Let_def split: option.splits if_splits sum.splits)

theorem adversarial_evolve_history_witness:
  "fitness_history (demo_ga\<lparr>population := replicate 4 [RIGHT, RIGHT]\<rparr>) = fitness_history demo_ga"
  using adversarial_evolve_history [OF demo_adversarial_evolve] .

end
