(* ===== verification/Ghosts.thy ===== *)
theory Ghosts
  imports Complex_Main Grid
begin

text \<open>
  The four ghosts of \<open>src/object.py\<close>. Each class has its own copy of
  \<open>can_move_to\<close>, \<open>start_moving\<close> and of the per-tick \<open>move\<close>; the copies are
  identical, so the model has one definition of each, instantiated per ghost with
  the ghost's search and goal. Blinky and Pinky search with \<open>bfs\<close>, Inky and
  Clyde with \<open>dfs\<close>; Inky's \<open>dfs\<close> skips visited neighbours when it pushes
  them, Clyde's does not. Positions in pixels are exact rationals: \<open>GHOST_SPEED\<close>
  is 3.5 and every coordinate the code computes is a multiple of 0.5, which a
  float holds exactly. The distance \<open>(dx ** 2 + dy ** 2) ** 0.5\<close> is a parameter
  \<open>hyp\<close> of the step; the theorems assume only that it is exact on an axis
  (\<open>hyp d 0 = |d|\<close>, \<open>hyp 0 d = |d|\<close>), which IEEE square root guarantees
  for these values, and they show that a ghost only ever moves along an axis.
  The stack of \<open>dfs\<close> is the Python list with its top first (the model's list
  is the reverse of Python's): \<open>stack.pop()\<close> takes the head and a sequence of
  \<open>stack.append\<close>s puts the reversed sequence in front.
\<close>

definition tilesize :: int where
  "tilesize = 32"

definition ghost_speed :: rat where
  "ghost_speed = 7 / 2"

text \<open>\<open>tile * TILESIZE\<close>, a tile coordinate in pixels.\<close>

definition px :: "int \<Rightarrow> rat" where
  "px c = of_int (c * tilesize)"

subsection \<open>Walkability\<close>

text \<open>\<open>can_move_to(x, y, tilemap)\<close>, the same in the four classes.\<close>

definition can_move_to :: "tilemap \<Rightarrow> pos \<Rightarrow> bool" where
  "can_move_to m q =
     (if fst q < 0 \<or> fst q \<ge> width m \<or> snd q < 0 \<or> snd q \<ge> height m then False
      else if tile_at m q = CHR ''W'' then False
      else True)"

subsection \<open>Breadth-first search (Blinky, Pinky)\<close>

text \<open>The locals \<open>queue\<close> (a deque: \<open>popleft\<close> takes the head, \<open>append\<close> adds
  at the end), \<open>visited\<close> and the dictionary \<open>paths\<close>.\<close>

record bfs_state =
  queue :: "pos list"
  bvisited :: "pos set"
  paths :: "pos \<Rightarrow> path option"

text \<open>One iteration of \<open>for dx, dy in [(0, 1), (1, 0), (0, -1), (-1, 0)]\<close>.
  \<open>paths[current]\<close> is always present (lemma \<open>bfs_inv_visit\<close>), so the
  \<open>KeyError\<close> is unreachable and the lookup is written with \<open>the\<close>.\<close>

definition bfs_visit :: "tilemap \<Rightarrow> pos \<Rightarrow> pos \<Rightarrow> bfs_state \<Rightarrow> bfs_state" where
  "bfs_visit m cur d st =
     (let nb = neighbour cur d in
      if nb \<notin> bvisited st \<and> can_move_to m nb then
        st\<lparr>queue := queue st @ [nb], bvisited := insert nb (bvisited st),
           paths := (paths st)(nb \<mapsto> the (paths st cur) @ [nb])\<rparr>
      else st)"

partial_function (option) bfs_loop :: "tilemap \<Rightarrow> pos \<Rightarrow> bfs_state \<Rightarrow> path option" where
  "bfs_loop m goal st =
     (case queue st of
        [] \<Rightarrow> Some []
      | cur # rest \<Rightarrow>
          if cur = goal then Some (the (paths st cur))
          else bfs_loop m goal (fold (bfs_visit m cur) directions (st\<lparr>queue := rest\<rparr>)))"

declare bfs_loop.simps [code]

definition bfs :: "tilemap \<Rightarrow> pos \<Rightarrow> pos \<Rightarrow> path option" where
  "bfs m start goal = bfs_loop m goal \<lparr>queue = [start], bvisited = {start}, paths = [start \<mapsto> []]\<rparr>"

subsection \<open>Depth-first search (Inky, Clyde)\<close>

text \<open>The entries Inky pushes for the popped \<open>cur\<close> with path \<open>p\<close>, in push
  order: the walkable neighbours not yet visited (\<open>V\<close> already holds \<open>cur\<close>).\<close>

definition dfs_children_inky :: "tilemap \<Rightarrow> pos set \<Rightarrow> pos \<Rightarrow> path \<Rightarrow> (pos \<times> path) list" where
  "dfs_children_inky m V cur p =
     map (\<lambda>nb. (nb, p @ [nb])) (filter (\<lambda>nb. nb \<notin> V \<and> can_move_to m nb) (map (neighbour cur) directions))"

partial_function (option) dfs_inky_loop :: "tilemap \<Rightarrow> pos \<Rightarrow> (pos \<times> path) list \<Rightarrow> pos set \<Rightarrow> path option" where
  "dfs_inky_loop m goal stack V =
     (case stack of
        [] \<Rightarrow> Some []
      | (cur, p) # rest \<Rightarrow>
          if cur = goal then Some p
          else if cur \<notin> V then
            dfs_inky_loop m goal (rev (dfs_children_inky m (insert cur V) cur p) @ rest) (insert cur V)
          else dfs_inky_loop m goal rest V)"

declare dfs_inky_loop.simps [code]

definition dfs_inky :: "tilemap \<Rightarrow> pos \<Rightarrow> pos \<Rightarrow> path option" where
  "dfs_inky m start goal = dfs_inky_loop m goal [(start, [])] {}"

text \<open>Clyde pushes every walkable neighbour, visited or not.\<close>

definition dfs_children_clyde :: "tilemap \<Rightarrow> pos \<Rightarrow> path \<Rightarrow> (pos \<times> path) list" where
  "dfs_children_clyde m cur p =
     map (\<lambda>nb. (nb, p @ [nb])) (filter (can_move_to m) (map (neighbour cur) directions))"

partial_function (option) dfs_clyde_loop :: "tilemap \<Rightarrow> pos \<Rightarrow> (pos \<times> path) list \<Rightarrow> pos set \<Rightarrow> path option" where
  "dfs_clyde_loop m goal stack V =
     (case stack of
        [] \<Rightarrow> Some []
      | (cur, p) # rest \<Rightarrow>
          if cur = goal then Some p
          else if cur \<notin> V then
            dfs_clyde_loop m goal (rev (dfs_children_clyde m cur p) @ rest) (insert cur V)
          else dfs_clyde_loop m goal rest V)"

declare dfs_clyde_loop.simps [code]

definition dfs_clyde :: "tilemap \<Rightarrow> pos \<Rightarrow> pos \<Rightarrow> path option" where
  "dfs_clyde m start goal = dfs_clyde_loop m goal [(start, [])] {}"

subsection \<open>Goals\<close>

text \<open>\<open>max(0, min(hi, v))\<close>.\<close>

definition clamp :: "int \<Rightarrow> int \<Rightarrow> int" where
  "clamp hi v = max 0 (min hi v)"

text \<open>\<open>Blinky.calculate_goal\<close> (and Clyde's inline goal): the player's tile.\<close>

definition blinky_goal :: "pos \<Rightarrow> pos" where
  "blinky_goal player_tile = player_tile"

text \<open>\<open>Pinky.calculate_goal\<close>: four tiles ahead of the player in its direction,
  clamped to the map.\<close>

definition pinky_goal :: "tilemap \<Rightarrow> pos \<Rightarrow> pos \<Rightarrow> pos" where
  "pinky_goal m pt dir =
     (let goal_x = fst pt + fst dir * 4; goal_y = snd pt + snd dir * 4 in
      (clamp (width m - 1) goal_x, clamp (height m - 1) goal_y))"

text \<open>\<open>Inky.calculate_goal\<close>: two tiles off the player on each axis, on the
  side of the player's direction (a zero component counts as positive), clamped.\<close>

definition inky_goal :: "tilemap \<Rightarrow> pos \<Rightarrow> pos \<Rightarrow> pos" where
  "inky_goal m pt dir =
     (let radius = 2;
          offset_x = (if fst dir \<ge> 0 then radius else - radius);
          offset_y = (if snd dir \<ge> 0 then radius else - radius);
          g = (fst pt + offset_x, snd pt + offset_y)
      in (clamp (width m - 1) (fst g), clamp (height m - 1) (snd g)))"

subsection \<open>The per-tick movement step\<close>

text \<open>The attributes of a ghost that \<open>move\<close> reads and writes: the tile, the
  pixel position \<open>(x, y)\<close>, \<open>is_moving\<close>, \<open>last_move_time\<close> (ticks in
  milliseconds), \<open>target_tile\<close> (\<open>None\<close> or a tile) and \<open>path\<close>. The
  sprite's \<open>rect\<close> only mirrors \<open>(x, y)\<close> for drawing.\<close>

record ghost =
  gtile :: pos
  gx :: rat
  gy :: rat
  is_moving :: bool
  last_move_time :: int
  target_tile :: "pos option"
  gpath :: path

text \<open>\<open>start_moving(next_tile)\<close>.\<close>

definition start_moving :: "pos \<Rightarrow> ghost \<Rightarrow> ghost" where
  "start_moving nt gh = gh\<lparr>target_tile := Some nt, is_moving := True\<rparr>"

text \<open>\<open>__init__\<close> of each ghost class at tile \<open>q\<close> and tick \<open>t0\<close>: pixel
  position \<open>q * TILESIZE\<close>, stationary, no target, empty path.\<close>

definition ghost_init :: "int \<Rightarrow> pos \<Rightarrow> ghost" where
  "ghost_init t0 q =
     \<lparr>gtile = q, gx = px (fst q), gy = px (snd q), is_moving = False, last_move_time = t0,
      target_tile = None, gpath = []\<rparr>"

text \<open>The branch \<open>if self.target_tile and self.is_moving\<close>: one step of
  \<open>speed\<close> pixels towards the target tile, and the snap onto it when both
  offsets, measured before the step, are below \<open>speed\<close>.\<close>

definition ghost_slide :: "(rat \<Rightarrow> rat \<Rightarrow> rat) \<Rightarrow> pos \<Rightarrow> ghost \<Rightarrow> ghost" where
  "ghost_slide hyp tt gh =
     (let target_x = of_int (fst tt * tilesize); target_y = of_int (snd tt * tilesize);
          dx = target_x - gx gh; dy = target_y - gy gh;
          distance = hyp dx dy;
          gh1 = (if distance > 0
                 then gh\<lparr>gx := gx gh + dx / distance * ghost_speed,
                         gy := gy gh + dy / distance * ghost_speed\<rparr>
                 else gh)
      in if \<bar>dx\<bar> < ghost_speed \<and> \<bar>dy\<bar> < ghost_speed
         then gh1\<lparr>gx := target_x, gy := target_y, gtile := tt, is_moving := False\<rparr>
         else gh1)"

text \<open>The branch \<open>elif current_time - self.last_move_time > self.speed\<close>: a
  stationary ghost with no path searches a new one from its tile to \<open>goal\<close>
  and records the time; then the next tile of the path, if any, is popped and
  the ghost starts moving to it. \<open>None\<close> is a search that does not return.\<close>

definition ghost_plan :: "(pos \<Rightarrow> pos \<Rightarrow> path option) \<Rightarrow> pos \<Rightarrow> int \<Rightarrow> ghost \<Rightarrow> ghost option" where
  "ghost_plan search goal now gh =
     (let planned =
        (if \<not> is_moving gh \<and> gpath gh = []
         then map_option (\<lambda>p. gh\<lparr>gpath := p, last_move_time := now\<rparr>) (search (gtile gh) goal)
         else Some gh)
      in map_option (\<lambda>gh'. case gpath gh' of
                              [] \<Rightarrow> gh'
                            | nt # rest \<Rightarrow> start_moving nt (gh'\<lparr>gpath := rest\<rparr>)) planned)"

text \<open>\<open>move()\<close> at tick \<open>now\<close> (\<open>pygame.time.get_ticks()\<close>).\<close>

definition ghost_move :: "(rat \<Rightarrow> rat \<Rightarrow> rat) \<Rightarrow> (pos \<Rightarrow> pos \<Rightarrow> path option) \<Rightarrow> pos \<Rightarrow> int \<Rightarrow> ghost \<Rightarrow> ghost option" where
  "ghost_move hyp search goal now gh =
     (if target_tile gh \<noteq> None \<and> is_moving gh then Some (ghost_slide hyp (the (target_tile gh)) gh)
      else if of_int (now - last_move_time gh) > ghost_speed then ghost_plan search goal now gh
      else Some gh)"

text \<open>The four ghosts: the shared step with each one's search and goal. The goal
  is computed from the player's tile \<open>pt\<close> and direction \<open>dir\<close>.\<close>

definition blinky_move :: "(rat \<Rightarrow> rat \<Rightarrow> rat) \<Rightarrow> tilemap \<Rightarrow> pos \<Rightarrow> int \<Rightarrow> ghost \<Rightarrow> ghost option" where
  "blinky_move hyp m pt now gh = ghost_move hyp (bfs m) (blinky_goal pt) now gh"

definition pinky_move :: "(rat \<Rightarrow> rat \<Rightarrow> rat) \<Rightarrow> tilemap \<Rightarrow> pos \<Rightarrow> pos \<Rightarrow> int \<Rightarrow> ghost \<Rightarrow> ghost option" where
  "pinky_move hyp m pt dir now gh = ghost_move hyp (bfs m) (pinky_goal m pt dir) now gh"

definition inky_move :: "(rat \<Rightarrow> rat \<Rightarrow> rat) \<Rightarrow> tilemap \<Rightarrow> pos \<Rightarrow> pos \<Rightarrow> int \<Rightarrow> ghost \<Rightarrow> ghost option" where
  "inky_move hyp m pt dir now gh = ghost_move hyp (dfs_inky m) (inky_goal m pt dir) now gh"

definition clyde_move :: "(rat \<Rightarrow> rat \<Rightarrow> rat) \<Rightarrow> tilemap \<Rightarrow> pos \<Rightarrow> int \<Rightarrow> ghost \<Rightarrow> ghost option" where
  "clyde_move hyp m pt now gh = ghost_move hyp (dfs_clyde m) pt now gh"

subsection \<open>Invariant of a ghost\<close>

text \<open>\<open>hyp_ok\<close>: the distance is exact on an axis. \<open>search_ok\<close>: every path
  the search returns is a walk of walkable tiles from the start.
  \<open>ghost_ok\<close>: the ghost's tile is walkable; a moving ghost has a walkable
  target tile next to its tile and its pixel position lies on the segment between
  the two tiles; a stationary ghost sits exactly on its tile; the remaining path
  is a walk from the tile the ghost is on or moving to.\<close>

definition hyp_ok :: "(rat \<Rightarrow> rat \<Rightarrow> rat) \<Rightarrow> bool" where
  "hyp_ok hyp \<longleftrightarrow> (\<forall>d. hyp d 0 = \<bar>d\<bar> \<and> hyp 0 d = \<bar>d\<bar>)"

definition search_ok :: "tilemap \<Rightarrow> (pos \<Rightarrow> pos \<Rightarrow> path option) \<Rightarrow> bool" where
  "search_ok m search \<longleftrightarrow> (\<forall>s g p. search s g = Some p \<longrightarrow> walk (can_move_to m) s p)"

definition on_seg :: "rat \<Rightarrow> rat \<Rightarrow> rat \<Rightarrow> bool" where
  "on_seg a b v \<longleftrightarrow> min a b \<le> v \<and> v \<le> max a b"


definition ghost_ok :: "tilemap \<Rightarrow> ghost \<Rightarrow> bool" where
  "ghost_ok m gh \<longleftrightarrow>
     can_move_to m (gtile gh) \<and>
     (if is_moving gh then
        (case target_tile gh of
           None \<Rightarrow> False
         | Some tt \<Rightarrow> can_move_to m tt \<and> adjacent (gtile gh) tt \<and>
             on_seg (px (fst (gtile gh))) (px (fst tt)) (gx gh) \<and>
             on_seg (px (snd (gtile gh))) (px (snd tt)) (gy gh) \<and>
             walk (can_move_to m) tt (gpath gh))
      else gx gh = px (fst (gtile gh)) \<and> gy gh = px (snd (gtile gh)) \<and>
           walk (can_move_to m) (gtile gh) (gpath gh))"

subsection \<open>Proof devices\<close>

text \<open>\<open>path_to m s c p\<close>: \<open>p\<close> walks from \<open>s\<close> to \<open>c\<close>. \<open>bfs_inv\<close>: every
  queued tile has a recorded path and every recorded path leads to its tile;
  \<open>bfs_meas\<close> (twice the unvisited walkable tiles plus the queue length) falls at
  every iteration. \<open>dfs_inv\<close>: every stack entry is the start or a walkable
  tile, with a path to it; \<open>dfs_meas\<close> falls at every iteration (a visit
  pushes at most four entries and visits one more of the finitely many tiles).
  \<open>srel g V sc si\<close>: Clyde's stack \<open>sc\<close> is Inky's stack \<open>si\<close> with extra
  entries for visited tiles other than the goal. \<open>slide_dist\<close>: the pixel
  distance left to the target tile.\<close>

definition search_cells :: "tilemap \<Rightarrow> pos \<Rightarrow> pos set" where
  "search_cells m s = insert s {q. can_move_to m q}"

definition path_to :: "tilemap \<Rightarrow> pos \<Rightarrow> pos \<Rightarrow> path \<Rightarrow> bool" where
  "path_to m s c p \<longleftrightarrow> walk (can_move_to m) s p \<and> last (s # p) = c"

definition bfs_inv :: "tilemap \<Rightarrow> pos \<Rightarrow> bfs_state \<Rightarrow> bool" where
  "bfs_inv m s st \<longleftrightarrow>
     set (queue st) \<subseteq> dom (paths st) \<and> (\<forall>c p. paths st c = Some p \<longrightarrow> path_to m s c p)"

definition dfs_inv :: "tilemap \<Rightarrow> pos \<Rightarrow> (pos \<times> path) list \<Rightarrow> bool" where
  "dfs_inv m s stack \<longleftrightarrow> (\<forall>e \<in> set stack. fst e \<in> search_cells m s \<and> path_to m s (fst e) (snd e))"

definition bfs_meas :: "tilemap \<Rightarrow> bfs_state \<Rightarrow> nat" where
  "bfs_meas m st = 2 * card ({q. can_move_to m q} - bvisited st) + length (queue st)"

definition dfs_meas :: "tilemap \<Rightarrow> pos \<Rightarrow> pos set \<Rightarrow> (pos \<times> path) list \<Rightarrow> nat" where
  "dfs_meas m s V stack = 5 * card (search_cells m s - V) + length stack"

inductive srel :: "pos \<Rightarrow> pos set \<Rightarrow> (pos \<times> path) list \<Rightarrow> (pos \<times> path) list \<Rightarrow> bool"
  for g V where
  srel_Nil: "srel g V [] []"
| srel_Cons: "srel g V sc si \<Longrightarrow> srel g V (e # sc) (e # si)"
| srel_skip: "fst e \<in> V \<Longrightarrow> fst e \<noteq> g \<Longrightarrow> srel g V sc si \<Longrightarrow> srel g V (e # sc) si"

definition slide_dist :: "pos \<Rightarrow> ghost \<Rightarrow> rat" where
  "slide_dist tt gh = \<bar>px (fst tt) - gx gh\<bar> + \<bar>px (snd tt) - gy gh\<bar>"

text \<open>\<open>bfs_layered\<close>: the breadth-first order of the queue. The visited set is
  the set of tiles with a recorded path, queued tiles are visited, the queue's
  path lengths (\<open>bfs_dist\<close>) are sorted and no visited tile's path is more than
  one longer than a queued one's; every visited tile is still queued or is not
  the goal and has been expanded: its enterable neighbours are visited with paths
  at most one longer.\<close>

definition bfs_dist :: "bfs_state \<Rightarrow> pos \<Rightarrow> nat" where
  "bfs_dist st v = length (the (paths st v))"

definition bfs_layered :: "tilemap \<Rightarrow> pos \<Rightarrow> bfs_state \<Rightarrow> bool" where
  "bfs_layered m goal st \<longleftrightarrow>
     bvisited st = dom (paths st) \<and> set (queue st) \<subseteq> bvisited st \<and>
     sorted (map (bfs_dist st) (queue st)) \<and>
     (\<forall>c \<in> set (queue st). \<forall>v \<in> bvisited st. bfs_dist st v \<le> bfs_dist st c + 1) \<and>
     (\<forall>v \<in> bvisited st. v \<in> set (queue st) \<or>
        (v \<noteq> goal \<and> (\<forall>d \<in> set directions. can_move_to m (neighbour v d) \<longrightarrow>
           neighbour v d \<in> bvisited st \<and> bfs_dist st (neighbour v d) \<le> bfs_dist st v + 1)))"

subsection \<open>Lemmas\<close>

inductive_cases srel_NilE: "srel g V [] si"

inductive_cases srel_ConsE: "srel g V (e # sc) si"

lemma can_move_to_is_walkable: "can_move_to m q = is_walkable m q"
  by (auto simp: can_move_to_def is_walkable_def in_bounds_def)

lemma finite_search_cells: "finite (search_cells m s)"
  using finite_walkable [of m] by (simp add: search_cells_def can_move_to_is_walkable)

lemma card_Diff_insert_less:
  "finite C \<Longrightarrow> x \<in> C \<Longrightarrow> x \<notin> V \<Longrightarrow> card (C - insert x V) < card (C - V)"
  by (rule psubset_card_mono) auto

lemma path_to_snoc:
  "path_to m s c p \<Longrightarrow> can_move_to m nb \<Longrightarrow> adjacent c nb \<Longrightarrow> path_to m s nb (p @ [nb])"
  by (simp add: path_to_def)

lemma path_to_result: "path_to m s g p \<Longrightarrow> p \<noteq> [] \<Longrightarrow> walk (can_move_to m) s p \<and> last p = g"
  by (simp add: path_to_def)

lemma neighbour_adjacent: "nb \<in> set (map (neighbour c) directions) \<Longrightarrow> adjacent c nb"
  by (auto simp: adjacent_neighbour)

lemma bfs_invD:
  assumes "bfs_inv m s st"
  shows "set (queue st) \<subseteq> dom (paths st)"
    and "paths st c = Some p \<Longrightarrow> path_to m s c p"
  using assms unfolding bfs_inv_def by blast+

lemma finite_can_move_to: "finite {q. can_move_to m q}"
  using finite_walkable [of m] by (simp add: can_move_to_is_walkable)

lemma bfs_visit_step:
  assumes inv: "bfs_inv m s st" and cur: "paths st cur = Some pc" and d: "d \<in> set directions"
  shows "bfs_inv m s (bfs_visit m cur d st) \<and> paths (bfs_visit m cur d st) cur = Some pc \<and>
         bfs_meas m (bfs_visit m cur d st) \<le> bfs_meas m st"
proof (cases "neighbour cur d \<notin> bvisited st \<and> can_move_to m (neighbour cur d)")
  case False
  have "bfs_visit m cur d st = st"
    unfolding bfs_visit_def Let_def by (simp only: if_not_P [OF False])
  then show ?thesis using inv cur by simp
next
  case True
  let ?nb = "neighbour cur d"
  have st': "bfs_visit m cur d st =
      st\<lparr>queue := queue st @ [?nb], bvisited := insert ?nb (bvisited st),
         paths := (paths st)(?nb \<mapsto> pc @ [?nb])\<rparr>"
    using True cur by (simp add: bfs_visit_def Let_def)
  have ne: "?nb \<noteq> cur" using neighbour_ne [OF d] .
  have pc: "path_to m s cur pc" using bfs_invD(2) [OF inv cur] .
  have new: "path_to m s ?nb (pc @ [?nb])"
    using path_to_snoc [OF pc] True adjacent_neighbour [OF d] by blast
  have inv': "bfs_inv m s (bfs_visit m cur d st)"
    using inv new by (auto simp: st' bfs_inv_def)
  have "card ({q. can_move_to m q} - insert ?nb (bvisited st)) < card ({q. can_move_to m q} - bvisited st)"
    using True by (intro card_Diff_insert_less finite_can_move_to) auto
  then have "bfs_meas m (bfs_visit m cur d st) \<le> bfs_meas m st"
    by (simp add: st' bfs_meas_def)
  with inv' ne cur show ?thesis by (simp add: st')
qed

lemma bfs_fold_step:
  "bfs_inv m s st \<Longrightarrow> paths st cur = Some pc \<Longrightarrow> set ds \<subseteq> set directions \<Longrightarrow>
   bfs_inv m s (fold (bfs_visit m cur) ds st) \<and> paths (fold (bfs_visit m cur) ds st) cur = Some pc \<and>
   bfs_meas m (fold (bfs_visit m cur) ds st) \<le> bfs_meas m st"
proof (induction ds arbitrary: st)
  case Nil
  then show ?case by simp
next
  case (Cons d ds)
  from bfs_visit_step [OF Cons.prems(1,2)] Cons.prems(3)
  have "bfs_inv m s (bfs_visit m cur d st)" "paths (bfs_visit m cur d st) cur = Some pc"
    "bfs_meas m (bfs_visit m cur d st) \<le> bfs_meas m st" by auto
  with Cons.IH [of "bfs_visit m cur d st"] Cons.prems(3) show ?case by auto
qed

lemma bfs_loop_ok:
  "bfs_inv m s st \<Longrightarrow>
   \<exists>p. bfs_loop m goal st = Some p \<and> (p \<noteq> [] \<longrightarrow> walk (can_move_to m) s p \<and> last p = goal)"
proof (induction "bfs_meas m st" arbitrary: st rule: less_induct)
  case less
  show ?case
  proof (cases "queue st")
    case Nil
    then show ?thesis by (simp add: bfs_loop.simps [of m goal st])
  next
    case (Cons cur rest)
    from bfs_invD(1) [OF less.prems] Cons obtain pc where pc: "paths st cur = Some pc" by auto
    show ?thesis
    proof (cases "cur = goal")
      case True
      have "path_to m s goal pc" using bfs_invD(2) [OF less.prems] pc True by simp
      with True Cons pc show ?thesis
        by (auto simp: bfs_loop.simps [of m goal st] path_to_def split: if_splits)
    next
      case False
      let ?st = "fold (bfs_visit m cur) directions (st\<lparr>queue := rest\<rparr>)"
      have inv0: "bfs_inv m s (st\<lparr>queue := rest\<rparr>)" using less.prems Cons by (simp add: bfs_inv_def)
      from bfs_fold_step [OF inv0, of cur pc directions] pc
      have inv': "bfs_inv m s ?st" and le: "bfs_meas m ?st \<le> bfs_meas m (st\<lparr>queue := rest\<rparr>)" by auto
      have "bfs_meas m (st\<lparr>queue := rest\<rparr>) < bfs_meas m st" using Cons by (simp add: bfs_meas_def)
      with le have "bfs_meas m ?st < bfs_meas m st" by linarith
      from less.hyps [OF this inv'] False Cons show ?thesis
        by (simp add: bfs_loop.simps [of m goal st])
    qed
  qed
qed

lemma bfs_start_ok:
  "bfs_inv m s \<lparr>queue = [s], bvisited = {s}, paths = [s \<mapsto> []]\<rparr> \<and>
   bfs_layered m goal \<lparr>queue = [s], bvisited = {s}, paths = [s \<mapsto> []]\<rparr>"
  by (simp add: bfs_inv_def path_to_def bfs_layered_def bfs_dist_def)

lemma bfs_ok:
  "\<exists>p. bfs m s goal = Some p \<and> (p \<noteq> [] \<longrightarrow> walk (can_move_to m) s p \<and> last p = goal)"
  unfolding bfs_def by (rule bfs_loop_ok [OF conjunct1 [OF bfs_start_ok [of m s s]]])

lemma bfs_layeredD:
  assumes "bfs_layered m goal st"
  shows "bvisited st = dom (paths st)" and "set (queue st) \<subseteq> bvisited st"
    and "sorted (map (bfs_dist st) (queue st))"
    and "c \<in> set (queue st) \<Longrightarrow> v \<in> bvisited st \<Longrightarrow> bfs_dist st v \<le> bfs_dist st c + 1"
    and "v \<in> bvisited st \<Longrightarrow> v \<notin> set (queue st) \<Longrightarrow>
         v \<noteq> goal \<and> (\<forall>d \<in> set directions. can_move_to m (neighbour v d) \<longrightarrow>
           neighbour v d \<in> bvisited st \<and> bfs_dist st (neighbour v d) \<le> bfs_dist st v + 1)"
  using assms unfolding bfs_layered_def by blast+

text \<open>What one expansion adds: new tiles at the end of the queue, unvisited
  before, with the current tile's path extended by one; old paths unchanged.\<close>

lemma bfs_visit_grow:
  assumes cur: "cur \<in> bvisited st"
  shows "\<exists>new. queue (bfs_visit m cur d st) = queue st @ new \<and>
           bvisited (bfs_visit m cur d st) = bvisited st \<union> set new \<and>
           dom (paths (bfs_visit m cur d st)) = dom (paths st) \<union> set new \<and>
           (\<forall>v \<in> bvisited st. paths (bfs_visit m cur d st) v = paths st v) \<and>
           (\<forall>x \<in> set new. x \<notin> bvisited st \<and> paths (bfs_visit m cur d st) x = Some (the (paths st cur) @ [x])) \<and>
           (can_move_to m (neighbour cur d) \<longrightarrow> neighbour cur d \<in> bvisited (bfs_visit m cur d st))"
proof (cases "neighbour cur d \<notin> bvisited st \<and> can_move_to m (neighbour cur d)")
  case True
  have "cur \<noteq> neighbour cur d" using True cur by auto
  with True cur show ?thesis
    by (intro exI [of _ "[neighbour cur d]"]) (auto simp: bfs_visit_def Let_def)
next
  case False
  then have "bfs_visit m cur d st = st" by (auto simp: bfs_visit_def Let_def)
  with False show ?thesis by (intro exI [of _ "[]"]) auto
qed

lemma bfs_fold_grow:
  assumes "cur \<in> bvisited st"
  shows "\<exists>new. queue (fold (bfs_visit m cur) ds st) = queue st @ new \<and>
           bvisited (fold (bfs_visit m cur) ds st) = bvisited st \<union> set new \<and>
           dom (paths (fold (bfs_visit m cur) ds st)) = dom (paths st) \<union> set new \<and>
           (\<forall>v \<in> bvisited st. paths (fold (bfs_visit m cur) ds st) v = paths st v) \<and>
           (\<forall>x \<in> set new. x \<notin> bvisited st \<and>
              paths (fold (bfs_visit m cur) ds st) x = Some (the (paths st cur) @ [x])) \<and>
           (\<forall>d \<in> set ds. can_move_to m (neighbour cur d) \<longrightarrow>
              neighbour cur d \<in> bvisited (fold (bfs_visit m cur) ds st))"
  using assms
proof (induction ds arbitrary: st)
  case Nil
  then show ?case by simp
next
  case (Cons d ds)
  let ?st1 = "bfs_visit m cur d st"
  let ?st2 = "fold (bfs_visit m cur) ds ?st1"
  from bfs_visit_grow [OF Cons.prems, of m d] obtain new1 where
    q1: "queue ?st1 = queue st @ new1" and v1: "bvisited ?st1 = bvisited st \<union> set new1"
    and d1: "dom (paths ?st1) = dom (paths st) \<union> set new1"
    and p1: "\<forall>v \<in> bvisited st. paths ?st1 v = paths st v"
    and n1: "\<forall>x \<in> set new1. x \<notin> bvisited st \<and> paths ?st1 x = Some (the (paths st cur) @ [x])"
    and c1: "can_move_to m (neighbour cur d) \<longrightarrow> neighbour cur d \<in> bvisited ?st1" by blast
  have cur1: "cur \<in> bvisited ?st1" using v1 Cons.prems by simp
  from Cons.IH [OF cur1] obtain new2 where
    q2: "queue ?st2 = queue ?st1 @ new2" and v2: "bvisited ?st2 = bvisited ?st1 \<union> set new2"
    and d2: "dom (paths ?st2) = dom (paths ?st1) \<union> set new2"
    and p2: "\<forall>v \<in> bvisited ?st1. paths ?st2 v = paths ?st1 v"
    and n2: "\<forall>x \<in> set new2. x \<notin> bvisited ?st1 \<and> paths ?st2 x = Some (the (paths ?st1 cur) @ [x])"
    and c2: "\<forall>d \<in> set ds. can_move_to m (neighbour cur d) \<longrightarrow> neighbour cur d \<in> bvisited ?st2" by blast
  have pc: "paths ?st1 cur = paths st cur" using p1 Cons.prems by blast
  have p: "\<forall>v \<in> bvisited st. paths ?st2 v = paths st v" using p1 p2 v1 by auto
  have n: "\<forall>x \<in> set (new1 @ new2). x \<notin> bvisited st \<and> paths ?st2 x = Some (the (paths st cur) @ [x])"
    using n1 n2 p2 v1 pc by auto
  have c: "\<forall>d' \<in> set (d # ds). can_move_to m (neighbour cur d') \<longrightarrow> neighbour cur d' \<in> bvisited ?st2"
    using c1 c2 v2 by auto
  show ?case using q1 q2 v1 v2 d1 d2 p n c by (intro exI [of _ "new1 @ new2"]) auto
qed

lemma bfs_fold_keeps:
  "cur \<in> bvisited st \<Longrightarrow> v \<in> bvisited st \<Longrightarrow> paths (fold (bfs_visit m cur) ds st) v = paths st v"
  using bfs_fold_grow [of cur st m ds] by blast

text \<open>An iteration that pops a tile other than the goal and expands it keeps
  the breadth-first order.\<close>

lemma bfs_layered_step:
  assumes lay: "bfs_layered m goal st" and q: "queue st = cur # rest" and cg: "cur \<noteq> goal"
  shows "bfs_layered m goal (fold (bfs_visit m cur) directions (st\<lparr>queue := rest\<rparr>))"
proof -
  let ?st0 = "st\<lparr>queue := rest\<rparr>"
  let ?st2 = "fold (bfs_visit m cur) directions ?st0"
  let ?L = "bfs_dist st cur"
  note dom = bfs_layeredD(1) [OF lay] and qv = bfs_layeredD(2) [OF lay]
    and srt = bfs_layeredD(3) [OF lay] and bnd = bfs_layeredD(4) [OF lay]
    and stl = bfs_layeredD(5) [OF lay]
  have cur: "cur \<in> bvisited st" using qv q by simp
  from bfs_fold_grow [of cur ?st0 m directions] cur obtain new where
    q2: "queue ?st2 = rest @ new" and v2: "bvisited ?st2 = bvisited st \<union> set new"
    and d2: "dom (paths ?st2) = dom (paths st) \<union> set new"
    and p2: "\<forall>v \<in> bvisited st. paths ?st2 v = paths st v"
    and n2: "\<forall>x \<in> set new. x \<notin> bvisited st \<and> paths ?st2 x = Some (the (paths st cur) @ [x])"
    and c2: "\<forall>d \<in> set directions. can_move_to m (neighbour cur d) \<longrightarrow> neighbour cur d \<in> bvisited ?st2"
    by auto
  have dist_old: "bfs_dist ?st2 v = bfs_dist st v" if "v \<in> bvisited st" for v
    using p2 that by (simp add: bfs_dist_def)
  have dist_new: "bfs_dist ?st2 x = ?L + 1" if "x \<in> set new" for x
    using n2 that by (simp add: bfs_dist_def)
  have restv: "set rest \<subseteq> bvisited st" using qv q by simp
  have rest_ge: "?L \<le> bfs_dist st c" if "c \<in> set rest" for c
    using srt q that by simp
  have curq: "cur \<in> set (queue st)" using q by simp
  have vis_le: "bfs_dist ?st2 v \<le> ?L + 1" if v: "v \<in> bvisited ?st2" for v
  proof (cases "v \<in> bvisited st")
    case True
    then show ?thesis using dist_old [OF True] bnd [OF curq True] by simp
  next
    case False
    with v v2 have "v \<in> set new" by simp
    then show ?thesis using dist_new by simp
  qed
  have queue_ge: "?L \<le> bfs_dist ?st2 c" if c: "c \<in> set (queue ?st2)" for c
  proof (cases "c \<in> set rest")
    case True
    with restv have "c \<in> bvisited st" by blast
    then show ?thesis using dist_old rest_ge [OF True] by simp
  next
    case False
    with c q2 have "c \<in> set new" by simp
    then show ?thesis using dist_new by simp
  qed
  have i1: "bvisited ?st2 = dom (paths ?st2)" using v2 d2 dom by simp
  have i2: "set (queue ?st2) \<subseteq> bvisited ?st2" using q2 v2 restv by auto
  have i3: "sorted (map (bfs_dist ?st2) (queue ?st2))"
  proof -
    have r: "map (bfs_dist ?st2) rest = map (bfs_dist st) rest"
      using restv dist_old by (intro map_cong) auto
    have "map (bfs_dist ?st2) new = map (\<lambda>_. ?L + 1) new"
      using dist_new by (intro map_cong) simp_all
    then have n: "map (bfs_dist ?st2) new = replicate (length new) (?L + 1)"
      by (simp add: map_replicate_const)
    have "sorted (map (bfs_dist st) rest)" using srt q by simp
    moreover have "\<forall>c \<in> set rest. bfs_dist st c \<le> ?L + 1" using bnd [OF curq] restv by auto
    ultimately show ?thesis unfolding q2 map_append r n by (simp add: sorted_append)
  qed
  have i4: "\<forall>c \<in> set (queue ?st2). \<forall>v \<in> bvisited ?st2. bfs_dist ?st2 v \<le> bfs_dist ?st2 c + 1"
    using vis_le queue_ge by fastforce
  have i5: "v \<in> set (queue ?st2) \<or>
      (v \<noteq> goal \<and> (\<forall>d \<in> set directions. can_move_to m (neighbour v d) \<longrightarrow>
         neighbour v d \<in> bvisited ?st2 \<and> bfs_dist ?st2 (neighbour v d) \<le> bfs_dist ?st2 v + 1))"
    if v: "v \<in> bvisited ?st2" for v
  proof (cases "v \<in> set new")
    case True
    then show ?thesis by (simp add: q2)
  next
    case False
    with v v2 have vo: "v \<in> bvisited st" by simp
    show ?thesis
    proof (cases "v = cur")
      case True
      with cg c2 vis_le dist_old [OF cur] show ?thesis by auto
    next
      case vc: False
      show ?thesis
      proof (cases "v \<in> set (queue st)")
        case True
        with vc q q2 show ?thesis by simp
      next
        case False
        from stl [OF vo False] have "v \<noteq> goal" and
          ex: "\<forall>d \<in> set directions. can_move_to m (neighbour v d) \<longrightarrow>
             neighbour v d \<in> bvisited st \<and> bfs_dist st (neighbour v d) \<le> bfs_dist st v + 1" by auto
        then show ?thesis using v2 dist_old vo by auto
      qed
    qed
  qed
  from i1 i2 i3 i4 i5 show ?thesis unfolding bfs_layered_def by blast
qed

text \<open>Along any walk to the goal from a visited tile, some queued tile's path
  is no longer than that tile's path plus the walk.\<close>

lemma bfs_frontier:
  assumes lay: "bfs_layered m goal st"
  shows "v \<in> bvisited st \<Longrightarrow> walk (can_move_to m) v q \<Longrightarrow> last (v # q) = goal \<Longrightarrow>
         \<exists>c \<in> set (queue st). bfs_dist st c \<le> bfs_dist st v + length q"
proof (induction q arbitrary: v)
  case Nil
  have "v \<in> set (queue st)"
  proof (rule ccontr)
    assume "v \<notin> set (queue st)"
    from bfs_layeredD(5) [OF lay Nil.prems(1) this] Nil.prems(3) show False by simp
  qed
  then show ?case by (intro bexI [of _ v]) simp_all
next
  case (Cons w q)
  from Cons.prems have ok: "can_move_to m w" and adj: "adjacent v w"
    and wq: "walk (can_move_to m) w q" and lw: "last (w # q) = goal" by auto
  show ?case
  proof (cases "v \<in> set (queue st)")
    case True
    then show ?thesis by (intro bexI [of _ v]) simp_all
  next
    case False
    from adjacent_directions [OF adj] obtain d where "d \<in> set directions" "w = neighbour v d" by blast
    with bfs_layeredD(5) [OF lay Cons.prems(1) False] ok
    have w: "w \<in> bvisited st" and wd: "bfs_dist st w \<le> bfs_dist st v + 1" by auto
    from Cons.IH [OF w wq lw] obtain c where "c \<in> set (queue st)"
      "bfs_dist st c \<le> bfs_dist st w + length q" by blast
    with wd show ?thesis by (intro bexI [of _ c]) simp_all
  qed
qed

lemma bfs_loop_shortest:
  assumes "bfs_inv m s st" and "bfs_layered m goal st" and "paths st s = Some []"
    and q: "walk (can_move_to m) s q" and lq: "last (s # q) = goal"
  shows "\<exists>p. bfs_loop m goal st = Some p \<and> path_to m s goal p \<and> length p \<le> length q"
  using assms(1-3)
proof (induction "bfs_meas m st" arbitrary: st rule: less_induct)
  case less
  note inv = less.prems(1) and lay = less.prems(2) and ps = less.prems(3)
  have sv: "s \<in> bvisited st" using bfs_layeredD(1) [OF lay] ps by auto
  from bfs_frontier [OF lay sv q lq] ps obtain c where
    c: "c \<in> set (queue st)" "bfs_dist st c \<le> length q" by (auto simp: bfs_dist_def)
  then obtain cur rest where Q: "queue st = cur # rest" by (cases "queue st") auto
  have le: "bfs_dist st cur \<le> bfs_dist st c" using bfs_layeredD(3) [OF lay] c(1) Q by auto
  from bfs_invD(1) [OF inv] Q obtain pc where pc: "paths st cur = Some pc" by auto
  show ?case
  proof (cases "cur = goal")
    case True
    have "path_to m s goal pc" using bfs_invD(2) [OF inv pc] True by simp
    moreover have "length pc \<le> length q" using le c(2) pc by (simp add: bfs_dist_def)
    ultimately show ?thesis using True Q pc by (simp add: bfs_loop.simps [of m goal st])
  next
    case False
    let ?sp = "st\<lparr>queue := rest\<rparr>"
    let ?sn = "fold (bfs_visit m cur) directions ?sp"
    have inv0: "bfs_inv m s ?sp" using inv Q by (simp add: bfs_inv_def)
    from bfs_fold_step [OF inv0, of cur pc directions] pc
    have inv': "bfs_inv m s ?sn" and mle: "bfs_meas m ?sn \<le> bfs_meas m ?sp" by auto
    have lay': "bfs_layered m goal ?sn" using bfs_layered_step [OF lay Q False] .
    have "cur \<in> bvisited ?sp" using bfs_layeredD(2) [OF lay] Q by simp
    from bfs_fold_keeps [OF this, of s] sv ps have ps': "paths ?sn s = Some []" by simp
    have "bfs_meas m ?sp < bfs_meas m st" using Q by (simp add: bfs_meas_def)
    with mle have "bfs_meas m ?sn < bfs_meas m st" by linarith
    from less.hyps [OF this inv' lay' ps'] False Q show ?thesis
      by (simp add: bfs_loop.simps [of m goal st])
  qed
qed

lemma dfs_children_clyde_ok:
  "e \<in> set (dfs_children_clyde m cur p) \<Longrightarrow>
   can_move_to m (fst e) \<and> adjacent cur (fst e) \<and> snd e = p @ [fst e]"
  by (auto simp: dfs_children_clyde_def adjacent_neighbour)

lemma dfs_children_inky_filter:
  "dfs_children_inky m V cur p = filter (\<lambda>e. fst e \<notin> V) (dfs_children_clyde m cur p)"
  by (simp add: dfs_children_inky_def dfs_children_clyde_def filter_map o_def conj_commute)

lemma length_dfs_children_clyde: "length (dfs_children_clyde m cur p) \<le> 4"
proof -
  have "length (filter (can_move_to m) (map (neighbour cur) directions)) \<le> length (map (neighbour cur) directions)"
    by (rule length_filter_le)
  then show ?thesis by (simp add: dfs_children_clyde_def directions_def)
qed

lemma length_dfs_children_inky: "length (dfs_children_inky m V cur p) \<le> 4"
  unfolding dfs_children_inky_filter by (rule le_trans [OF length_filter_le length_dfs_children_clyde])

lemma dfs_inv_push:
  assumes inv: "dfs_inv m s ((cur, p) # rest)" and sub: "set ch \<subseteq> set (dfs_children_clyde m cur p)"
  shows "dfs_inv m s (rev ch @ rest)"
proof -
  have pc: "path_to m s cur p" using inv by (simp add: dfs_inv_def)
  have "fst e \<in> search_cells m s \<and> path_to m s (fst e) (snd e)" if "e \<in> set ch" for e
  proof -
    from sub that have "e \<in> set (dfs_children_clyde m cur p)" by blast
    from dfs_children_clyde_ok [OF this]
    have c: "can_move_to m (fst e)" "adjacent cur (fst e)" "snd e = p @ [fst e]" by auto
    from path_to_snoc [OF pc c(1) c(2)] c(3) show ?thesis by (simp add: search_cells_def c(1))
  qed
  with inv show ?thesis by (auto simp: dfs_inv_def)
qed

lemma dfs_meas_push:
  assumes inv: "dfs_inv m s ((cur, p) # rest)" and V: "cur \<notin> V" and len: "length ch \<le> 4"
  shows "dfs_meas m s (insert cur V) (rev ch @ rest) < dfs_meas m s V ((cur, p) # rest)"
proof -
  have "cur \<in> search_cells m s" using inv by (simp add: dfs_inv_def)
  from card_Diff_insert_less [OF finite_search_cells this V]
  have "card (search_cells m s - insert cur V) < card (search_cells m s - V)" .
  with len show ?thesis by (simp add: dfs_meas_def)
qed

lemma dfs_result:
  "dfs_inv m s ((g, p) # rest) \<Longrightarrow> p \<noteq> [] \<longrightarrow> walk (can_move_to m) s p \<and> last p = g"
  by (auto simp: dfs_inv_def dest: path_to_result)

lemma dfs_clyde_loop_ok:
  "dfs_inv m s stack \<Longrightarrow>
   \<exists>p. dfs_clyde_loop m goal stack V = Some p \<and> (p \<noteq> [] \<longrightarrow> walk (can_move_to m) s p \<and> last p = goal)"
proof (induction "dfs_meas m s V stack" arbitrary: stack V rule: less_induct)
  case less
  show ?case
  proof (cases stack)
    case Nil
    then show ?thesis by (simp add: dfs_clyde_loop.simps [of m goal "[]"])
  next
    case (Cons e rest)
    obtain cur p where e: "e = (cur, p)" by (cases e)
    note inv = less.prems [unfolded Cons e]
    have unf: "dfs_clyde_loop m goal stack V =
        (if cur = goal then Some p
         else if cur \<notin> V then dfs_clyde_loop m goal (rev (dfs_children_clyde m cur p) @ rest) (insert cur V)
         else dfs_clyde_loop m goal rest V)"
      unfolding Cons e by (simp add: dfs_clyde_loop.simps [of m goal "(cur, p) # rest"])
    consider "cur = goal" | "cur \<noteq> goal" "cur \<notin> V" | "cur \<noteq> goal" "cur \<in> V" by blast
    then show ?thesis
    proof cases
      case 1
      then show ?thesis using dfs_result [OF inv [unfolded 1]] by (simp add: unf)
    next
      case 2
      have "dfs_inv m s (rev (dfs_children_clyde m cur p) @ rest)" by (rule dfs_inv_push [OF inv]) simp
      moreover have "dfs_meas m s (insert cur V) (rev (dfs_children_clyde m cur p) @ rest) < dfs_meas m s V stack"
        using dfs_meas_push [OF inv 2(2) length_dfs_children_clyde] by (simp add: Cons e)
      ultimately show ?thesis using less.hyps 2 by (simp add: unf)
    next
      case 3
      have "dfs_inv m s rest" using inv by (simp add: dfs_inv_def)
      moreover have "dfs_meas m s V rest < dfs_meas m s V stack" by (simp add: Cons dfs_meas_def)
      ultimately show ?thesis using less.hyps 3 by (simp add: unf)
    qed
  qed
qed

lemma dfs_inky_loop_ok:
  "dfs_inv m s stack \<Longrightarrow>
   \<exists>p. dfs_inky_loop m goal stack V = Some p \<and> (p \<noteq> [] \<longrightarrow> walk (can_move_to m) s p \<and> last p = goal)"
proof (induction "dfs_meas m s V stack" arbitrary: stack V rule: less_induct)
  case less
  show ?case
  proof (cases stack)
    case Nil
    then show ?thesis by (simp add: dfs_inky_loop.simps [of m goal "[]"])
  next
    case (Cons e rest)
    obtain cur p where e: "e = (cur, p)" by (cases e)
    note inv = less.prems [unfolded Cons e]
    let ?ch = "dfs_children_inky m (insert cur V) cur p"
    have unf: "dfs_inky_loop m goal stack V =
        (if cur = goal then Some p
         else if cur \<notin> V then dfs_inky_loop m goal (rev ?ch @ rest) (insert cur V)
         else dfs_inky_loop m goal rest V)"
      unfolding Cons e by (simp add: dfs_inky_loop.simps [of m goal "(cur, p) # rest"])
    consider "cur = goal" | "cur \<noteq> goal" "cur \<notin> V" | "cur \<noteq> goal" "cur \<in> V" by blast
    then show ?thesis
    proof cases
      case 1
      then show ?thesis using dfs_result [OF inv [unfolded 1]] by (simp add: unf)
    next
      case 2
      have "dfs_inv m s (rev ?ch @ rest)" by (rule dfs_inv_push [OF inv]) (auto simp: dfs_children_inky_filter)
      moreover have "dfs_meas m s (insert cur V) (rev ?ch @ rest) < dfs_meas m s V stack"
        using dfs_meas_push [OF inv 2(2) length_dfs_children_inky] by (simp add: Cons e)
      ultimately show ?thesis using less.hyps 2 by (simp add: unf)
    next
      case 3
      have "dfs_inv m s rest" using inv by (simp add: dfs_inv_def)
      moreover have "dfs_meas m s V rest < dfs_meas m s V stack" by (simp add: Cons dfs_meas_def)
      ultimately show ?thesis using less.hyps 3 by (simp add: unf)
    qed
  qed
qed

lemma dfs_inv_init: "dfs_inv m s [(s, [])]"
  by (simp add: dfs_inv_def search_cells_def path_to_def)

lemma srel_mono: "srel g V sc si \<Longrightarrow> V \<subseteq> V' \<Longrightarrow> srel g V' sc si"
  by (induction rule: srel.induct) (auto intro: srel.intros)

lemma srel_append_filter:
  "(\<forall>e \<in> set xs. P e \<or> (fst e \<in> V \<and> fst e \<noteq> g)) \<Longrightarrow> srel g V ys zs \<Longrightarrow>
   srel g V (xs @ ys) (filter P xs @ zs)"
  by (induction xs) (auto intro: srel.intros)

lemma srel_push:
  assumes "srel g V rest si" "g \<notin> insert cur V"
  shows "srel g (insert cur V) (rev (dfs_children_clyde m cur p) @ rest)
                               (rev (dfs_children_inky m (insert cur V) cur p) @ si)"
proof -
  have "srel g (insert cur V) rest si" using srel_mono [OF assms(1)] by blast
  then have "srel g (insert cur V) (rev (dfs_children_clyde m cur p) @ rest)
               (filter (\<lambda>e. fst e \<notin> insert cur V) (rev (dfs_children_clyde m cur p)) @ si)"
    using assms(2) by (intro srel_append_filter) auto
  then show ?thesis by (simp add: dfs_children_inky_filter rev_filter)
qed

lemma dfs_clyde_inky_loop:
  "dfs_inv m s sc \<Longrightarrow> srel g V sc si \<Longrightarrow> g \<notin> V \<Longrightarrow>
   dfs_clyde_loop m g sc V = dfs_inky_loop m g si V"
proof (induction "dfs_meas m s V sc" arbitrary: sc si V rule: less_induct)
  case less
  note inv = less.prems(1) and rel = less.prems(2) and gV = less.prems(3)
  show ?case
  proof (cases sc)
    case Nil
    with rel have "si = []" by (auto elim: srel_NilE)
    with Nil show ?thesis
      by (simp add: dfs_clyde_loop.simps [of m g "[]"] dfs_inky_loop.simps [of m g "[]"])
  next
    case (Cons e rest)
    obtain cur p where e: "e = (cur, p)" by (cases e)
    have inv_rest: "dfs_inv m s rest" using inv Cons by (simp add: dfs_inv_def)
    have shorter: "dfs_meas m s V rest < dfs_meas m s V sc" by (simp add: Cons dfs_meas_def)
    from rel [unfolded Cons]
    consider (both) si' where "si = e # si'" "srel g V rest si'"
      | (skip) "fst e \<in> V" "fst e \<noteq> g" "srel g V rest si"
      by (auto elim: srel_ConsE)
    then show ?thesis
    proof cases
      case both
      note si = both(1) and rel' = both(2)
      consider "cur = g" | "cur \<noteq> g" "cur \<notin> V" | "cur \<noteq> g" "cur \<in> V" by blast
      then show ?thesis
      proof cases
        case 1
        then show ?thesis unfolding Cons e si
          by (simp add: dfs_clyde_loop.simps [of m g "(g, p) # rest"] dfs_inky_loop.simps [of m g "(g, p) # si'"])
      next
        case 2
        have inv': "dfs_inv m s (rev (dfs_children_clyde m cur p) @ rest)"
          using dfs_inv_push [of m s cur p rest "dfs_children_clyde m cur p"] inv by (simp add: Cons e)
        have less': "dfs_meas m s (insert cur V) (rev (dfs_children_clyde m cur p) @ rest) < dfs_meas m s V sc"
          using dfs_meas_push [of m s cur p rest V] inv 2(2) length_dfs_children_clyde by (simp add: Cons e)
        have gV': "g \<notin> insert cur V" using gV 2(1) by simp
        from less.hyps [OF less' inv' srel_push [OF rel' gV'] gV'] 2 show ?thesis unfolding Cons e si
          by (simp add: dfs_clyde_loop.simps [of m g "(cur, p) # rest"] dfs_inky_loop.simps [of m g "(cur, p) # si'"])
      next
        case 3
        from less.hyps [OF shorter inv_rest rel' gV] 3 show ?thesis unfolding Cons e si
          by (simp add: dfs_clyde_loop.simps [of m g "(cur, p) # rest"] dfs_inky_loop.simps [of m g "(cur, p) # si'"])
      qed
    next
      case skip
      from less.hyps [OF shorter inv_rest skip(3) gV] skip(1,2) show ?thesis unfolding Cons e
        by (simp add: dfs_clyde_loop.simps [of m g "(cur, p) # rest"] e)
    qed
  qed
qed


lemma on_seg_step:
  assumes seg: "on_seg a b v" and far: "ghost_speed \<le> \<bar>b - v\<bar>"
  shows "on_seg a b (v + (b - v) / \<bar>b - v\<bar> * ghost_speed) \<and>
         \<bar>b - (v + (b - v) / \<bar>b - v\<bar> * ghost_speed)\<bar> = \<bar>b - v\<bar> - ghost_speed"
proof -
  have s: "0 < ghost_speed" by (simp add: ghost_speed_def)
  show ?thesis
  proof (cases "v < b")
    case True
    then have "(b - v) / \<bar>b - v\<bar> = 1" by simp
    with True far seg s show ?thesis by (auto simp: on_seg_def)
  next
    case False
    with far s have lt: "b < v" by (cases "b = v") auto
    then have "(b - v) / \<bar>b - v\<bar> = -1" by (simp add: divide_eq_minus_1_iff)
    with lt far seg s show ?thesis by (auto simp: on_seg_def)
  qed
qed

lemma on_seg_same: "on_seg a a v \<longleftrightarrow> v = a"
  by (auto simp: on_seg_def)

lemma adjacent_cases:
  "adjacent p q \<Longrightarrow> (fst p = fst q \<and> \<bar>snd p - snd q\<bar> = 1) \<or> (snd p = snd q \<and> \<bar>fst p - fst q\<bar> = 1)"
  by (auto simp: adjacent_def)

lemma ghost_speed_pos: "0 < ghost_speed"
  by (simp add: ghost_speed_def)

lemma ghost_slide_snap:
  "\<bar>px (fst tt) - gx gh\<bar> < ghost_speed \<Longrightarrow> \<bar>px (snd tt) - gy gh\<bar> < ghost_speed \<Longrightarrow>
   ghost_slide hyp tt gh = gh\<lparr>gx := px (fst tt), gy := px (snd tt), gtile := tt, is_moving := False\<rparr>"
  by (simp add: ghost_slide_def Let_def px_def)

lemma ghost_slide_far_x:
  assumes "hyp_ok hyp" "gy gh = px (snd tt)" "ghost_speed \<le> \<bar>px (fst tt) - gx gh\<bar>"
  shows "ghost_slide hyp tt gh =
           gh\<lparr>gx := gx gh + (px (fst tt) - gx gh) / \<bar>px (fst tt) - gx gh\<bar> * ghost_speed\<rparr>"
  using assms ghost_speed_pos by (simp add: ghost_slide_def Let_def px_def hyp_ok_def)

lemma ghost_slide_far_y:
  assumes "hyp_ok hyp" "gx gh = px (fst tt)" "ghost_speed \<le> \<bar>px (snd tt) - gy gh\<bar>"
  shows "ghost_slide hyp tt gh =
           gh\<lparr>gy := gy gh + (px (snd tt) - gy gh) / \<bar>px (snd tt) - gy gh\<bar> * ghost_speed\<rparr>"
  using assms ghost_speed_pos by (simp add: ghost_slide_def Let_def px_def hyp_ok_def)

lemma ghost_okD_moving:
  assumes "ghost_ok m gh" "is_moving gh" "target_tile gh = Some tt"
  shows "can_move_to m (gtile gh)" "can_move_to m tt" "adjacent (gtile gh) tt"
    "on_seg (px (fst (gtile gh))) (px (fst tt)) (gx gh)"
    "on_seg (px (snd (gtile gh))) (px (snd tt)) (gy gh)"
    "walk (can_move_to m) tt (gpath gh)"
  using assms by (simp_all add: ghost_ok_def)

lemma ghost_slide_ok:
  assumes hyp: "hyp_ok hyp" and ok: "ghost_ok m gh" and mv: "is_moving gh" and tt: "target_tile gh = Some tt"
  shows "ghost_ok m (ghost_slide hyp tt gh) \<and>
         (if is_moving (ghost_slide hyp tt gh)
          then target_tile (ghost_slide hyp tt gh) = Some tt \<and>
               slide_dist tt (ghost_slide hyp tt gh) = slide_dist tt gh - ghost_speed \<and>
               ghost_speed \<le> slide_dist tt gh
          else gtile (ghost_slide hyp tt gh) = tt)"
proof -
  note facts = ghost_okD_moving [OF ok mv tt]
  show ?thesis
  proof (cases "\<bar>px (fst tt) - gx gh\<bar> < ghost_speed \<and> \<bar>px (snd tt) - gy gh\<bar> < ghost_speed")
    case True
    then show ?thesis using facts by (simp add: ghost_slide_snap ghost_ok_def)
  next
    case False
    from adjacent_cases [OF facts(3)] show ?thesis
    proof
      assume ax: "fst (gtile gh) = fst tt \<and> \<bar>snd (gtile gh) - snd tt\<bar> = 1"
      with facts(4) have x: "gx gh = px (fst tt)" by (simp add: on_seg_same)
      with False have far: "ghost_speed \<le> \<bar>px (snd tt) - gy gh\<bar>" by auto
      from on_seg_step [OF facts(5) far] ghost_slide_far_y [OF hyp x far] facts x mv tt far
      show ?thesis by (simp add: ghost_ok_def slide_dist_def)
    next
      assume ay: "snd (gtile gh) = snd tt \<and> \<bar>fst (gtile gh) - fst tt\<bar> = 1"
      with facts(5) have y: "gy gh = px (snd tt)" by (simp add: on_seg_same)
      with False have far: "ghost_speed \<le> \<bar>px (fst tt) - gx gh\<bar>" by auto
      from on_seg_step [OF facts(4) far] ghost_slide_far_x [OF hyp y far] facts y mv tt far
      show ?thesis by (simp add: ghost_ok_def slide_dist_def)
    qed
  qed
qed

lemma on_seg_left: "on_seg a b a"
  by (simp add: on_seg_def)

lemma search_okD: "search_ok m search \<Longrightarrow> search s g = Some p \<Longrightarrow> walk (can_move_to m) s p"
  unfolding search_ok_def by blast

lemma ghost_start_ok:
  assumes ok: "ghost_ok m gh" and st: "\<not> is_moving gh" and w: "walk (can_move_to m) (gtile gh) (nt # rest)"
  shows "ghost_ok m (start_moving nt (gh\<lparr>gpath := rest\<rparr>))"
  using ok st w by (simp add: ghost_ok_def start_moving_def on_seg_left)

lemma ghost_plan_ok:
  assumes so: "search_ok m search" and ok: "ghost_ok m gh" and st: "\<not> is_moving gh"
    and pl: "ghost_plan search goal now gh = Some gh'"
  shows "ghost_ok m gh'"
proof -
  define planned where "planned =
    (if \<not> is_moving gh \<and> gpath gh = []
     then map_option (\<lambda>p. gh\<lparr>gpath := p, last_move_time := now\<rparr>) (search (gtile gh) goal)
     else Some gh)"
  obtain gh2 where p2: "planned = Some gh2" and gh': "gh' = (case gpath gh2 of [] \<Rightarrow> gh2
      | nt # rest \<Rightarrow> start_moving nt (gh2\<lparr>gpath := rest\<rparr>))"
    using pl by (auto simp: ghost_plan_def planned_def [symmetric])
  have ok2: "ghost_ok m gh2 \<and> \<not> is_moving gh2 \<and> gtile gh2 = gtile gh"
  proof (cases "gpath gh = []")
    case True
    with p2 st obtain p where "search (gtile gh) goal = Some p" "gh2 = gh\<lparr>gpath := p, last_move_time := now\<rparr>"
      by (auto simp: planned_def)
    with search_okD [OF so] ok st show ?thesis by (simp add: ghost_ok_def)
  next
    case False
    with p2 st ok show ?thesis by (simp add: planned_def)
  qed
  show ?thesis
  proof (cases "gpath gh2")
    case Nil
    with gh' ok2 show ?thesis by simp
  next
    case (Cons nt rest)
    have "ghost_ok m gh2" "\<not> is_moving gh2" using ok2 by simp_all
    then have "walk (can_move_to m) (gtile gh2) (nt # rest)"
      using Cons by (simp add: ghost_ok_def)
    from ghost_start_ok [OF conjunct1 [OF ok2] conjunct1 [OF conjunct2 [OF ok2]] this] gh' Cons
    show ?thesis by simp
  qed
qed

lemma ghost_move_ok:
  assumes hyp: "hyp_ok hyp" and so: "search_ok m search" and ok: "ghost_ok m gh"
    and mv: "ghost_move hyp search goal now gh = Some gh'"
  shows "ghost_ok m gh'"
proof (cases "target_tile gh \<noteq> None \<and> is_moving gh")
  case True
  then obtain tt where tt: "target_tile gh = Some tt" and m: "is_moving gh" by auto
  with mv have "gh' = ghost_slide hyp tt gh" by (simp add: ghost_move_def)
  with ghost_slide_ok [OF hyp ok m tt] show ?thesis by simp
next
  case False
  have st: "\<not> is_moving gh"
    using False ok by (cases "target_tile gh") (auto simp: ghost_ok_def)
  show ?thesis
  proof (cases "of_int (now - last_move_time gh) > ghost_speed")
    case True
    have "ghost_move hyp search goal now gh = ghost_plan search goal now gh"
      unfolding ghost_move_def by (simp only: if_not_P [OF False] if_P [OF True])
    with mv have "ghost_plan search goal now gh = Some gh'" by simp
    from ghost_plan_ok [OF so ok st this] show ?thesis .
  next
    case no: False
    with False mv ok show ?thesis by (auto simp: ghost_move_def)
  qed
qed

lemma on_seg_dist: "on_seg a b v \<Longrightarrow> \<bar>b - v\<bar> \<le> \<bar>b - a\<bar>"
  by (auto simp: on_seg_def)

lemma px_diff: "\<bar>px c - px c'\<bar> = 32 * of_int \<bar>c - c'\<bar>"
proof -
  have "px c - px c' = 32 * of_int (c - c')" by (simp add: px_def tilesize_def algebra_simps)
  then show ?thesis by (simp add: abs_mult del: of_int_diff)
qed

lemma slide_dist_le:
  assumes "ghost_ok m gh" "is_moving gh" "target_tile gh = Some tt"
  shows "slide_dist tt gh \<le> 32"
proof -
  note f = ghost_okD_moving [OF assms]
  have "slide_dist tt gh \<le> \<bar>px (fst tt) - px (fst (gtile gh))\<bar> + \<bar>px (snd tt) - px (snd (gtile gh))\<bar>"
    unfolding slide_dist_def using on_seg_dist [OF f(4)] on_seg_dist [OF f(5)] by linarith
  also have "\<dots> = 32 * of_int (\<bar>fst tt - fst (gtile gh)\<bar> + \<bar>snd tt - snd (gtile gh)\<bar>)"
    by (simp add: px_diff algebra_simps)
  also have "\<dots> = 32" using f(3) by (simp add: adjacent_def abs_minus_commute)
  finally show ?thesis .
qed

lemma ghost_arrives_within:
  "hyp_ok hyp \<Longrightarrow> ghost_ok m gh \<Longrightarrow> is_moving gh \<Longrightarrow> target_tile gh = Some tt \<Longrightarrow>
   slide_dist tt gh < ghost_speed * of_nat (Suc n) \<Longrightarrow>
   \<exists>k \<le> Suc n. \<not> is_moving ((ghost_slide hyp tt ^^ k) gh) \<and> gtile ((ghost_slide hyp tt ^^ k) gh) = tt"
proof (induction n arbitrary: gh)
  case 0
  from ghost_slide_ok [OF 0(1-4)] 0(5) have "\<not> is_moving (ghost_slide hyp tt gh) \<and> gtile (ghost_slide hyp tt gh) = tt"
    by (auto split: if_splits)
  then show ?case by (intro exI [of _ 1]) simp
next
  case (Suc n)
  note step = ghost_slide_ok [OF Suc.prems(1-4)]
  show ?case
  proof (cases "is_moving (ghost_slide hyp tt gh)")
    case False
    with step show ?thesis by (intro exI [of _ 1]) simp
  next
    case True
    with step have ok1: "ghost_ok m (ghost_slide hyp tt gh)"
      and tt1: "target_tile (ghost_slide hyp tt gh) = Some tt"
      and d1: "slide_dist tt (ghost_slide hyp tt gh) = slide_dist tt gh - ghost_speed" by auto
    have "slide_dist tt (ghost_slide hyp tt gh) < ghost_speed * of_nat (Suc n)"
      using d1 Suc.prems(5) by (simp add: algebra_simps)
    from Suc.IH [OF Suc.prems(1) ok1 True tt1 this] obtain k where
      "k \<le> Suc n" "\<not> is_moving ((ghost_slide hyp tt ^^ k) (ghost_slide hyp tt gh))"
      "gtile ((ghost_slide hyp tt ^^ k) (ghost_slide hyp tt gh)) = tt" by blast
    then show ?thesis by (intro exI [of _ "Suc k"]) (simp add: funpow_Suc_right del: funpow.simps)
  qed
qed

subsection \<open>Searches as ghost planners\<close>

lemma bfs_same: "bfs m s s = Some []"
  by (simp add: bfs_def bfs_loop.simps)

lemma walk_or_Nil: "(p \<noteq> [] \<longrightarrow> walk ok s p \<and> last p = g) \<Longrightarrow> walk ok s p"
  by (cases "p = []") auto

lemma search_ok_bfs: "search_ok m (bfs m)"
  unfolding search_ok_def using bfs_ok walk_or_Nil by (metis option.inject)

lemma dfs_inky_ok:
  "\<exists>p. dfs_inky m s g = Some p \<and> (p \<noteq> [] \<longrightarrow> walk (can_move_to m) s p \<and> last p = g)"
  unfolding dfs_inky_def by (rule dfs_inky_loop_ok [OF dfs_inv_init])

lemma dfs_clyde_ok:
  "\<exists>p. dfs_clyde m s g = Some p \<and> (p \<noteq> [] \<longrightarrow> walk (can_move_to m) s p \<and> last p = g)"
  unfolding dfs_clyde_def by (rule dfs_clyde_loop_ok [OF dfs_inv_init])

lemma search_ok_dfs_inky: "search_ok m (dfs_inky m)"
  unfolding search_ok_def using dfs_inky_ok walk_or_Nil by (metis option.inject)

lemma search_ok_dfs_clyde: "search_ok m (dfs_clyde m)"
  unfolding search_ok_def using dfs_clyde_ok walk_or_Nil by (metis option.inject)

lemma ghost_move_total:
  assumes "\<forall>s g. search s g \<noteq> None"
  shows "\<exists>gh'. ghost_move hyp search goal now gh = Some gh'"
proof -
  from assms have "search (gtile gh) goal \<noteq> None" by blast
  then show ?thesis by (auto simp: ghost_move_def ghost_plan_def Let_def)
qed

lemma ghost_move_total_ok:
  assumes hyp: "hyp_ok hyp" and so: "search_ok m search" and tot: "\<forall>s g. search s g \<noteq> None"
    and ok: "ghost_ok m gh"
  shows "\<exists>gh'. ghost_move hyp search goal now gh = Some gh' \<and> ghost_ok m gh'"
  using ghost_move_total [OF tot] ghost_move_ok [OF hyp so ok] by blast

lemma bfs_total: "\<forall>s g. bfs m s g \<noteq> None"
proof (intro allI)
  fix s g show "bfs m s g \<noteq> None" using bfs_ok [of m s g] by auto
qed

lemma dfs_inky_total: "\<forall>s g. dfs_inky m s g \<noteq> None"
proof (intro allI)
  fix s g show "dfs_inky m s g \<noteq> None" using dfs_inky_ok [of m s g] by auto
qed

lemma dfs_clyde_total: "\<forall>s g. dfs_clyde m s g \<noteq> None"
proof (intro allI)
  fix s g show "dfs_clyde m s g \<noteq> None" using dfs_clyde_ok [of m s g] by auto
qed

lemma hyp_ok_taxi: "hyp_ok (\<lambda>a b. \<bar>a\<bar> + \<bar>b\<bar>)"
  by (simp add: hyp_ok_def)

lemma ghost_ok_init: "ghost_ok m (ghost_init t0 q) \<longleftrightarrow> can_move_to m q"
  by (simp add: ghost_ok_def ghost_init_def)

lemma blinky_spawn_ok: "can_move_to original_tilemap (9, 9)"
  by code_simp

lemma blinky_to_player: "bfs original_tilemap (9, 9) (2, 9) =
   Some [(10, 9), (10, 8), (10, 7), (9, 7), (8, 7), (7, 7), (6, 7), (6, 8), (6, 9), (5, 9), (4, 9), (3, 9), (2, 9)]"
  by code_simp

lemma open3_dfs: "dfs_inky (replicate 3 (replicate 3 CHR '' '')) (1, 1) (1, 2) =
   Some [(0, 1), (0, 0), (1, 0), (2, 0), (2, 1), (2, 2), (1, 2)]"
  by code_simp

lemma clamp_bounds: "0 < n \<Longrightarrow> 0 \<le> clamp (n - 1) v \<and> clamp (n - 1) v < n"
  by (simp add: clamp_def)

lemma wall_goal_no_path: "bfs [''  W''] (0, 0) (2, 0) = Some []"
  by code_simp

subsection \<open>Properties of the ghosts\<close>

text \<open>C19: every call of \<open>move()\<close> of each of the four ghosts returns, and it keeps the ghost invariant: the ghost's tile is walkable (a ghost never enters a wall or leaves the map), a moving ghost is on the axis segment between its tile and an adjacent walkable target, and its remaining path is a walk of walkable tiles.\<close>

theorem ghost_moves_ok:
  assumes "hyp_ok hyp" "ghost_ok m gh"
  shows "(\<exists>gh'. blinky_move hyp m pt now gh = Some gh' \<and> ghost_ok m gh') \<and>
         (\<exists>gh'. pinky_move hyp m pt dir now gh = Some gh' \<and> ghost_ok m gh') \<and>
         (\<exists>gh'. inky_move hyp m pt dir now gh = Some gh' \<and> ghost_ok m gh') \<and>
         (\<exists>gh'. clyde_move hyp m pt now gh = Some gh' \<and> ghost_ok m gh')"
  unfolding blinky_move_def pinky_move_def inky_move_def clyde_move_def
  using ghost_move_total_ok [OF assms(1) search_ok_bfs bfs_total assms(2)]
    ghost_move_total_ok [OF assms(1) search_ok_dfs_inky dfs_inky_total assms(2)]
    ghost_move_total_ok [OF assms(1) search_ok_dfs_clyde dfs_clyde_total assms(2)]
  by blast

theorem ghost_moves_ok_witness:
  "\<exists>gh'. blinky_move (\<lambda>a b. \<bar>a\<bar> + \<bar>b\<bar>) original_tilemap (2, 9) 10 (ghost_init 0 (9, 9)) = Some gh' \<and>
         ghost_ok original_tilemap gh'"
  using ghost_moves_ok [OF hyp_ok_taxi, of original_tilemap "ghost_init 0 (9, 9)" "(2, 9)" 10 "(0, 0)"]
    blinky_spawn_ok by (simp add: ghost_ok_init)

text \<open>C20: Clyde's \<open>dfs\<close>, which pushes visited neighbours too, returns exactly the path Inky's \<open>dfs\<close> returns, on every map, start and goal: the extra stack entries are for visited tiles other than the goal and are skipped when popped.\<close>

theorem dfs_clyde_eq_inky: "dfs_clyde m s g = dfs_inky m s g"
  unfolding dfs_clyde_def dfs_inky_def
  by (rule dfs_clyde_inky_loop [OF dfs_inv_init]) (auto intro: srel.intros)

text \<open>C21: \<open>bfs\<close> (Blinky, Pinky) always returns; a non-empty result is a walk of adjacent walkable tiles from the start ending at the goal, and the start as goal gives the empty path.\<close>

theorem bfs_sound:
  "\<exists>p. bfs m s g = Some p \<and> (p \<noteq> [] \<longrightarrow> walk (can_move_to m) s p \<and> last p = g) \<and> (g = s \<longrightarrow> p = [])"
  using bfs_ok [of m s g] bfs_same [of m s] by auto

theorem bfs_sound_witness:
  "walk (can_move_to original_tilemap) (9, 9)
     [(10, 9), (10, 8), (10, 7), (9, 7), (8, 7), (7, 7), (6, 7), (6, 8), (6, 9), (5, 9), (4, 9), (3, 9), (2, 9)]"
  using bfs_sound [of original_tilemap "(9, 9)" "(2, 9)"] blinky_to_player by auto

text \<open>C22: Blinky's and Pinky's \<open>bfs\<close> returns a shortest path: when the goal
  differs from the start and some walk of enterable tiles reaches it, \<open>bfs\<close>
  returns a non-empty path no longer than that walk.\<close>

theorem bfs_shortest:
  assumes w: "walk (can_move_to m) s q" and l: "last (s # q) = g" and ne: "g \<noteq> s"
  shows "\<exists>p. bfs m s g = Some p \<and> p \<noteq> [] \<and> length p \<le> length q"
proof -
  from bfs_loop_shortest [OF conjunct1 [OF bfs_start_ok [of m s g]] conjunct2 [OF bfs_start_ok [of m s g]] _ w l]
  obtain p where "bfs m s g = Some p" "path_to m s g p" "length p \<le> length q"
    by (auto simp: bfs_def)
  with ne show ?thesis by (auto simp: path_to_def)
qed

theorem bfs_shortest_witness:
  "\<exists>p. bfs (replicate 3 (replicate 3 CHR '' '')) (0, 0) (2, 2) = Some p \<and> p \<noteq> [] \<and> length p \<le> 4"
  using bfs_shortest [of "replicate 3 (replicate 3 CHR '' '')" "(0, 0)" "[(1, 0), (2, 0), (2, 1), (2, 2)]" "(2, 2)"]
  by (simp add: can_move_to_def tile_at_def width_def height_def adjacent_def numeral_eq_Suc)

text \<open>C23: both \<open>dfs\<close> variants (Inky, Clyde) always return, and a non-empty result is a walk of adjacent walkable tiles from the start ending at the goal.\<close>

theorem dfs_sound:
  "(\<exists>p. dfs_inky m s g = Some p \<and> (p \<noteq> [] \<longrightarrow> walk (can_move_to m) s p \<and> last p = g)) \<and>
   (\<exists>p. dfs_clyde m s g = Some p \<and> (p \<noteq> [] \<longrightarrow> walk (can_move_to m) s p \<and> last p = g))"
  using dfs_inky_ok dfs_clyde_ok by blast

theorem dfs_sound_witness:
  "walk (can_move_to (replicate 3 (replicate 3 CHR '' ''))) (1, 1) [(0, 1), (0, 0), (1, 0), (2, 0), (2, 1), (2, 2), (1, 2)]"
  using dfs_sound [of "replicate 3 (replicate 3 CHR '' '')" "(1, 1)" "(1, 2)"] open3_dfs by auto

text \<open>C24: a moving ghost (with a distance exact on the axes) advances by \<open>move()\<close> whatever the tick, and reaches its target tile and stops within 10 calls (32 pixels at 3.5 per call).\<close>

theorem ghost_arrives:
  assumes "hyp_ok hyp" "ghost_ok m gh" "is_moving gh" "target_tile gh = Some tt"
  shows "(\<forall>search goal now. ghost_move hyp search goal now gh = Some (ghost_slide hyp tt gh)) \<and>
         (\<exists>k \<le> 10. \<not> is_moving ((ghost_slide hyp tt ^^ k) gh) \<and> gtile ((ghost_slide hyp tt ^^ k) gh) = tt)"
proof
  show "\<forall>search goal now. ghost_move hyp search goal now gh = Some (ghost_slide hyp tt gh)"
    using assms(3,4) by (simp add: ghost_move_def)
  have "slide_dist tt gh < ghost_speed * of_nat (Suc 9)"
    using slide_dist_le [OF assms(2-4)] by (simp add: ghost_speed_def)
  from ghost_arrives_within [OF assms this] show "\<exists>k \<le> 10. \<not> is_moving ((ghost_slide hyp tt ^^ k) gh) \<and> gtile ((ghost_slide hyp tt ^^ k) gh) = tt"
    by simp
qed

theorem ghost_arrives_witness:
  "\<exists>k \<le> 10. \<not> is_moving ((ghost_slide (\<lambda>a b. \<bar>a\<bar> + \<bar>b\<bar>) (10, 9) ^^ k) (start_moving (10, 9) (ghost_init 0 (9, 9)))) \<and>
      gtile ((ghost_slide (\<lambda>a b. \<bar>a\<bar> + \<bar>b\<bar>) (10, 9) ^^ k) (start_moving (10, 9) (ghost_init 0 (9, 9)))) = (10, 9)"
proof -
  have ok: "ghost_ok original_tilemap (start_moving (10, 9) (ghost_init 0 (9, 9)))"
    by code_simp
  from ghost_arrives [OF hyp_ok_taxi ok] show ?thesis by (simp add: start_moving_def ghost_init_def)
qed

text \<open>C25: when the search finds no path, the ghost stays where it is: same tile and pixel position, not moving, with an empty path.\<close>

theorem ghost_no_path_stays:
  assumes "\<not> is_moving gh" "gpath gh = []" "search (gtile gh) goal = Some []"
    and "ghost_move hyp search goal now gh = Some gh'"
  shows "gtile gh' = gtile gh \<and> \<not> is_moving gh' \<and> gx gh' = gx gh \<and> gy gh' = gy gh \<and> gpath gh' = []"
  using assms by (auto simp: ghost_move_def ghost_plan_def Let_def split: if_splits)

theorem ghost_no_path_stays_witness:
  "\<exists>gh'. ghost_move (\<lambda>a b. \<bar>a\<bar> + \<bar>b\<bar>) (bfs [''  W'']) (2, 0) 10 (ghost_init 0 (0, 0)) = Some gh' \<and>
     gtile gh' = (0, 0) \<and> \<not> is_moving gh'"
proof -
  obtain gh' where r: "ghost_move (\<lambda>a b. \<bar>a\<bar> + \<bar>b\<bar>) (bfs [''  W'']) (2, 0) 10 (ghost_init 0 (0, 0)) = Some gh'"
    using ghost_move_total [OF bfs_total] by blast
  from ghost_no_path_stays [OF _ _ _ r] wall_goal_no_path r show ?thesis
    by (simp add: ghost_init_def)
qed

text \<open>C26: Pinky's and Inky's goals are clamped into the map.\<close>

theorem ghost_goals_in_bounds:
  assumes "m \<noteq> []" "hd m \<noteq> []"
  shows "in_bounds m (pinky_goal m pt dir) \<and> in_bounds m (inky_goal m pt dir)"
proof -
  have "0 < width m" "0 < height m" using assms by (simp_all add: width_def height_def)
  with clamp_bounds show ?thesis
    by (simp add: pinky_goal_def inky_goal_def in_bounds_def Let_def)
qed

theorem ghost_goals_in_bounds_witness:
  "in_bounds original_tilemap (pinky_goal original_tilemap (19, 9) (1, 0)) \<and>
   pinky_goal original_tilemap (19, 9) (1, 0) = (20, 9)"
proof -
  have "original_tilemap \<noteq> []" "hd original_tilemap \<noteq> []" by (simp_all add: original_tilemap_def)
  from ghost_goals_in_bounds [OF this, of "(19, 9)" "(1, 0)"] show ?thesis
    by (simp add: pinky_goal_def clamp_def width_def height_def original_tilemap_def)
qed

text \<open>C27: Inky's goal treats a zero component of the player's direction as positive: a player standing still on an axis gets the offset +2 on it.\<close>

theorem inky_goal_zero_direction:
  "inky_goal m pt (0, dy) = inky_goal m pt (1, dy) \<and> inky_goal m pt (dx, 0) = inky_goal m pt (dx, 1)"
  by (simp add: inky_goal_def)

text \<open>On an open 3 by 3 maze, Inky's \<open>dfs\<close> from the centre to the tile below returns a 7-tile path where \<open>bfs\<close> returns the 1-tile path.\<close>

theorem dfs_not_shortest:
  "\<exists>p q. dfs_inky (replicate 3 (replicate 3 CHR '' '')) (1, 1) (1, 2) = Some p \<and>
         bfs (replicate 3 (replicate 3 CHR '' '')) (1, 1) (1, 2) = Some q \<and> length q = 1 \<and> length p = 7"
proof -
  have "bfs (replicate 3 (replicate 3 CHR '' '')) (1, 1) (1, 2) = Some [(1, 2)]" by code_simp
  with open3_dfs show ?thesis by simp
qed

end
