(* ===== verification/Player.thy ===== *)
theory Player
  imports Genetic Ghosts
begin

text \<open>
  The player of \<open>src/object.py\<close> (\<open>Player\<close>): its tile-level state, the move
  step \<open>move(use_ga=True, game)\<close> that \<open>update\<close> calls while the player is not
  moving (the genetic algorithm's first move, checked against ghosts and walls,
  with the first step of the A* path as fallback), \<open>_execute_move\<close>,
  \<open>get_move_direction\<close>, \<open>teleport\<close> and \<open>eat_pellet\<close>. The tile map is the
  shared list \<open>TilemapManager.tilemap\<close>: it is an argument of the step and is
  returned updated; the player's genetic algorithm and pathfinder hold references
  to the same list, so they read the current map. The walls the move checks are
  the \<open>Block\<close> sprites \<open>init_game\<close> creates for the \<open>W\<close> tiles; two
  32-pixel tile rectangles collide exactly when they are the same tile. Python's
  negative indices count from the end of a list and too large ones raise
  \<open>IndexError\<close> (\<open>py_nth\<close>). The pixel animation of \<open>update\<close> (the branch
  for a moving player) is not modelled: it assigns float steps to the integer
  \<open>pygame.Rect\<close> coordinates and only clears \<open>moving\<close> when the sprite arrives.
\<close>

subsection \<open>Python list indexing\<close>

definition py_nth :: "'a list \<Rightarrow> int \<Rightarrow> py_error + 'a" where
  "py_nth xs i =
     (if 0 \<le> i \<and> i < int (length xs) then Inr (xs ! nat i)
      else if - int (length xs) \<le> i \<and> i < 0 then Inr (xs ! nat (int (length xs) + i))
      else Inl IndexError)"

text \<open>\<open>tilemap[y][x]\<close>.\<close>

definition py_tile :: "tilemap \<Rightarrow> pos \<Rightarrow> py_error + char" where
  "py_tile m q = (case py_nth m (snd q) of Inl e \<Rightarrow> Inl e | Inr row \<Rightarrow> py_nth row (fst q))"

text \<open>The position a negative index denotes.\<close>

definition py_norm :: "nat \<Rightarrow> int \<Rightarrow> int" where
  "py_norm n i = (if i < 0 then int n + i else i)"

text \<open>\<open>tilemap[y][x] = c\<close> (after a successful read of the same cell).\<close>

definition py_set_tile :: "tilemap \<Rightarrow> pos \<Rightarrow> char \<Rightarrow> tilemap" where
  "py_set_tile m q c =
     (let y = py_norm (length m) (snd q); x = py_norm (length (m ! nat y)) (fst q) in set_tile m (x, y) c)"

subsection \<open>State\<close>

text \<open>The attributes of \<open>Player\<close> that the move step reads or writes.\<close>

record player =
  p_tile :: pos
  p_direction :: pos
  p_moving :: bool
  p_target_x :: int
  p_target_y :: int
  collected_pellets :: nat
  p_score :: int
  visited_tiles :: "pos set"
  p_ga :: ga

text \<open>\<open>GeneticAlgorithm.__init__\<close> with the population drawn by \<open>draw\<close>.\<close>

definition ga_init :: "nat \<Rightarrow> nat \<Rightarrow> rat \<Rightarrow> tilemap \<Rightarrow> (nat \<Rightarrow> nat \<Rightarrow> move) \<Rightarrow> ga" where
  "ga_init ps cl rate m draw =
     \<lparr>population_size = ps, chromosome_length = cl, mutation_rate = rate, ga_tilemap = m,
      population = initialize_population ps cl draw, adversarial = None, fitness_history = []\<rparr>"

text \<open>\<open>Player.__init__(game, x, y)\<close> with the default GA parameters (10, 10, 0.1).\<close>

definition player_init :: "tilemap \<Rightarrow> pos \<Rightarrow> (nat \<Rightarrow> nat \<Rightarrow> move) \<Rightarrow> player" where
  "player_init m q draw =
     \<lparr>p_tile = q, p_direction = (0, 0), p_moving = False,
      p_target_x = fst q * tilesize, p_target_y = snd q * tilesize,
      collected_pellets = 0, p_score = 0, visited_tiles = {},
      p_ga = ga_init 10 10 (1 / 10) m draw\<rparr>"

text \<open>The tiles of the \<open>Block\<close> sprites of \<open>init_game\<close>: every \<open>W\<close>.\<close>

definition wall_tiles :: "tilemap \<Rightarrow> pos list" where
  "wall_tiles m = map fst (filter (\<lambda>cell. snd cell = CHR ''W'') (map_cells m))"

subsection \<open>Operations\<close>

definition get_move_direction :: "move \<Rightarrow> pos" where
  "get_move_direction mv =
     (case mv of UP \<Rightarrow> (0, -1) | DOWN \<Rightarrow> (0, 1) | LEFT \<Rightarrow> (-1, 0) | RIGHT \<Rightarrow> (1, 0))"

text \<open>\<open>teleport\<close>: the two teleporters of the maze swap; \<open>moving\<close> is cleared.\<close>

definition teleport :: "player \<Rightarrow> player" where
  "teleport p =
     (let p1 = (if p_tile p = (19, 9) then p\<lparr>p_tile := (1, 9)\<rparr>
                else if p_tile p = (1, 9) then p\<lparr>p_tile := (19, 9)\<rparr>
                else p)
      in p1\<lparr>p_moving := False\<rparr>)"

text \<open>\<open>eat_pellet\<close>: a pellet under the player becomes open floor, and the
  player's count and score grow.\<close>

definition eat_pellet :: "tilemap \<Rightarrow> player \<Rightarrow> py_error + player \<times> tilemap" where
  "eat_pellet m p =
     (case py_tile m (p_tile p) of
        Inl e \<Rightarrow> Inl e
      | Inr c \<Rightarrow>
          if c = CHR ''.'' then
            Inr (p\<lparr>collected_pellets := collected_pellets p + 1, p_score := p_score p + 10\<rparr>,
                 py_set_tile m (p_tile p) CHR '' '')
          else Inr (p, m))"

text \<open>\<open>_execute_move(dx, dy)\<close>.\<close>

definition execute_move :: "pos list \<Rightarrow> tilemap \<Rightarrow> player \<Rightarrow> int \<Rightarrow> int \<Rightarrow> py_error + player \<times> tilemap" where
  "execute_move walls m p dx dy =
     (if p_moving p then Inr (p, m)
      else
        (let nt = (fst (p_tile p) + dx, snd (p_tile p) + dy) in
         if nt \<in> set walls then Inr (p, m)
         else
           (let p1 = p\<lparr>p_moving := True, p_direction := (dx, dy),
                       p_target_x := fst nt * tilesize, p_target_y := snd nt * tilesize,
                       p_tile := nt, visited_tiles := insert nt (visited_tiles p)\<rparr>
            in case py_tile m nt of
                 Inl e \<Rightarrow> Inl e
               | Inr c \<Rightarrow>
                   (let p2 = (if c = CHR ''T'' then teleport p1 else p1) in
                    case py_tile m (p_tile p2) of
                      Inl e \<Rightarrow> Inl e
                    | Inr c2 \<Rightarrow> if c2 = CHR ''.'' then eat_pellet m p2 else Inr (p2, m)))))"

text \<open>\<open>move(use_ga=True, game=game)\<close>: \<open>ghosts\<close> are the ghost tiles, \<open>dr\<close> the
  draws of the call of \<open>evolve\<close>. \<open>None\<close> is a search that does not return.\<close>

definition player_move :: "pos list \<Rightarrow> tilemap \<Rightarrow> pos list \<Rightarrow> ga_draws \<Rightarrow> player \<Rightarrow> (py_error + player \<times> tilemap) option" where
  "player_move walls m ghosts dr p =
     (let g = (p_ga p)\<lparr>ga_tilemap := m\<rparr>; w = \<lparr>player_tile = p_tile p, enemy_tiles = ghosts\<rparr> in
      case get_target (ga_tilemap g) (p_tile p) of
        None \<Rightarrow> Some (Inr (p, m))
      | Some nearest \<Rightarrow>
          (case find_path m (p_tile p) nearest [] of
             None \<Rightarrow> None
           | Some a_star_path \<Rightarrow>
               if a_star_path = [] then Some (Inr (p, m))
               else
                 (case evolve g w dr of
                    None \<Rightarrow> None
                  | Some (Inl e) \<Rightarrow> Some (Inl e)
                  | Some (Inr (g', best)) \<Rightarrow>
                      (let p' = p\<lparr>p_ga := g'\<rparr>;
                           fallback = (let nxt = hd a_star_path in
                                       execute_move walls m p' (fst nxt - fst (p_tile p)) (snd nxt - snd (p_tile p)))
                       in if best \<noteq> [] then
                            (let d = get_move_direction (hd best);
                                 new_position = (fst (p_tile p) + fst d, snd (p_tile p) + snd d)
                             in if \<not> is_near_enemy new_position ghosts \<and> is_walkable m new_position
                                then Some (execute_move walls m p' (fst d) (snd d))
                                else Some fallback)
                          else Some fallback))))"

subsection \<open>Invariant and example data\<close>

text \<open>\<open>teleport_ok\<close>: both teleporter tiles are walkable. \<open>ga_ok\<close>: the
  population has \<open>population_size \<ge> 4\<close> chromosomes of \<open>chromosome_length \<ge> 2\<close>
  genes. \<open>player_inv\<close>: the map is rectangular with walkable teleporters, the
  blocks are its walls, the player is on a walkable tile and its GA is well
  shaped. \<open>demo_player\<close> is the player at its spawn tile of the maze.\<close>

definition teleport_ok :: "tilemap \<Rightarrow> bool" where
  "teleport_ok m \<longleftrightarrow> is_walkable m (1, 9) \<and> is_walkable m (19, 9)"

definition ga_ok :: "ga \<Rightarrow> bool" where
  "ga_ok g \<longleftrightarrow> length (population g) = population_size g \<and>
     (\<forall>c \<in> set (population g). length c = chromosome_length g) \<and>
     4 \<le> population_size g \<and> 2 \<le> chromosome_length g"

definition player_inv :: "pos list \<Rightarrow> tilemap \<Rightarrow> player \<Rightarrow> bool" where
  "player_inv walls m p \<longleftrightarrow>
     wf_tilemap m \<and> teleport_ok m \<and> set walls = {q. in_bounds m q \<and> tile_at m q = CHR ''W''} \<and>
     is_walkable m (p_tile p) \<and> ga_ok (p_ga p)"

definition demo_player :: player where
  "demo_player = player_init original_tilemap (2, 9) (\<lambda>i j. [UP, DOWN, LEFT, RIGHT] ! ((i + j) mod 4))"

definition demo_player_draws :: ga_draws where
  "demo_player_draws = \<lparr>choice_idx = 0, sel_u = (\<lambda>j. of_nat (j mod 10) / 10), sel_perm = [0..<10],
     pair_draw = (\<lambda>i. (0, 1)), split_draw = (\<lambda>i. 5), mut_draw = (\<lambda>j i. (1/2, UP))\<rparr>"

subsection \<open>Lemmas\<close>

lemma py_tile_in_bounds:
  assumes wf: "wf_tilemap m" and ib: "in_bounds m q"
  shows "py_tile m q = Inr (tile_at m q)"
proof -
  from ib have y: "nat (snd q) < length m" and y0: "0 \<le> snd q" and x0: "0 \<le> fst q"
    by (auto simp: in_bounds_def height_def)
  have "length (m ! nat (snd q)) = length (hd m)" using wf_row_length [OF wf y] .
  with ib have "fst q < int (length (m ! nat (snd q)))" by (simp add: in_bounds_def width_def)
  with y y0 x0 show ?thesis by (simp add: py_tile_def py_nth_def tile_at_def)
qed

lemma py_set_tile_in_bounds: "in_bounds m q \<Longrightarrow> py_set_tile m q c = set_tile m q c"
  by (simp add: py_set_tile_def py_norm_def in_bounds_def)

text \<open>Python's index \<open>-1\<close> on the left edge: \<open>tilemap[y][-1]\<close> is the last
  character of row \<open>y\<close>, and a write there changes that cell.\<close>

lemma py_tile_left_edge:
  "0 \<le> y \<Longrightarrow> y < int (length m) \<Longrightarrow> m ! nat y \<noteq> [] \<Longrightarrow> py_tile m (-1, y) = Inr (last (m ! nat y))"
  by (simp add: py_tile_def py_nth_def last_conv_nth nat_diff_distrib' Suc_leI)

lemma py_set_tile_left_edge:
  "0 \<le> y \<Longrightarrow> py_set_tile m (-1, y) c = set_tile m (int (length (m ! nat y)) - 1, y) c"
  by (simp add: py_set_tile_def py_norm_def)

lemma wall_tiles_mem: "q \<in> set (wall_tiles m) \<longleftrightarrow> (q, CHR ''W'') \<in> set (map_cells m)"
proof
  assume "q \<in> set (wall_tiles m)"
  then obtain e where e: "e \<in> set (map_cells m)" and w: "snd e = CHR ''W''" and q: "q = fst e"
    by (auto simp: wall_tiles_def)
  from w q have "(q, CHR ''W'') = e" by (simp add: prod_eq_iff)
  with e show "(q, CHR ''W'') \<in> set (map_cells m)" by simp
next
  assume "(q, CHR ''W'') \<in> set (map_cells m)"
  then have "(q, CHR ''W'') \<in> set (filter (\<lambda>cell. snd cell = CHR ''W'') (map_cells m))" by simp
  then show "q \<in> set (wall_tiles m)" unfolding wall_tiles_def by (metis fst_conv image_eqI set_map)
qed

lemma set_wall_tiles: "wf_tilemap m \<Longrightarrow> set (wall_tiles m) = {q. in_bounds m q \<and> tile_at m q = CHR ''W''}"
  by (auto simp: wall_tiles_mem map_cells_tile)

lemma walkable_not_wall:
  "set walls = {q. in_bounds m q \<and> tile_at m q = CHR ''W''} \<Longrightarrow> is_walkable m q \<Longrightarrow> q \<notin> set walls"
  by (simp add: is_walkable_def)

lemma wf_set_tile_walls:
  assumes wf: "wf_tilemap m" and ib: "in_bounds m q" and t: "tile_at m q = CHR ''.''"
  shows "{r. in_bounds (set_tile m q CHR '' '') r \<and> tile_at (set_tile m q CHR '' '') r = CHR ''W''} =
         {r. in_bounds m r \<and> tile_at m r = CHR ''W''}"
proof (rule set_eqI)
  fix r
  show "r \<in> {r. in_bounds (set_tile m q CHR '' '') r \<and> tile_at (set_tile m q CHR '' '') r = CHR ''W''} \<longleftrightarrow>
        r \<in> {r. in_bounds m r \<and> tile_at m r = CHR ''W''}"
  proof (cases "in_bounds m r")
    case True
    with tile_at_set_tile [OF wf ib True, of "CHR '' ''"] t show ?thesis by auto
  next
    case False
    then show ?thesis by simp
  qed
qed

lemma count_list_update:
  "i < length xs \<Longrightarrow>
   count_list (xs[i := c]) a + (if xs ! i = a then 1 else 0) = count_list xs a + (if c = a then 1 else 0)"
proof (induction xs arbitrary: i)
  case Nil
  then show ?case by simp
next
  case (Cons y ys)
  show ?case
  proof (cases i)
    case 0
    then show ?thesis by simp
  next
    case (Suc j)
    with Cons.prems have "j < length ys" by simp
    from Cons.IH [OF this] Suc show ?thesis by (simp split: if_splits)
  qed
qed

lemma sum_list_map_update:
  "i < length xs \<Longrightarrow> sum_list (map f (xs[i := y])) + f (xs ! i) = sum_list (map f xs) + (f y :: nat)"
  by (induction xs arbitrary: i) (auto split: nat.splits)

lemma count_total_pellets_eat:
  assumes wf: "wf_tilemap m" and ib: "in_bounds m q" and t: "tile_at m q = CHR ''.''"
  shows "count_total_pellets (set_tile m q CHR '' '') + 1 = count_total_pellets m"
proof -
  define y where "y = nat (snd q)"
  define x where "x = nat (fst q)"
  have y: "y < length m" using ib by (auto simp: y_def in_bounds_def height_def)
  have "length (m ! y) = length (hd m)" using wf_row_length [OF wf y] .
  then have x: "x < length (m ! y)" using ib by (auto simp: x_def in_bounds_def width_def)
  have tx: "m ! y ! x = CHR ''.''" using t by (simp add: tile_at_def x_def y_def)
  have row: "count_list ((m ! y)[x := CHR '' '']) CHR ''.'' + 1 = count_list (m ! y) CHR ''.''"
    using count_list_update [OF x, of "CHR '' ''" "CHR ''.''"] tx by simp
  have "count_total_pellets (set_tile m q CHR '' '') + count_list (m ! y) CHR ''.'' =
        count_total_pellets m + count_list ((m ! y)[x := CHR '' '']) CHR ''.''"
    using sum_list_map_update [OF y, of "\<lambda>r. count_list r CHR ''.''" "(m ! y)[x := CHR '' '']"]
    by (simp add: count_total_pellets_def set_tile_def x_def y_def)
  with row show ?thesis by linarith
qed

lemma teleport_walkable:
  "teleport_ok m \<Longrightarrow> is_walkable m (p_tile p) \<Longrightarrow>
   is_walkable m (p_tile (teleport p)) \<and> p_ga (teleport p) = p_ga p"
  by (simp add: teleport_def teleport_ok_def Let_def)

lemma eat_pellet_ok:
  assumes inv: "player_inv walls m p"
  shows "\<exists>p' m'. eat_pellet m p = Inr (p', m') \<and> player_inv walls m' p' \<and> p_ga p' = p_ga p"
proof -
  from inv have wf: "wf_tilemap m" and ib: "in_bounds m (p_tile p)" and wk: "is_walkable m (p_tile p)"
    by (simp_all add: player_inv_def is_walkable_def)
  note rd = py_tile_in_bounds [OF wf ib]
  show ?thesis
  proof (cases "tile_at m (p_tile p) = CHR ''.''")
    case False
    with rd inv show ?thesis by (simp add: eat_pellet_def)
  next
    case True
    let ?m' = "set_tile m (p_tile p) CHR '' ''"
    have nw: "tile_at m (p_tile p) \<noteq> CHR ''W''" using True by simp
    have walk': "\<And>q. is_walkable ?m' q = is_walkable m q"
      using is_walkable_set_tile [OF wf ib nw] by simp
    have "player_inv walls ?m' (p\<lparr>collected_pellets := collected_pellets p + 1, p_score := p_score p + 10\<rparr>)"
      using inv wf_set_tile [OF wf] walk' wf_set_tile_walls [OF wf ib True]
      by (simp add: player_inv_def teleport_ok_def ga_ok_def)
    with True rd ib show ?thesis by (simp add: eat_pellet_def py_set_tile_in_bounds)
  qed
qed

lemma execute_move_ok:
  assumes inv: "player_inv walls m p" and w: "is_walkable m (fst (p_tile p) + dx, snd (p_tile p) + dy)"
  shows "\<exists>p' m'. execute_move walls m p dx dy = Inr (p', m') \<and> player_inv walls m' p' \<and> p_ga p' = p_ga p"
proof (cases "p_moving p")
  case True
  with inv show ?thesis by (simp add: execute_move_def)
next
  case False
  define nt where "nt = (fst (p_tile p) + dx, snd (p_tile p) + dy)"
  define p1 where "p1 = p\<lparr>p_moving := True, p_direction := (dx, dy),
               p_target_x := fst nt * tilesize, p_target_y := snd nt * tilesize,
               p_tile := nt, visited_tiles := insert nt (visited_tiles p)\<rparr>"
  define p2 where "p2 = (if tile_at m nt = CHR ''T'' then teleport p1 else p1)"
  from inv have wf: "wf_tilemap m" and tp: "teleport_ok m"
    and walls: "set walls = {q. in_bounds m q \<and> tile_at m q = CHR ''W''}"
    by (simp_all add: player_inv_def)
  have wn: "is_walkable m nt" using w by (simp add: nt_def)
  have notw: "nt \<notin> set walls" using walkable_not_wall [OF walls wn] .
  have rd1: "py_tile m nt = Inr (tile_at m nt)" using py_tile_in_bounds [OF wf walkable_in_bounds [OF wn]] .
  have inv1: "player_inv walls m p1" using inv wn by (simp add: player_inv_def p1_def)
  have w2: "is_walkable m (p_tile p2)" and ga2: "p_ga p2 = p_ga p"
    using teleport_walkable [OF tp, of p1] wn by (auto simp: p2_def p1_def)
  have inv2: "player_inv walls m p2" using inv1 w2 ga2 by (simp add: player_inv_def p1_def)
  have rd2: "py_tile m (p_tile p2) = Inr (tile_at m (p_tile p2))"
    using py_tile_in_bounds [OF wf walkable_in_bounds [OF w2]] .
  have unf0: "execute_move walls m p dx dy =
      (case py_tile m (p_tile p2) of Inl e \<Rightarrow> Inl e
       | Inr c2 \<Rightarrow> if c2 = CHR ''.'' then eat_pellet m p2 else Inr (p2, m))"
    unfolding execute_move_def Let_def nt_def [symmetric] p1_def [symmetric] p2_def
    using False notw rd1 by simp
  have unf: "execute_move walls m p dx dy =
      (if tile_at m (p_tile p2) = CHR ''.'' then eat_pellet m p2 else Inr (p2, m))"
    using unf0 rd2 by simp
  show ?thesis
  proof (cases "tile_at m (p_tile p2) = CHR ''.''")
    case True
    from eat_pellet_ok [OF inv2] True ga2 show ?thesis by (simp add: unf)
  next
    case False
    with inv2 ga2 show ?thesis by (simp add: unf)
  qed
qed

lemma ga_ok_evolve:
  assumes ok: "ga_ok g" and dr: "draws_ok (population_size g) (chromosome_length g) dr"
    and tgt: "get_target (ga_tilemap g) (player_tile w) = Some t"
  shows "\<exists>g' c. evolve g w dr = Some (Inr (g', c)) \<and> ga_ok g' \<and> c \<noteq> []"
proof -
  from ok have pop: "length (population g) = population_size g"
      "\<forall>c \<in> set (population g). length c = chromosome_length g"
    and sizes: "4 \<le> population_size g" "2 \<le> chromosome_length g"
    by (simp_all add: ga_ok_def)
  from evolve_normal_step [OF pop sizes dr tgt] obtain g' c where
    ev: "evolve g w dr = Some (Inr (g', c))"
    and l: "length (population g') = population_size g"
    and a: "\<forall>c' \<in> set (population g'). length c' = chromosome_length g"
    and c: "c \<in> set (population g')"
    and ps: "population_size g' = population_size g" and cl: "chromosome_length g' = chromosome_length g"
    by blast
  have "ga_ok g'" using l a ps cl sizes by (simp add: ga_ok_def)
  moreover have "c \<noteq> []" using a c sizes(2) by fastforce
  ultimately show ?thesis using ev by blast
qed

lemma find_path_first_step:
  assumes "find_path m s t [] = Some P" "P \<noteq> []"
  shows "is_walkable m (hd P)"
proof -
  from find_path_ok [of m s t "[]"] assms have "walk (astar_ok m []) s P" by auto
  with assms(2) show ?thesis by (cases P) (auto simp: astar_ok_def)
qed

lemma demo_player_inv: "player_inv (wall_tiles original_tilemap) original_tilemap demo_player"
proof -
  have wf: "wf_tilemap original_tilemap" by (rule wf_original_tilemap)
  have tp: "teleport_ok original_tilemap" by code_simp
  have w: "is_walkable original_tilemap (2, 9)" by code_simp
  have g: "ga_ok (p_ga demo_player)" by code_simp
  show ?thesis using wf tp w g set_wall_tiles [OF wf] by (simp add: player_inv_def demo_player_def player_init_def)
qed

lemma demo_player_draws_ok: "draws_ok 10 10 demo_player_draws"
  by (simp add: draws_ok_def demo_player_draws_def perm_of_def list_all_iff)

lemma player_move_inv:
  assumes inv: "player_inv walls m p"
    and dr: "draws_ok (population_size (p_ga p)) (chromosome_length (p_ga p)) dr"
  shows "\<exists>p' m'. player_move walls m ghosts dr p = Some (Inr (p', m')) \<and> player_inv walls m' p'"
proof (cases "get_target m (p_tile p)")
  case None
  with inv show ?thesis by (simp add: player_move_def Let_def)
next
  case (Some t)
  from find_path_ok [of m "p_tile p" t "[]"] obtain P where P: "find_path m (p_tile p) t [] = Some P" by blast
  show ?thesis
  proof (cases "P = []")
    case True
    with Some P inv show ?thesis by (simp add: player_move_def Let_def)
  next
    case False
    define g where "g = (p_ga p)\<lparr>ga_tilemap := m\<rparr>"
    define w where "w = \<lparr>player_tile = p_tile p, enemy_tiles = ghosts\<rparr>"
    have gok: "ga_ok g" using inv by (simp add: player_inv_def ga_ok_def g_def)
    have gdr: "draws_ok (population_size g) (chromosome_length g) dr" using dr by (simp add: g_def)
    have gt: "get_target (ga_tilemap g) (player_tile w) = Some t" using Some by (simp add: g_def w_def)
    from ga_ok_evolve [OF gok gdr gt] obtain g' c where
      ev: "evolve g w dr = Some (Inr (g', c))" and g'ok: "ga_ok g'" and cne: "c \<noteq> []" by blast
    define p' where "p' = p\<lparr>p_ga := g'\<rparr>"
    have inv': "player_inv walls m p'" using inv g'ok by (simp add: player_inv_def p'_def)
    define d where "d = get_move_direction (hd c)"
    define np where "np = (fst (p_tile p) + fst d, snd (p_tile p) + snd d)"
    define nxt where "nxt = hd P"
    have tile': "p_tile p' = p_tile p" by (simp add: p'_def)
    have gm: "ga_tilemap g = m" by (simp add: g_def)
    have unf: "player_move walls m ghosts dr p =
        (if \<not> is_near_enemy np ghosts \<and> is_walkable m np
         then Some (execute_move walls m p' (fst d) (snd d))
         else Some (execute_move walls m p' (fst nxt - fst (p_tile p)) (snd nxt - snd (p_tile p))))"
      using Some P False ev cne gm
      by (simp add: player_move_def Let_def g_def [symmetric] w_def [symmetric] p'_def [symmetric]
                    d_def [symmetric] np_def [symmetric] nxt_def [symmetric])
    show ?thesis
    proof (cases "\<not> is_near_enemy np ghosts \<and> is_walkable m np")
      case True
      then have "is_walkable m (fst (p_tile p') + fst d, snd (p_tile p') + snd d)" by (simp add: tile' np_def)
      from execute_move_ok [OF inv' this] True show ?thesis unfolding unf by auto
    next
      case no: False
      have "is_walkable m nxt" using find_path_first_step [OF P False] by (simp add: nxt_def)
      then have "is_walkable m (fst (p_tile p') + (fst nxt - fst (p_tile p)), snd (p_tile p') + (snd nxt - snd (p_tile p)))"
        by (simp add: tile')
      from execute_move_ok [OF inv' this] no show ?thesis unfolding unf by auto
    qed
  qed
qed

subsection \<open>Properties of the player\<close>

text \<open>C29: one call of \<open>move(use_ga=True)\<close> from a state where the player stands on a walkable tile of a rectangular map with walkable teleporters, with the walls of the map as blocks and a well-shaped GA population, returns without a Python exception (the pathfinder, \<open>evolve\<close> and the move all return) and keeps all of this: the player never enters a wall or leaves the map, whichever of the GA move and the A* fallback it takes.\<close>

theorem player_move_safe:
  assumes inv: "player_inv walls m p"
    and dr: "draws_ok (population_size (p_ga p)) (chromosome_length (p_ga p)) dr"
  shows "\<exists>p' m'. player_move walls m ghosts dr p = Some (Inr (p', m')) \<and> player_inv walls m' p'"
  using player_move_inv [OF inv dr] .

theorem player_move_safe_witness:
  "\<exists>p' m'. player_move (wall_tiles original_tilemap) original_tilemap [(9, 9)] demo_player_draws demo_player =
             Some (Inr (p', m')) \<and> is_walkable m' (p_tile p')"
proof -
  have "draws_ok (population_size (p_ga demo_player)) (chromosome_length (p_ga demo_player)) demo_player_draws"
    using demo_player_draws_ok by (simp add: demo_player_def player_init_def ga_init_def)
  from player_move_safe [OF demo_player_inv this, of "[(9, 9)]"] show ?thesis
    by (auto simp: player_inv_def)
qed

text \<open>C30: eating a pellet turns its tile into open floor, adds 10 to the score and 1 to \<open>collected_pellets\<close>, and lowers \<open>Game.count_total_pellets\<close> of the map by exactly one.\<close>

theorem eat_pellet_count:
  assumes "wf_tilemap m" "in_bounds m (p_tile p)" "tile_at m (p_tile p) = CHR ''.''"
  shows "\<exists>p' m'. eat_pellet m p = Inr (p', m') \<and> count_total_pellets m' + 1 = count_total_pellets m \<and>
           tile_at m' (p_tile p) = CHR '' '' \<and> p_score p' = p_score p + 10 \<and>
           collected_pellets p' = collected_pellets p + 1"
proof -
  have rd: "py_tile m (p_tile p) = Inr CHR ''.''" using py_tile_in_bounds [OF assms(1,2)] assms(3) by simp
  have "tile_at (set_tile m (p_tile p) CHR '' '') (p_tile p) = CHR '' ''"
    using tile_at_set_tile [OF assms(1,2,2)] by simp
  with rd count_total_pellets_eat [OF assms] assms(2) show ?thesis
    by (simp add: eat_pellet_def py_set_tile_in_bounds)
qed

theorem eat_pellet_count_witness:
  "\<exists>p' m'. eat_pellet original_tilemap (demo_player\<lparr>p_tile := (3, 9)\<rparr>) = Inr (p', m') \<and>
     count_total_pellets m' + 1 = count_total_pellets original_tilemap \<and> p_score p' = 10"
proof -
  have "in_bounds original_tilemap (3, 9)" "tile_at original_tilemap (3, 9) = CHR ''.''" by code_simp+
  with eat_pellet_count [OF wf_original_tilemap, of "demo_player\<lparr>p_tile := (3, 9)\<rparr>"] show ?thesis
    by (auto simp: demo_player_def player_init_def)
qed

text \<open>C31: \<open>teleport\<close> swaps the two teleporter tiles: from either one it moves the player to the other, stops it, and teleporting back returns it to where it was.\<close>

theorem teleport_roundtrip:
  "p_tile p \<in> {(1, 9), (19, 9)} \<Longrightarrow>
   p_tile (teleport (teleport p)) = p_tile p \<and> p_tile (teleport p) \<noteq> p_tile p \<and> \<not> p_moving (teleport p)"
  by (auto simp: teleport_def)

theorem teleport_roundtrip_witness:
  "p_tile (teleport (demo_player\<lparr>p_tile := (1, 9)\<rparr>)) = (19, 9) \<and>
   p_tile (teleport (teleport (demo_player\<lparr>p_tile := (1, 9)\<rparr>))) = (1, 9)"
  using teleport_roundtrip [of "demo_player\<lparr>p_tile := (1, 9)\<rparr>"] by (simp add: teleport_def)

text \<open>C32: a move off the left edge of the map is not rejected. When the player
  steps from column 0 to column \<open>-1\<close> of a row (no wall block is there),
  \<open>_execute_move\<close> accepts it: the player stands outside the map, and
  Python's index \<open>-1\<close> reads the last character of the row, so a pellet at
  the far end of the row is eaten (cleared, +10) from the wrong side.\<close>

theorem execute_move_off_map:
  assumes mv: "\<not> p_moving p" and nt: "(fst (p_tile p) + dx, snd (p_tile p) + dy) = (-1, y)"
    and nw: "(-1, y) \<notin> set walls" and y0: "0 \<le> y" and y1: "y < int (length m)"
    and row: "m ! nat y \<noteq> []" and nt_tp: "last (m ! nat y) \<noteq> CHR ''T''"
  shows "\<exists>p'. execute_move walls m p dx dy =
           Inr (p', if last (m ! nat y) = CHR ''.''
                    then set_tile m (int (length (m ! nat y)) - 1, y) CHR '' '' else m) \<and>
         p_tile p' = (-1, y) \<and> \<not> in_bounds m (-1, y) \<and>
         p_score p' = p_score p + (if last (m ! nat y) = CHR ''.'' then 10 else 0)"
proof -
  define p1 where "p1 = p\<lparr>p_moving := True, p_direction := (dx, dy),
                       p_target_x := -1 * tilesize, p_target_y := y * tilesize,
                       p_tile := (-1, y), visited_tiles := insert (-1, y) (visited_tiles p)\<rparr>"
  have rd: "py_tile m (-1, y) = Inr (last (m ! nat y))" using py_tile_left_edge [OF y0 y1 row] .
  have ex: "execute_move walls m p dx dy =
      (if last (m ! nat y) = CHR ''.'' then eat_pellet m p1 else Inr (p1, m))"
    using mv nt nw nt_tp rd by (simp add: execute_move_def Let_def p1_def)
  have ib: "\<not> in_bounds m (-1, y)" by (simp add: in_bounds_def)
  show ?thesis
  proof (cases "last (m ! nat y) = CHR ''.''")
    case True
    have "eat_pellet m p1 = Inr (p1\<lparr>collected_pellets := collected_pellets p1 + 1, p_score := p_score p1 + 10\<rparr>,
                                 set_tile m (int (length (m ! nat y)) - 1, y) CHR '' '')"
      using True rd y0 by (simp add: eat_pellet_def p1_def py_set_tile_left_edge)
    with True ex ib show ?thesis by (simp add: p1_def)
  next
    case False
    with ex ib show ?thesis by (simp add: p1_def)
  qed
qed

theorem execute_move_off_map_witness:
  "\<exists>p'. execute_move (wall_tiles [''   .'']) [''   .''] (player_init [''   .''] (0, 0) (\<lambda>i j. UP)) (-1) 0 =
          Inr (p', [''    '']) \<and> p_tile p' = (-1, 0) \<and> \<not> in_bounds [''   .''] (-1, 0) \<and> p_score p' = 10"
proof -
  have nw: "(-1, 0) \<notin> set (wall_tiles [''   .''])" by code_simp
  have "set_tile [''   .''] (3, 0) CHR '' '' = [''    '']" by (simp add: set_tile_def)
  with execute_move_off_map [of "player_init [''   .''] (0, 0) (\<lambda>i j. UP)" "-1" 0 0
      "wall_tiles [''   .'']" "[''   .'']"] nw
  show ?thesis by (simp add: player_init_def)
qed

end
