(* ===== verification/Game.thy ===== *)
theory Game
  imports Player "HOL-Library.Monad_Syntax"
begin

text \<open>
  The game of \<open>src/main.py\<close> (class \<open>Game\<close>) at the level of tiles and
  counters: the sprite groups \<open>init_game\<close> fills from the map (walls, the
  player, the ghosts the difficulty admits, pellets), one iteration of the inner
  loop of \<open>game_loop\<close> (the player's \<open>update\<close>, the game's own
  \<open>GeneticAlgorithm.evolve\<close>, the back button, the ghosts' \<open>move\<close>, the
  collision penalty with its cooldown, the pellet pick-up and the end of a level),
  and the level loop. Sprite collisions are pygame's rectangle tests on the
  sprites' pixel rectangles; the player's pixel position is the one quantity of
  the pixel layer the model takes as an input, because the animation branch of
  \<open>Player.update\<close> is not modelled.
\<close>

subsection \<open>Sprites, rectangles and events\<close>

datatype difficulty = Easy | Medium | Hard | VeryHard

datatype gname = Blinky | Pinky | Inky | Clyde

text \<open>An exception that ends the program: \<open>AttributeError\<close> for an attribute
  that was never assigned (\<open>self.player\<close>), or one raised by the player's or
  the game's genetic algorithm.\<close>

datatype game_error = AttributeError | Raised py_error

text \<open>A \<open>pygame.Rect\<close> as \<open>(x, y, w, h)\<close>; \<open>colliderect\<close> for the positive
  sizes the code uses, \<open>collidepoint\<close> with the right and bottom edges
  excluded.\<close>

type_synonym rect = "int \<times> int \<times> int \<times> int"

definition colliderect :: "rect \<Rightarrow> rect \<Rightarrow> bool" where
  "colliderect a b =
     (case a of (x1, y1, w1, h1) \<Rightarrow> case b of (x2, y2, w2, h2) \<Rightarrow>
        x1 < x2 + w2 \<and> x2 < x1 + w1 \<and> y1 < y2 + h2 \<and> y2 < y1 + h1)"

definition collidepoint :: "rect \<Rightarrow> int \<times> int \<Rightarrow> bool" where
  "collidepoint r pt =
     (case r of (x, y, w, h) \<Rightarrow> x \<le> fst pt \<and> fst pt < x + w \<and> y \<le> snd pt \<and> snd pt < y + h)"

text \<open>Python's \<open>round\<close> of a float to an int: to the nearest integer, halves
  to the even one.\<close>

definition py_round :: "rat \<Rightarrow> int" where
  "py_round r =
     (let f = \<lfloor>r\<rfloor>; d = r - of_int f in
      if d < 1/2 then f else if 1/2 < d then f + 1 else if even f then f else f + 1)"

text \<open>The rectangles of the sprites: a ghost's \<open>rect.topleft\<close> is its rounded
  pixel position (\<open>move\<close> assigns \<open>(round(x), round(y))\<close> after a step and the
  exact tile corner at a snap); a \<open>Pellet\<close> is a half tile centred on its
  tile; the player's rectangle is a tile at its pixel position.\<close>

definition ghost_rect :: "ghost \<Rightarrow> rect" where
  "ghost_rect gh = (py_round (gx gh), py_round (gy gh), tilesize, tilesize)"

definition pellet_rect :: "pos \<Rightarrow> rect" where
  "pellet_rect q =
     (fst q * tilesize + tilesize div 4, snd q * tilesize + tilesize div 4, tilesize div 2, tilesize div 2)"

definition player_rect :: "int \<times> int \<Rightarrow> rect" where
  "player_rect xy = (fst xy, snd xy, tilesize, tilesize)"

subsection \<open>State\<close>

text \<open>The attributes of \<open>Game\<close> the loop reads and writes. \<open>g_map\<close> is
  \<open>TilemapManager.tilemap\<close>; \<open>g_player\<close> and the four ghost attributes are
  \<open>None\<close> until \<open>init_game\<close> first assigns them (\<open>hasattr\<close>), and keep their
  object across calls of \<open>init_game\<close> that do not create a new one;
  \<open>enemies\<close>, \<open>blocks\<close> and \<open>pellets\<close> are the sprite groups, by ghost name
  and by tile, in insertion order; \<open>g_ga\<close> is \<open>self.ga\<close>.\<close>

record game =
  g_map :: tilemap
  difficulty :: difficulty
  levels :: int
  current_level :: int
  pellet_count :: int
  score :: int
  total_score :: int
  total_elapsed_time :: rat
  last_collision_time :: rat
  level_start_time :: rat
  g_player :: "player option"
  g_blinky :: "ghost option"
  g_pinky :: "ghost option"
  g_inky :: "ghost option"
  g_clyde :: "ghost option"
  enemies :: "gname list"
  blocks :: "pos list"
  pellets :: "pos list"
  g_ga :: ga

definition get_ghost :: "game \<Rightarrow> gname \<Rightarrow> ghost option" where
  "get_ghost g n =
     (case n of Blinky \<Rightarrow> g_blinky g | Pinky \<Rightarrow> g_pinky g | Inky \<Rightarrow> g_inky g | Clyde \<Rightarrow> g_clyde g)"

text \<open>\<open>[(enemy.tile_x, enemy.tile_y) for enemy in game.enemies]\<close>.\<close>

definition enemy_positions :: "game \<Rightarrow> pos list" where
  "enemy_positions g = List.map_filter (\<lambda>n. map_option gtile (get_ghost g n)) (enemies g)"

text \<open>\<open>Game.__init__\<close>: level 1, no level count chosen yet, zero scores and
  cooldown clock, and the game's own genetic algorithm (100 chromosomes of 50
  genes, rate 0.1) on the map object of that moment.\<close>

definition game_init :: "difficulty \<Rightarrow> (nat \<Rightarrow> nat \<Rightarrow> move) \<Rightarrow> rat \<Rightarrow> game" where
  "game_init d draw now =
     \<lparr>g_map = original_tilemap, difficulty = d, levels = 0, current_level = 1, pellet_count = 0,
      score = 0, total_score = 0, total_elapsed_time = 0, last_collision_time = 0,
      level_start_time = now, g_player = None, g_blinky = None, g_pinky = None, g_inky = None,
      g_clyde = None, enemies = [], blocks = [], pellets = [],
      g_ga = ga_init 100 50 (1 / 10) original_tilemap draw\<rparr>"

subsection \<open>Setting up a level\<close>

text \<open>The ghost a marker creates at a difficulty: \<open>R\<close> always, \<open>L\<close> from
  \<open>medium\<close>, \<open>I\<close> from \<open>hard\<close>, \<open>C\<close> only at \<open>very_hard\<close>.\<close>

definition ghost_marker :: "difficulty \<Rightarrow> char \<Rightarrow> gname option" where
  "ghost_marker d tile =
     (if tile = CHR ''R'' then Some Blinky
      else if tile = CHR ''L'' \<and> d \<in> {Medium, Hard, VeryHard} then Some Pinky
      else if tile = CHR ''I'' \<and> d \<in> {Hard, VeryHard} then Some Inky
      else if tile = CHR ''C'' \<and> d = VeryHard then Some Clyde
      else None)"

text \<open>\<open>self.blinky = ...\<close> and its siblings.\<close>

definition put_ghost :: "gname \<Rightarrow> ghost option \<Rightarrow> game \<Rightarrow> game" where
  "put_ghost n x g =
     (case n of Blinky \<Rightarrow> g\<lparr>g_blinky := x\<rparr> | Pinky \<Rightarrow> g\<lparr>g_pinky := x\<rparr>
      | Inky \<Rightarrow> g\<lparr>g_inky := x\<rparr> | Clyde \<Rightarrow> g\<lparr>g_clyde := x\<rparr>)"

text \<open>One cell of the scan of \<open>init_game\<close>: the \<open>elif\<close> chain on the tile (a
  \<open>Ground\<close> sprite belongs to no group). \<open>t0\<close> is
  \<open>pygame.time.get_ticks()\<close> when the ghosts are created, \<open>draw\<close> the
  player's random population.\<close>

definition spawn :: "int \<Rightarrow> (nat \<Rightarrow> nat \<Rightarrow> move) \<Rightarrow> game \<Rightarrow> pos \<times> char \<Rightarrow> game" where
  "spawn t0 draw g cell =
     (let q = fst cell; tile = snd cell in
      if tile = CHR ''W'' then g\<lparr>blocks := blocks g @ [q]\<rparr>
      else if tile = CHR ''P'' then g\<lparr>g_player := Some (player_init (g_map g) q draw)\<rparr>
      else case ghost_marker (difficulty g) tile of
             Some n \<Rightarrow> put_ghost n (Some (ghost_init t0 q)) (g\<lparr>enemies := enemies g @ [n]\<rparr>)
           | None \<Rightarrow> if tile = CHR ''.'' then g\<lparr>pellets := pellets g @ [q]\<rparr> else g)"

text \<open>\<open>init_game\<close>: reset the map, empty the groups, zero the level score,
  count the pellets, scan the map, and add \<open>self.player\<close> to the sprites
  (\<open>AttributeError\<close> if no player was ever created).\<close>

definition init_game :: "int \<Rightarrow> (nat \<Rightarrow> nat \<Rightarrow> move) \<Rightarrow> game \<Rightarrow> game_error + game" where
  "init_game t0 draw g =
     (let m = reset_tilemap;
          g1 = g\<lparr>g_map := m, enemies := [], blocks := [], pellets := [], score := 0,
                 pellet_count := int (count_total_pellets m)\<rparr>;
          g2 = foldl (spawn t0 draw) g1 (map_cells m)
      in if g_player g2 = None then Inl AttributeError else Inr g2)"

subsection \<open>Score bookkeeping of a frame\<close>

definition collision_cooldown_duration :: rat where
  "collision_cooldown_duration = 1"

text \<open>\<open>pygame.sprite.spritecollideany(self.player, self.enemies)\<close>.\<close>

definition hits_enemy :: "rect \<Rightarrow> game \<Rightarrow> bool" where
  "hits_enemy r g =
     list_ex (\<lambda>n. case get_ghost g n of None \<Rightarrow> False | Some gh \<Rightarrow> colliderect r (ghost_rect gh)) (enemies g)"

text \<open>Lines 377--383: a collision costs 500 points unless the previous charged
  collision is less than the cooldown ago; \<open>now\<close> is \<open>time.time()\<close>.\<close>

definition handle_collision :: "rect \<Rightarrow> rat \<Rightarrow> game \<Rightarrow> game" where
  "handle_collision r now g =
     (if hits_enemy r g \<and> now - last_collision_time g \<ge> collision_cooldown_duration
      then g\<lparr>score := score g - 500, last_collision_time := now\<rparr>
      else g)"

text \<open>Lines 386--389: \<open>spritecollide(self.player, self.pellets, True)\<close> removes
  the pellets the player's rectangle touches; each is worth 100.\<close>

definition collect_pellets :: "rect \<Rightarrow> game \<Rightarrow> game" where
  "collect_pellets r g =
     (let collected = filter (\<lambda>q. colliderect r (pellet_rect q)) (pellets g) in
      if collected = [] then g
      else g\<lparr>pellets := filter (\<lambda>q. \<not> colliderect r (pellet_rect q)) (pellets g),
             pellet_count := pellet_count g - int (length collected),
             score := score g + int (length collected) * 100\<rparr>)"

text \<open>Lines 393--410, when \<open>pellet_count <= 0\<close>: the level score joins the
  total, the level's time joins the total time, the level score is reset and the
  level counter advances.\<close>

definition finish_level :: "rat \<Rightarrow> game \<Rightarrow> game" where
  "finish_level now g =
     g\<lparr>total_score := total_score g + score g,
       total_elapsed_time := total_elapsed_time g + (now - level_start_time g),
       score := 0, current_level := current_level g + 1\<rparr>"

subsection \<open>One frame of the game loop\<close>

text \<open>The pygame events the loops look at: \<open>QUIT\<close>, a mouse button press with
  its button and position, a key press with its key and \<open>unicode\<close> text.\<close>

datatype key = K_RETURN | K_BACKSPACE | K_1 | K_2 | K_3 | K_4 | K_OTHER

datatype event = QUIT | MOUSEBUTTONDOWN int "int \<times> int" | KEYDOWN key string

definition SCREEN_WIDTH :: int where "SCREEN_WIDTH = 900"

definition SCREEN_HEIGHT :: int where "SCREEN_HEIGHT = 900"

definition back_button :: rect where
  "back_button = (10, SCREEN_HEIGHT - 60, 100, 40)"

text \<open>How a frame ends: it continues, the level is complete, the back button or
  Backspace returns \<open>False\<close> to the menu, or \<open>QUIT\<close> calls \<open>sys.exit()\<close>.\<close>

datatype frame_outcome = Running | LevelDone | BackToMenu | Exit

text \<open>The \<open>for event in pygame.event.get()\<close> loop of \<open>game_loop\<close>.\<close>

fun loop_events :: "event list \<Rightarrow> frame_outcome option" where
  "loop_events [] = None"
| "loop_events (QUIT # es) = Some Exit"
| "loop_events (MOUSEBUTTONDOWN b pt # es) =
     (if b = 1 \<and> collidepoint back_button pt then Some BackToMenu else loop_events es)"
| "loop_events (KEYDOWN k u # es) = (if k = K_BACKSPACE then Some BackToMenu else loop_events es)"

text \<open>What a frame receives from outside the model: whether the player's pixel
  animation reaches its target this frame, the player's pixel position when the
  collisions are tested, the random draws of the player's and of the game's
  \<open>evolve\<close>, the events, the ghosts' \<open>pygame.time.get_ticks()\<close>, and
  \<open>time.time()\<close> at the collision test and at the end of the level.\<close>

record frame_in =
  f_arrived :: bool
  f_pxy :: "int \<times> int"
  f_pdraws :: ga_draws
  f_gdraws :: ga_draws
  f_events :: "event list"
  f_ticks :: int
  f_hit_time :: rat
  f_end_time :: rat

text \<open>\<open>Player.update(game)\<close> through \<open>self.all_sprites.update(self)\<close> (the
  other sprites' \<open>update\<close> does nothing): a stationary player takes its move
  step against the \<open>Block\<close> sprites and the enemies' tiles; a moving one
  animates, and stops when it arrives.\<close>

definition player_update :: "frame_in \<Rightarrow> game \<Rightarrow> (game_error + game) option" where
  "player_update fi g =
     (case g_player g of
        None \<Rightarrow> Some (Inl AttributeError)
      | Some p \<Rightarrow>
          if \<not> p_moving p then
            (case player_move (blocks g) (g_map g) (enemy_positions g) (f_pdraws fi) p of
               None \<Rightarrow> None
             | Some (Inl e) \<Rightarrow> Some (Inl (Raised e))
             | Some (Inr (p', m')) \<Rightarrow> Some (Inr (g\<lparr>g_player := Some p', g_map := m'\<rparr>)))
          else if f_arrived fi then Some (Inr (g\<lparr>g_player := Some (p\<lparr>p_moving := False\<rparr>)\<rparr>))
          else Some (Inr g))"

text \<open>\<open>best_chromosome = self.ga.evolve(self, a_star_path)\<close>: the result is
  unused, the game's genetic algorithm steps.\<close>

definition game_evolve :: "frame_in \<Rightarrow> game \<Rightarrow> (game_error + game) option" where
  "game_evolve fi g =
     (case g_player g of
        None \<Rightarrow> Some (Inl AttributeError)
      | Some p \<Rightarrow>
          (case evolve (g_ga g) \<lparr>player_tile = p_tile p, enemy_tiles = enemy_positions g\<rparr> (f_gdraws fi) of
             None \<Rightarrow> None
           | Some (Inl e) \<Rightarrow> Some (Inl (Raised e))
           | Some (Inr (ga', best)) \<Rightarrow> Some (Inr (g\<lparr>g_ga := ga'\<rparr>))))"

text \<open>The map the ghosts search: the module-level \<open>tilemap\<close> that
  \<open>src/object.py\<close> imports from \<open>src/config.py\<close>, a copy of
  \<open>original_tilemap\<close> that no code writes.\<close>

definition ghost_map :: tilemap where
  "ghost_map = original_tilemap"

definition move_opt :: "(ghost \<Rightarrow> ghost option) \<Rightarrow> ghost option \<Rightarrow> ghost option option" where
  "move_opt f x = (case x of None \<Rightarrow> Some None | Some gh \<Rightarrow> map_option Some (f gh))"

text \<open>Lines 350--357: \<open>if hasattr(self, 'blinky'): self.blinky.move()\<close> and
  so on, each ghost reading the player's tile and direction.\<close>

definition ghosts_move :: "(rat \<Rightarrow> rat \<Rightarrow> rat) \<Rightarrow> int \<Rightarrow> player \<Rightarrow> game \<Rightarrow> game option" where
  "ghosts_move hyp now p g = do {
     b \<leftarrow> move_opt (blinky_move hyp ghost_map (p_tile p) now) (g_blinky g);
     pk \<leftarrow> move_opt (pinky_move hyp ghost_map (p_tile p) (p_direction p) now) (g_pinky g);
     i \<leftarrow> move_opt (inky_move hyp ghost_map (p_tile p) (p_direction p) now) (g_inky g);
     c \<leftarrow> move_opt (clyde_move hyp ghost_map (p_tile p) now) (g_clyde g);
     Some (g\<lparr>g_blinky := b, g_pinky := pk, g_inky := i, g_clyde := c\<rparr>)
   }"

text \<open>The score bookkeeping at the end of a frame (lines 376--410).\<close>

definition frame_book :: "frame_in \<Rightarrow> game \<Rightarrow> frame_outcome \<times> game" where
  "frame_book fi g =
     (let r = player_rect (f_pxy fi);
          g1 = collect_pellets r (handle_collision r (f_hit_time fi) g)
      in if pellet_count g1 \<le> 0 then (LevelDone, finish_level (f_end_time fi) g1) else (Running, g1))"

text \<open>One iteration of the inner \<open>while True\<close> loop of \<open>game_loop\<close>.
  \<open>None\<close> is a search or an \<open>evolve\<close> that does not return.\<close>

definition game_frame :: "(rat \<Rightarrow> rat \<Rightarrow> rat) \<Rightarrow> frame_in \<Rightarrow> game \<Rightarrow> (game_error + frame_outcome \<times> game) option" where
  "game_frame hyp fi g = do {
     r1 \<leftarrow> player_update fi g;
     (case r1 of
        Inl e \<Rightarrow> Some (Inl e)
      | Inr g1 \<Rightarrow> do {
          r2 \<leftarrow> game_evolve fi g1;
          (case r2 of
             Inl e \<Rightarrow> Some (Inl e)
           | Inr g2 \<Rightarrow>
               (case loop_events (f_events fi) of
                  Some out \<Rightarrow> Some (Inr (out, g2))
                | None \<Rightarrow>
                    (case g_player g2 of
                       None \<Rightarrow> Some (Inl AttributeError)
                     | Some p \<Rightarrow> map_option (\<lambda>g3. Inr (frame_book fi g3)) (ghosts_move hyp (f_ticks fi) p g2))))
        })
   }"

subsection \<open>The level loop\<close>

text \<open>\<open>run_level\<close>: the frames of a level, in order, until one ends it; the
  inputs may stop first (\<open>Running\<close>).\<close>

fun run_level :: "(rat \<Rightarrow> rat \<Rightarrow> rat) \<Rightarrow> frame_in list \<Rightarrow> game \<Rightarrow> (game_error + frame_outcome \<times> game) option" where
  "run_level hyp [] g = Some (Inr (Running, g))"
| "run_level hyp (fi # fs) g =
     (case game_frame hyp fi g of
        Some (Inr (Running, g')) \<Rightarrow> run_level hyp fs g'
      | r \<Rightarrow> r)"

text \<open>What the start of a level receives: the ticks when \<open>init_game\<close> creates
  the ghosts, the player's random population, \<open>level_start_time\<close>, and the
  level's frames.\<close>

record level_in =
  l_ticks :: int
  l_draw :: "nat \<Rightarrow> nat \<Rightarrow> move"
  l_start :: rat
  l_frames :: "frame_in list"

text \<open>How \<open>game_loop\<close> ends: the \<open>while\<close> loop is left after the last level
  (and \<open>game_over_screen('win', ...)\<close> follows), the back button returns
  \<open>False\<close>, \<open>QUIT\<close> exits, or the inputs stop during a level.\<close>

datatype loop_result = Completed | Returned | Exited | InProgress

text \<open>\<open>while self.current_level <= self.levels\<close> with its body: set up the
  level, run it, and go on after a completed level.\<close>

fun play_levels :: "(rat \<Rightarrow> rat \<Rightarrow> rat) \<Rightarrow> level_in list \<Rightarrow> game \<Rightarrow> (game_error + loop_result \<times> game) option" where
  "play_levels hyp [] g = Some (Inr (if current_level g \<le> levels g then InProgress else Completed, g))"
| "play_levels hyp (li # lis) g =
     (if current_level g \<le> levels g then
        (case init_game (l_ticks li) (l_draw li) g of
           Inl e \<Rightarrow> Some (Inl e)
         | Inr g1 \<Rightarrow>
             (case run_level hyp (l_frames li) (g1\<lparr>level_start_time := l_start li\<rparr>) of
                None \<Rightarrow> None
              | Some (Inl e) \<Rightarrow> Some (Inl e)
              | Some (Inr (LevelDone, g2)) \<Rightarrow> play_levels hyp lis g2
              | Some (Inr (BackToMenu, g2)) \<Rightarrow> Some (Inr (Returned, g2))
              | Some (Inr (Exit, g2)) \<Rightarrow> Some (Inr (Exited, g2))
              | Some (Inr (Running, g2)) \<Rightarrow> Some (Inr (InProgress, g2))))
      else Some (Inr (Completed, g)))"

text \<open>\<open>game_loop\<close>: a first \<open>init_game\<close>, the total score and the level counter
  reset (the total time and the collision clock are not), then the levels.\<close>

definition game_loop :: "(rat \<Rightarrow> rat \<Rightarrow> rat) \<Rightarrow> level_in \<Rightarrow> level_in list \<Rightarrow> game \<Rightarrow> (game_error + loop_result \<times> game) option" where
  "game_loop hyp li0 lis g =
     (case init_game (l_ticks li0) (l_draw li0) g of
        Inl e \<Rightarrow> Some (Inl e)
      | Inr g1 \<Rightarrow> play_levels hyp lis (g1\<lparr>total_score := 0, current_level := 1\<rparr>))"

subsection \<open>Invariant\<close>

text \<open>\<open>game_inv\<close>: the player exists and satisfies the player invariant with the
  \<open>Block\<close> sprites as walls, and its genetic algorithm keeps the sizes
  \<open>Player.__init__\<close> gives it (10 chromosomes of 10 genes); the game's genetic
  algorithm is well shaped with the sizes of \<open>Game.__init__\<close> (100 of 50);
  every ghost object that exists satisfies the ghost invariant on the ghosts' map;
  the pellet counter equals the number of pellet sprites.\<close>

definition all_gnames :: "gname list" where
  "all_gnames = [Blinky, Pinky, Inky, Clyde]"

definition ghosts_ok :: "game \<Rightarrow> bool" where
  "ghosts_ok g \<longleftrightarrow>
     list_all (\<lambda>n. case get_ghost g n of None \<Rightarrow> True | Some gh \<Rightarrow> ghost_ok ghost_map gh) all_gnames"

definition game_inv :: "game \<Rightarrow> bool" where
  "game_inv g \<longleftrightarrow>
     (case g_player g of
        None \<Rightarrow> False
      | Some p \<Rightarrow> player_inv (blocks g) (g_map g) p \<and>
                  population_size (p_ga p) = 10 \<and> chromosome_length (p_ga p) = 10) \<and>
     ga_ok (g_ga g) \<and> population_size (g_ga g) = 100 \<and> chromosome_length (g_ga g) = 50 \<and>
     ghosts_ok g \<and> pellet_count g = int (length (pellets g))"

text \<open>\<open>game_pre\<close>: what \<open>init_game\<close> needs to establish \<open>game_inv\<close> (it
  creates the player and the ghosts the difficulty admits, but keeps the other
  ghost objects and the game's genetic algorithm). \<open>frames_ok\<close>: the random
  draws of every frame are ones the library can produce for the sizes of the
  player's and of the game's genetic algorithm.\<close>

definition game_pre :: "game \<Rightarrow> bool" where
  "game_pre g \<longleftrightarrow>
     ga_ok (g_ga g) \<and> population_size (g_ga g) = 100 \<and> chromosome_length (g_ga g) = 50 \<and> ghosts_ok g"

definition frames_ok :: "frame_in list \<Rightarrow> bool" where
  "frames_ok fs \<longleftrightarrow> list_all (\<lambda>fi. draws_ok 10 10 (f_pdraws fi) \<and> draws_ok 100 50 (f_gdraws fi)) fs"

text \<open>The states of a \<open>Game\<close> object during play, as a step relation: a new
  game (\<open>Game()\<close>, the choice on the intro screen, the first \<open>init_game\<close> of
  \<open>game_loop\<close>), the intro screen setting the difficulty and the level count
  again, the reset at the start of \<open>game_loop\<close>, the set-up of a level, and a
  frame with draws the library can produce.\<close>

inductive game_reach :: "(rat \<Rightarrow> rat \<Rightarrow> rat) \<Rightarrow> game \<Rightarrow> bool" for hyp where
  new_game: "init_game t0 draw' (game_init d draw now) = Inr g \<Longrightarrow> game_reach hyp g"
| menu: "game_reach hyp g \<Longrightarrow> game_reach hyp (g\<lparr>difficulty := d, levels := n\<rparr>)"
| restart: "game_reach hyp g \<Longrightarrow> init_game t0 draw g = Inr g' \<Longrightarrow>
    game_reach hyp (g'\<lparr>total_score := 0, current_level := 1\<rparr>)"
| level: "game_reach hyp g \<Longrightarrow> init_game t0 draw g = Inr g' \<Longrightarrow>
    game_reach hyp (g'\<lparr>level_start_time := t\<rparr>)"
| frame: "game_reach hyp g \<Longrightarrow> frames_ok [fi] \<Longrightarrow> game_frame hyp fi g = Some (Inr (out, g')) \<Longrightarrow>
    game_reach hyp g'"

subsection \<open>Example data\<close>

text \<open>Draws for the game's genetic algorithm (100 chromosomes of 50 genes), a
  frame with no event, a game with Blinky on the player's tile half a second after
  a charged collision and a pellet under the player, and a level of one frame.\<close>

definition demo_game_draws :: ga_draws where
  "demo_game_draws = \<lparr>choice_idx = 0, sel_u = (\<lambda>j. 0), sel_perm = [0..<100], pair_draw = (\<lambda>i. (0, 1)),
     split_draw = (\<lambda>i. 25), mut_draw = (\<lambda>j i. (1/2, UP))\<rparr>"

definition demo_frame :: frame_in where
  "demo_frame = \<lparr>f_arrived = False, f_pxy = (64, 288), f_pdraws = demo_player_draws, f_gdraws = demo_game_draws,
     f_events = [], f_ticks = 1000, f_hit_time = 5, f_end_time = 10\<rparr>"

definition demo_game :: game where
  "demo_game =
     (game_init Easy (\<lambda>i j. UP) 0)\<lparr>g_blinky := Some (ghost_init 0 (2, 9)), enemies := [Blinky],
        pellets := [(2, 9), (5, 9)], pellet_count := 2, last_collision_time := 9/2\<rparr>"

definition demo_level :: level_in where
  "demo_level = \<lparr>l_ticks = 0, l_draw = (\<lambda>i j. [UP, DOWN, LEFT, RIGHT] ! ((i + j) mod 4)), l_start = 0,
     l_frames = [demo_frame]\<rparr>"

text \<open>\<open>score_state\<close>: the counters the score bookkeeping of a frame reads and
  writes (a proof device).\<close>

definition score_state :: "game \<Rightarrow> int \<times> pos list \<times> int \<times> rat \<times> int \<times> int \<times> rat \<times> rat" where
  "score_state g = (score g, pellets g, pellet_count g, last_collision_time g, total_score g,
                    current_level g, total_elapsed_time g, level_start_time g)"

subsection \<open>Lemmas: setting up a level\<close>

lemma get_put_ghost [simp]: "get_ghost (put_ghost n x g) k = (if k = n then x else get_ghost g k)"
  by (cases n; cases k) (simp_all add: get_ghost_def put_ghost_def)

lemma put_ghost_fields [simp]:
  "g_map (put_ghost n x g) = g_map g" "difficulty (put_ghost n x g) = difficulty g"
  "g_player (put_ghost n x g) = g_player g" "enemies (put_ghost n x g) = enemies g"
  "blocks (put_ghost n x g) = blocks g" "pellets (put_ghost n x g) = pellets g"
  "score (put_ghost n x g) = score g" "pellet_count (put_ghost n x g) = pellet_count g"
  by (cases n; simp add: put_ghost_def)+

lemma get_ghost_upd [simp]:
  "get_ghost (g\<lparr>pellets := ps\<rparr>) = get_ghost g" "get_ghost (g\<lparr>blocks := bs\<rparr>) = get_ghost g"
  "get_ghost (g\<lparr>enemies := es\<rparr>) = get_ghost g" "get_ghost (g\<lparr>g_player := pl\<rparr>) = get_ghost g"
  "get_ghost (g\<lparr>g_map := m\<rparr>) = get_ghost g" "get_ghost (g\<lparr>g_ga := ga'\<rparr>) = get_ghost g"
  "get_ghost (g\<lparr>score := s\<rparr>) = get_ghost g" "get_ghost (g\<lparr>pellet_count := k\<rparr>) = get_ghost g"
  "get_ghost (g\<lparr>last_collision_time := t\<rparr>) = get_ghost g"
  "get_ghost (g\<lparr>level_start_time := t\<rparr>) = get_ghost g"
  "get_ghost (g\<lparr>total_score := s\<rparr>) = get_ghost g" "get_ghost (g\<lparr>current_level := l\<rparr>) = get_ghost g"
  "get_ghost (g\<lparr>total_elapsed_time := t\<rparr>) = get_ghost g"
  "get_ghost (g\<lparr>difficulty := d\<rparr>) = get_ghost g" "get_ghost (g\<lparr>levels := n\<rparr>) = get_ghost g"
  by (rule ext, simp add: get_ghost_def split: gname.split)+

lemma ghost_marker_tiles:
  "ghost_marker d c \<noteq> None \<Longrightarrow> c \<in> set ''RLIC''"
  "ghost_marker d CHR ''W'' = None" "ghost_marker d CHR ''P'' = None" "ghost_marker d CHR ''.'' = None"
  by (auto simp: ghost_marker_def split: if_splits)

lemma spawn_fold_blocks:
  "blocks (foldl (spawn t0 draw) g cs) = blocks g @ map fst (filter (\<lambda>c. snd c = CHR ''W'') cs)"
  by (induction cs arbitrary: g) (auto simp: spawn_def Let_def ghost_marker_tiles split: option.split)

lemma spawn_fold_pellets:
  "pellets (foldl (spawn t0 draw) g cs) = pellets g @ map fst (filter (\<lambda>c. snd c = CHR ''.'') cs)"
  by (induction cs arbitrary: g) (auto simp: spawn_def Let_def ghost_marker_tiles split: option.split)

lemma spawn_keeps:
  "g_map (spawn t0 draw g c) = g_map g \<and> difficulty (spawn t0 draw g c) = difficulty g \<and>
   score (spawn t0 draw g c) = score g \<and> pellet_count (spawn t0 draw g c) = pellet_count g \<and>
   g_ga (spawn t0 draw g c) = g_ga g \<and> total_score (spawn t0 draw g c) = total_score g \<and>
   total_elapsed_time (spawn t0 draw g c) = total_elapsed_time g \<and>
   levels (spawn t0 draw g c) = levels g \<and> current_level (spawn t0 draw g c) = current_level g"
  by (simp add: spawn_def Let_def put_ghost_def split: option.split gname.split)

lemma spawn_fold_keeps:
  "g_map (foldl (spawn t0 draw) g cs) = g_map g \<and> difficulty (foldl (spawn t0 draw) g cs) = difficulty g \<and>
   score (foldl (spawn t0 draw) g cs) = score g \<and> pellet_count (foldl (spawn t0 draw) g cs) = pellet_count g \<and>
   g_ga (foldl (spawn t0 draw) g cs) = g_ga g \<and> total_score (foldl (spawn t0 draw) g cs) = total_score g \<and>
   total_elapsed_time (foldl (spawn t0 draw) g cs) = total_elapsed_time g \<and>
   levels (foldl (spawn t0 draw) g cs) = levels g \<and> current_level (foldl (spawn t0 draw) g cs) = current_level g"
  by (induction cs arbitrary: g) (simp_all add: spawn_keeps)

lemma spawn_fold_enemies:
  "enemies (foldl (spawn t0 draw) g cs) = enemies g @ List.map_filter (\<lambda>c. ghost_marker (difficulty g) (snd c)) cs"
  by (induction cs arbitrary: g)
     (auto simp: spawn_def Let_def ghost_marker_tiles List.map_filter_simps split: option.split)

lemma spawn_fold_player:
  "g_player (foldl (spawn t0 draw) g cs) =
     (if \<exists>c \<in> set cs. snd c = CHR ''P''
      then Some (player_init (g_map g) (fst (last (filter (\<lambda>c. snd c = CHR ''P'') cs))) draw)
      else g_player g)"
  by (induction cs arbitrary: g) (auto simp: spawn_def Let_def ghost_marker_tiles spawn_fold_keeps filter_empty_conv split: option.split)

lemma spawn_fold_ghost:
  "get_ghost (foldl (spawn t0 draw) g cs) n =
     (if \<exists>c \<in> set cs. ghost_marker (difficulty g) (snd c) = Some n
      then Some (ghost_init t0 (fst (last (filter (\<lambda>c. ghost_marker (difficulty g) (snd c) = Some n) cs))))
      else get_ghost g n)"
  by (induction cs arbitrary: g) (auto simp: spawn_def Let_def ghost_marker_tiles spawn_fold_keeps filter_empty_conv split: option.split)

lemma map_filter_filter_cong:
  "(\<And>x. f x \<noteq> None \<Longrightarrow> P x) \<Longrightarrow> List.map_filter f (filter P xs) = List.map_filter f xs"
  by (induction xs) (auto simp: List.map_filter_simps split: option.split)

lemma filter_filter_cong: "(\<And>x. Q x \<Longrightarrow> P x) \<Longrightarrow> filter Q (filter P xs) = filter Q xs"
  by (induction xs) auto

lemma cells_of_mem: "q \<in> fst ` set (filter (\<lambda>c. snd c = ch) cs) \<longleftrightarrow> (q, ch) \<in> set cs"
  by force

lemma original_markers:
  "filter (\<lambda>c. snd c \<in> set ''RLIC'') (map_cells original_tilemap) =
     [((8, 9), CHR ''I''), ((9, 9), CHR ''R''), ((11, 9), CHR ''L''), ((12, 9), CHR ''C'')]"
  by code_simp

lemma original_player_marker:
  "filter (\<lambda>c. snd c = CHR ''P'') (map_cells original_tilemap) = [((2, 9), CHR ''P'')]"
  by code_simp

lemma original_pellet_count:
  "count_total_pellets original_tilemap = 169"
  "length (filter (\<lambda>c. snd c = CHR ''.'') (map_cells original_tilemap)) = 169"
  by code_simp+

text \<open>The scan of \<open>init_game\<close> on the map it resets to.\<close>

lemma original_has_player: "\<exists>c \<in> set (map_cells original_tilemap). snd c = CHR ''P''"
proof -
  have "((2, 9), CHR ''P'') \<in> set (filter (\<lambda>c. snd c = CHR ''P'') (map_cells original_tilemap))"
    unfolding original_player_marker by simp
  then show ?thesis by (intro bexI [of _ "((2, 9), CHR ''P'')"]) simp_all
qed
lemma init_game_eq:
  "init_game t0 draw g =
     Inr (foldl (spawn t0 draw)
            (g\<lparr>g_map := original_tilemap, enemies := [], blocks := [], pellets := [], score := 0,
               pellet_count := 169\<rparr>) (map_cells original_tilemap))"
proof -
  have "g_player (foldl (spawn t0 draw)
            (g\<lparr>g_map := original_tilemap, enemies := [], blocks := [], pellets := [], score := 0,
               pellet_count := 169\<rparr>) (map_cells original_tilemap)) \<noteq> None"
    unfolding spawn_fold_player using original_has_player by (simp only: if_True) simp
  then show ?thesis
    unfolding init_game_def reset_tilemap_def original_pellet_count(1) Let_def by simp
qed
lemma init_game_Inr:
  "init_game t0 draw g = Inr g' \<Longrightarrow>
   g' = foldl (spawn t0 draw)
          (g\<lparr>g_map := original_tilemap, enemies := [], blocks := [], pellets := [], score := 0,
             pellet_count := 169\<rparr>) (map_cells original_tilemap)"
  by (simp add: init_game_eq)

lemma init_game_enemies:
  assumes ok: "init_game t0 draw g = Inr g'"
  shows "enemies g' = (case difficulty g of Easy \<Rightarrow> [Blinky] | Medium \<Rightarrow> [Blinky, Pinky]
                 | Hard \<Rightarrow> [Inky, Blinky, Pinky] | VeryHard \<Rightarrow> [Inky, Blinky, Pinky, Clyde])"
proof -
  have "List.map_filter (\<lambda>c. ghost_marker (difficulty g) (snd c)) (map_cells original_tilemap) =
        List.map_filter (\<lambda>c. ghost_marker (difficulty g) (snd c))
          (filter (\<lambda>c. snd c \<in> set ''RLIC'') (map_cells original_tilemap))"
    by (rule map_filter_filter_cong [symmetric]) (rule ghost_marker_tiles(1))
  also have "\<dots> = (case difficulty g of Easy \<Rightarrow> [Blinky] | Medium \<Rightarrow> [Blinky, Pinky]
                 | Hard \<Rightarrow> [Inky, Blinky, Pinky] | VeryHard \<Rightarrow> [Inky, Blinky, Pinky, Clyde])"
    unfolding original_markers
    by (cases "difficulty g") (simp_all add: List.map_filter_simps ghost_marker_def)
  finally show ?thesis
    unfolding init_game_Inr [OF ok] by (simp add: spawn_fold_enemies)
qed

lemma init_game_ghost:
  assumes ok: "init_game t0 draw g = Inr g'"
  shows "get_ghost g' n =
     (case filter (\<lambda>c. ghost_marker (difficulty g) (snd c) = Some n)
             [((8, 9), CHR ''I''), ((9, 9), CHR ''R''), ((11, 9), CHR ''L''), ((12, 9), CHR ''C'')] of
        [] \<Rightarrow> get_ghost g n
      | c # cs \<Rightarrow> Some (ghost_init t0 (fst (last (c # cs)))))"
proof -
  let ?P = "\<lambda>c. ghost_marker (difficulty g) (snd c) = Some n"
  have f: "filter ?P (map_cells original_tilemap) =
           filter ?P [((8, 9), CHR ''I''), ((9, 9), CHR ''R''), ((11, 9), CHR ''L''), ((12, 9), CHR ''C'')]"
    unfolding original_markers [symmetric]
    by (rule filter_filter_cong [symmetric], rule ghost_marker_tiles(1) [of "difficulty g"]) simp
  have ex: "(\<exists>c \<in> set (map_cells original_tilemap). ?P c) \<longleftrightarrow> filter ?P (map_cells original_tilemap) \<noteq> []"
    by (simp add: filter_empty_conv)
  show ?thesis
    unfolding init_game_Inr [OF ok] using f ex by (auto simp: spawn_fold_ghost split: list.split)
qed

lemma init_game_player:
  assumes ok: "init_game t0 draw g = Inr g'"
  shows "g_player g' = Some (player_init original_tilemap (2, 9) draw)"
  unfolding init_game_Inr [OF ok] using original_has_player original_player_marker
  by (simp add: spawn_fold_player)

lemma init_game_fields:
  assumes "init_game t0 draw g = Inr g'"
  shows "blocks g' = wall_tiles original_tilemap" "g_map g' = original_tilemap" "score g' = 0"
    "pellet_count g' = 169" "difficulty g' = difficulty g" "g_ga g' = g_ga g"
    "total_score g' = total_score g" "total_elapsed_time g' = total_elapsed_time g"
    "levels g' = levels g" "current_level g' = current_level g"
    "pellet_count g' = int (length (pellets g'))"
    "set (pellets g') = {q. in_bounds original_tilemap q \<and> is_pellet original_tilemap q}"
  unfolding init_game_Inr [OF assms] using spawn_fold_keeps [of t0 draw]
  by (auto simp: spawn_fold_blocks spawn_fold_pellets wall_tiles_def original_pellet_count(2)
      cells_of_mem map_cells_pellet [OF wf_original_tilemap] image_iff)

subsection \<open>Lemmas: one frame\<close>

lemma evolve_keeps:
  assumes "evolve g w dr = Some (Inr (g', c))"
  shows "population_size g' = population_size g \<and> chromosome_length g' = chromosome_length g \<and>
         ga_tilemap g' = ga_tilemap g"
  using assms unfolding evolve_def Let_def
  by (auto split: option.splits if_splits sum.splits)

lemma execute_move_keeps_ga:
  "execute_move walls m p dx dy = Inr (p', m') \<Longrightarrow> p_ga p' = p_ga p"
  unfolding execute_move_def eat_pellet_def teleport_def Let_def
  by (auto split: if_splits sum.splits)

lemma player_move_keeps_sizes:
  assumes "player_move walls m ghosts dr p = Some (Inr (p', m'))"
  shows "population_size (p_ga p') = population_size (p_ga p) \<and>
         chromosome_length (p_ga p') = chromosome_length (p_ga p)"
  using assms unfolding player_move_def Let_def
  by (auto split: option.splits if_splits sum.splits dest!: execute_move_keeps_ga evolve_keeps)

lemma player_inv_moving [simp]: "player_inv walls m (p\<lparr>p_moving := b\<rparr>) = player_inv walls m p"
  by (simp add: player_inv_def)

lemma player_update_ok:
  assumes inv: "game_inv g" and dr: "draws_ok 10 10 (f_pdraws fi)"
  shows "\<exists>p' m'. player_update fi g = Some (Inr (g\<lparr>g_player := Some p', g_map := m'\<rparr>)) \<and>
           player_inv (blocks g) m' p' \<and> population_size (p_ga p') = 10 \<and> chromosome_length (p_ga p') = 10"
proof -
  from inv obtain p where p: "g_player g = Some p" and pi: "player_inv (blocks g) (g_map g) p"
      and sz: "population_size (p_ga p) = 10" "chromosome_length (p_ga p) = 10"
    by (auto simp: game_inv_def split: option.splits)
  show ?thesis
  proof (cases "p_moving p")
    case False
    from dr sz have dr': "draws_ok (population_size (p_ga p)) (chromosome_length (p_ga p)) (f_pdraws fi)"
      by simp
    from player_move_inv [OF pi dr', of "enemy_positions g"] obtain p' m' where
      mv: "player_move (blocks g) (g_map g) (enemy_positions g) (f_pdraws fi) p = Some (Inr (p', m'))"
      and pi': "player_inv (blocks g) m' p'" by blast
    from player_move_keeps_sizes [OF mv] sz pi' mv p False show ?thesis
      by (auto simp: player_update_def)
  next
    case True
    have same: "g\<lparr>g_player := Some p, g_map := g_map g\<rparr> = g" using p by (cases g) simp
    show ?thesis
    proof (cases "f_arrived fi")
      case False
      have "player_update fi g = Some (Inr (g\<lparr>g_player := Some p, g_map := g_map g\<rparr>))"
        using False True p same by (simp add: player_update_def)
      with pi sz show ?thesis by blast
    next
      case arr: True
      let ?p = "p\<lparr>p_moving := False\<rparr>"
      have "player_update fi g = Some (Inr (g\<lparr>g_player := Some ?p, g_map := g_map g\<rparr>))"
        using arr True p by (simp add: player_update_def)
      moreover have "player_inv (blocks g) (g_map g) ?p" "population_size (p_ga ?p) = 10"
        "chromosome_length (p_ga ?p) = 10" using pi sz by simp_all
      ultimately show ?thesis by blast
    qed
  qed
qed

lemma game_evolve_ok:
  assumes ok: "ga_ok (g_ga g)" and sz: "population_size (g_ga g) = 100" "chromosome_length (g_ga g) = 50"
    and dr: "draws_ok 100 50 (f_gdraws fi)" and p: "g_player g = Some p"
  shows "\<exists>ga'. game_evolve fi g = Some (Inr (g\<lparr>g_ga := ga'\<rparr>)) \<and> ga_ok ga' \<and>
           population_size ga' = 100 \<and> chromosome_length ga' = 50"
proof (cases "get_target (ga_tilemap (g_ga g)) (p_tile p)")
  case None
  from ok sz have "population (g_ga g) \<noteq> []" by (auto simp: ga_ok_def)
  then have "game_evolve fi g = Some (Inr (g\<lparr>g_ga := g_ga g\<rparr>))"
    using None p by (simp add: game_evolve_def evolve_def)
  with ok sz show ?thesis by blast
next
  case (Some t)
  from dr sz have dr': "draws_ok (population_size (g_ga g)) (chromosome_length (g_ga g)) (f_gdraws fi)"
    by simp
  let ?w = "\<lparr>player_tile = p_tile p, enemy_tiles = enemy_positions g\<rparr>"
  from Some have "get_target (ga_tilemap (g_ga g)) (player_tile ?w) = Some t" by simp
  from ga_ok_evolve [OF ok dr' this] obtain ga' c where
    ev: "evolve (g_ga g) ?w (f_gdraws fi) = Some (Inr (ga', c))" and ok': "ga_ok ga'" by blast
  have "game_evolve fi g = Some (Inr (g\<lparr>g_ga := ga'\<rparr>))" using ev p by (simp add: game_evolve_def)
  with evolve_keeps [OF ev] sz ok' show ?thesis by auto
qed

lemma move_opt_ok:
  assumes step: "\<And>gh. ghost_ok m gh \<Longrightarrow> \<exists>gh'. f gh = Some gh' \<and> ghost_ok m gh'"
    and ok: "case x of None \<Rightarrow> True | Some gh \<Rightarrow> ghost_ok m gh"
  shows "\<exists>y. move_opt f x = Some y \<and> (case y of None \<Rightarrow> True | Some gh \<Rightarrow> ghost_ok m gh)"
proof (cases x)
  case (Some gh)
  with ok step [of gh] show ?thesis by (auto simp: move_opt_def)
qed (simp add: move_opt_def)

lemma ghost_steps_ok:
  assumes hyp: "hyp_ok hyp"
  shows "ghost_ok m gh \<Longrightarrow> \<exists>gh'. blinky_move hyp m pt now gh = Some gh' \<and> ghost_ok m gh'"
    "ghost_ok m gh \<Longrightarrow> \<exists>gh'. pinky_move hyp m pt dir now gh = Some gh' \<and> ghost_ok m gh'"
    "ghost_ok m gh \<Longrightarrow> \<exists>gh'. inky_move hyp m pt dir now gh = Some gh' \<and> ghost_ok m gh'"
    "ghost_ok m gh \<Longrightarrow> \<exists>gh'. clyde_move hyp m pt now gh = Some gh' \<and> ghost_ok m gh'"
  unfolding blinky_move_def pinky_move_def inky_move_def clyde_move_def
  by (rule ghost_move_total_ok [OF hyp search_ok_bfs bfs_total]
      ghost_move_total_ok [OF hyp search_ok_dfs_inky dfs_inky_total]
      ghost_move_total_ok [OF hyp search_ok_dfs_clyde dfs_clyde_total]; assumption)+

lemma ghosts_move_ok:
  assumes hyp: "hyp_ok hyp" and ok: "ghosts_ok g"
  shows "\<exists>b pk i c. ghosts_move hyp now p g = Some (g\<lparr>g_blinky := b, g_pinky := pk, g_inky := i, g_clyde := c\<rparr>) \<and>
           ghosts_ok (g\<lparr>g_blinky := b, g_pinky := pk, g_inky := i, g_clyde := c\<rparr>)"
proof -
  from ok have o: "case g_blinky g of None \<Rightarrow> True | Some gh \<Rightarrow> ghost_ok ghost_map gh"
    "case g_pinky g of None \<Rightarrow> True | Some gh \<Rightarrow> ghost_ok ghost_map gh"
    "case g_inky g of None \<Rightarrow> True | Some gh \<Rightarrow> ghost_ok ghost_map gh"
    "case g_clyde g of None \<Rightarrow> True | Some gh \<Rightarrow> ghost_ok ghost_map gh"
    by (simp_all add: ghosts_ok_def all_gnames_def get_ghost_def)
  obtain b where b: "move_opt (blinky_move hyp ghost_map (p_tile p) now) (g_blinky g) = Some b"
      and bo: "case b of None \<Rightarrow> True | Some gh \<Rightarrow> ghost_ok ghost_map gh"
    using move_opt_ok [where f = "blinky_move hyp ghost_map (p_tile p) now", OF ghost_steps_ok(1) [OF hyp] o(1)] by blast
  obtain pk where pk: "move_opt (pinky_move hyp ghost_map (p_tile p) (p_direction p) now) (g_pinky g) = Some pk"
      and pko: "case pk of None \<Rightarrow> True | Some gh \<Rightarrow> ghost_ok ghost_map gh"
    using move_opt_ok [where f = "pinky_move hyp ghost_map (p_tile p) (p_direction p) now", OF ghost_steps_ok(2) [OF hyp] o(2)] by blast
  obtain i where i: "move_opt (inky_move hyp ghost_map (p_tile p) (p_direction p) now) (g_inky g) = Some i"
      and io: "case i of None \<Rightarrow> True | Some gh \<Rightarrow> ghost_ok ghost_map gh"
    using move_opt_ok [where f = "inky_move hyp ghost_map (p_tile p) (p_direction p) now", OF ghost_steps_ok(3) [OF hyp] o(3)] by blast
  obtain c where c: "move_opt (clyde_move hyp ghost_map (p_tile p) now) (g_clyde g) = Some c"
      and co: "case c of None \<Rightarrow> True | Some gh \<Rightarrow> ghost_ok ghost_map gh"
    using move_opt_ok [where f = "clyde_move hyp ghost_map (p_tile p) now", OF ghost_steps_ok(4) [OF hyp] o(4)] by blast
  have "ghosts_move hyp now p g = Some (g\<lparr>g_blinky := b, g_pinky := pk, g_inky := i, g_clyde := c\<rparr>)"
    using b pk i c by (simp add: ghosts_move_def)
  moreover have "ghosts_ok (g\<lparr>g_blinky := b, g_pinky := pk, g_inky := i, g_clyde := c\<rparr>)"
    using bo pko io co by (simp add: ghosts_ok_def all_gnames_def get_ghost_def)
  ultimately show ?thesis by blast
qed

lemma collect_pellets_count:
  "pellet_count g = int (length (pellets g)) \<Longrightarrow>
   pellet_count (collect_pellets r g) = int (length (pellets (collect_pellets r g)))"
  using sum_length_filter_compl [of "\<lambda>q. colliderect r (pellet_rect q)" "pellets g"]
  by (simp add: collect_pellets_def Let_def)

lemma frame_book_keeps:
  "frame_book fi g = (out, g') \<Longrightarrow>
   g_player g' = g_player g \<and> g_map g' = g_map g \<and> blocks g' = blocks g \<and> g_ga g' = g_ga g \<and>
   get_ghost g' = get_ghost g \<and> enemies g' = enemies g"
  by (auto simp: frame_book_def finish_level_def collect_pellets_def handle_collision_def Let_def
      get_ghost_def split: if_splits)

lemma frame_book_count:
  assumes "pellet_count g = int (length (pellets g))" and "frame_book fi g = (out, g')"
  shows "pellet_count g' = int (length (pellets g')) \<and> (out = LevelDone \<longleftrightarrow> pellets g' = [])"
  using assms collect_pellets_count [OF assms(1), of "player_rect (f_pxy fi)"]
    collect_pellets_count [of "handle_collision (player_rect (f_pxy fi)) (f_hit_time fi) g" "player_rect (f_pxy fi)"]
  by (auto simp: frame_book_def finish_level_def handle_collision_def Let_def split: if_splits)

lemma game_inv_cong:
  assumes "game_inv g" "g_player g' = g_player g" "g_map g' = g_map g" "blocks g' = blocks g"
    "g_ga g' = g_ga g" "get_ghost g' = get_ghost g" "pellet_count g' = int (length (pellets g'))"
  shows "game_inv g'"
  using assms by (simp add: game_inv_def ghosts_ok_def split: option.splits)

lemma game_frame_ok:
  assumes inv: "game_inv g" and hyp: "hyp_ok hyp"
    and pd: "draws_ok 10 10 (f_pdraws fi)" and gd: "draws_ok 100 50 (f_gdraws fi)"
  shows "\<exists>out g'. game_frame hyp fi g = Some (Inr (out, g')) \<and> game_inv g'"
proof -
  from player_update_ok [OF inv pd] obtain p' m' where
    pu: "player_update fi g = Some (Inr (g\<lparr>g_player := Some p', g_map := m'\<rparr>))"
    and pi: "player_inv (blocks g) m' p'" "population_size (p_ga p') = 10" "chromosome_length (p_ga p') = 10"
    by blast
  define g1 where "g1 = g\<lparr>g_player := Some p', g_map := m'\<rparr>"
  from inv have ga: "ga_ok (g_ga g1)" "population_size (g_ga g1) = 100" "chromosome_length (g_ga g1) = 50"
    by (simp_all add: game_inv_def g1_def)
  from game_evolve_ok [OF ga gd, of p'] obtain ga' where
    ge: "game_evolve fi g1 = Some (Inr (g1\<lparr>g_ga := ga'\<rparr>))"
    and ga': "ga_ok ga'" "population_size ga' = 100" "chromosome_length ga' = 50"
    by (auto simp: g1_def)
  define g2 where "g2 = g1\<lparr>g_ga := ga'\<rparr>"
  have inv2: "game_inv g2"
    using inv pi ga' by (simp add: game_inv_def ghosts_ok_def g2_def g1_def)
  show ?thesis
  proof (cases "loop_events (f_events fi)")
    case (Some out)
    with pu ge inv2 show ?thesis by (simp add: game_frame_def g1_def g2_def)
  next
    case None
    from inv2 have gok: "ghosts_ok g2" by (simp add: game_inv_def)
    from ghosts_move_ok [OF hyp gok, of "f_ticks fi" p'] obtain b pk i c where
      gm: "ghosts_move hyp (f_ticks fi) p' g2 = Some (g2\<lparr>g_blinky := b, g_pinky := pk, g_inky := i, g_clyde := c\<rparr>)"
      and gok3: "ghosts_ok (g2\<lparr>g_blinky := b, g_pinky := pk, g_inky := i, g_clyde := c\<rparr>)"
      by blast
    define g3 where "g3 = g2\<lparr>g_blinky := b, g_pinky := pk, g_inky := i, g_clyde := c\<rparr>"
    have inv3: "game_inv g3"
      using inv2 gok3 by (simp add: game_inv_def g3_def split: option.splits)
    obtain out g4 where fb: "frame_book fi g3 = (out, g4)" by (cases "frame_book fi g3")
    have inv4: "game_inv g4"
    proof (rule game_inv_cong [OF inv3])
      show "g_player g4 = g_player g3" "g_map g4 = g_map g3" "blocks g4 = blocks g3" "g_ga g4 = g_ga g3"
        "get_ghost g4 = get_ghost g3"
        using frame_book_keeps [OF fb] by simp_all
      show "pellet_count g4 = int (length (pellets g4))"
        using frame_book_count [OF _ fb] inv3 by (simp add: game_inv_def)
    qed
    have "game_frame hyp fi g = Some (Inr (out, g4))"
      using pu ge None gm fb by (simp add: game_frame_def g1_def g2_def g3_def)
    with inv4 show ?thesis by blast
  qed
qed

subsection \<open>Lemmas: levels and the game loop\<close>

lemma ga_ok_init: "4 \<le> ps \<Longrightarrow> 2 \<le> cl \<Longrightarrow> ga_ok (ga_init ps cl rate m draw)"
  by (simp add: ga_ok_def ga_init_def initialize_population_def)

lemma player_init_inv:
  "player_inv (wall_tiles original_tilemap) original_tilemap (player_init original_tilemap (2, 9) draw)"
proof -
  have wf: "wf_tilemap original_tilemap" by (rule wf_original_tilemap)
  have tp: "teleport_ok original_tilemap" by code_simp
  have w: "is_walkable original_tilemap (2, 9)" by code_simp
  show ?thesis using wf tp w set_wall_tiles [OF wf] ga_ok_init [of 10 10]
    by (simp add: player_inv_def player_init_def)
qed

lemma ghost_spawns_walkable:
  "can_move_to ghost_map (8, 9)" "can_move_to ghost_map (9, 9)"
  "can_move_to ghost_map (11, 9)" "can_move_to ghost_map (12, 9)"
  by (simp_all add: ghost_map_def) code_simp+

lemma init_game_inv:
  assumes pre: "game_pre g" and ok: "init_game t0 draw g = Inr g'"
  shows "game_inv g'"
proof -
  note f = init_game_fields [OF ok]
  have pl: "case g_player g' of None \<Rightarrow> False
      | Some p \<Rightarrow> player_inv (blocks g') (g_map g') p \<and>
                  population_size (p_ga p) = 10 \<and> chromosome_length (p_ga p) = 10"
    using init_game_player [OF ok] player_init_inv f
    by (simp add: player_init_def ga_init_def)
  have old: "list_all (\<lambda>n. case get_ghost g n of None \<Rightarrow> True | Some gh \<Rightarrow> ghost_ok ghost_map gh) all_gnames"
    using pre by (simp add: game_pre_def ghosts_ok_def)
  have "ghosts_ok g'"
    using old init_game_ghost [OF ok, of Blinky] init_game_ghost [OF ok, of Pinky]
      init_game_ghost [OF ok, of Inky] init_game_ghost [OF ok, of Clyde] ghost_spawns_walkable
    by (cases "difficulty g") (simp_all add: ghosts_ok_def all_gnames_def ghost_marker_def ghost_ok_init)
  with pl pre f show ?thesis by (simp add: game_inv_def game_pre_def)
qed

lemma game_inv_pre: "game_inv g \<Longrightarrow> game_pre g"
  by (simp add: game_inv_def game_pre_def)

lemma game_inv_level_start [simp]: "game_inv (g\<lparr>level_start_time := t\<rparr>) = game_inv g"
  by (simp add: game_inv_def ghosts_ok_def split: option.split)

lemma game_inv_counters [simp]: "game_inv (g\<lparr>total_score := s, current_level := l\<rparr>) = game_inv g"
  by (simp add: game_inv_def ghosts_ok_def split: option.split)

lemma run_level_ok:
  "game_inv g \<Longrightarrow> hyp_ok hyp \<Longrightarrow> frames_ok fs \<Longrightarrow>
   \<exists>out g'. run_level hyp fs g = Some (Inr (out, g')) \<and> game_inv g'"
proof (induction fs arbitrary: g)
  case Nil
  then show ?case by simp
next
  case (Cons fi fs)
  from Cons.prems have dr: "draws_ok 10 10 (f_pdraws fi)" "draws_ok 100 50 (f_gdraws fi)" "frames_ok fs"
    by (simp_all add: frames_ok_def)
  from game_frame_ok [OF Cons.prems(1,2) dr(1,2)] obtain out g' where
    fr: "game_frame hyp fi g = Some (Inr (out, g'))" and inv: "game_inv g'" by blast
  show ?case
  proof (cases "out = Running")
    case True
    with fr Cons.IH [OF inv Cons.prems(2) dr(3)] show ?thesis by simp
  next
    case False
    with fr inv show ?thesis by (cases out) simp_all
  qed
qed

lemma play_levels_ok:
  "game_inv g \<Longrightarrow> hyp_ok hyp \<Longrightarrow> list_all (\<lambda>li. frames_ok (l_frames li)) lis \<Longrightarrow>
   \<exists>r g'. play_levels hyp lis g = Some (Inr (r, g')) \<and> game_inv g'"
proof (induction lis arbitrary: g)
  case Nil
  then show ?case by simp
next
  case (Cons li lis)
  show ?case
  proof (cases "current_level g \<le> levels g")
    case True
    obtain g1 where ig: "init_game (l_ticks li) (l_draw li) g = Inr g1"
      by (metis init_game_eq)
    have inv1: "game_inv (g1\<lparr>level_start_time := l_start li\<rparr>)"
      using init_game_inv [OF game_inv_pre [OF Cons.prems(1)] ig] by simp
    from Cons.prems(3) have fs: "frames_ok (l_frames li)" and rest: "list_all (\<lambda>li. frames_ok (l_frames li)) lis"
      by simp_all
    from run_level_ok [OF inv1 Cons.prems(2) fs] obtain out g2 where
      rl: "run_level hyp (l_frames li) (g1\<lparr>level_start_time := l_start li\<rparr>) = Some (Inr (out, g2))"
      and inv2: "game_inv g2" by blast
    show ?thesis
    proof (cases out)
      case LevelDone
      with True ig rl Cons.IH [OF inv2 Cons.prems(2) rest] show ?thesis by simp
    qed (use True ig rl inv2 in simp_all)
  next
    case False
    with Cons.prems(1) show ?thesis by simp
  qed
qed

subsection \<open>Lemmas: the parts of a frame\<close>

lemma loop_events_out: "loop_events es = Some out \<Longrightarrow> out = BackToMenu \<or> out = Exit"
  by (induction es rule: loop_events.induct) (auto split: if_splits)

lemma player_update_Inr:
  "player_update fi g = Some (Inr g1) \<Longrightarrow> g1 = g\<lparr>g_player := g_player g1, g_map := g_map g1\<rparr>"
  by (auto simp: player_update_def split: option.splits if_splits sum.splits)

lemma game_evolve_Inr: "game_evolve fi g = Some (Inr g1) \<Longrightarrow> g1 = g\<lparr>g_ga := g_ga g1\<rparr>"
  by (auto simp: game_evolve_def split: option.splits sum.splits)

lemma ghosts_move_Some:
  "ghosts_move hyp now p g = Some g1 \<Longrightarrow>
   g1 = g\<lparr>g_blinky := g_blinky g1, g_pinky := g_pinky g1, g_inky := g_inky g1, g_clyde := g_clyde g1\<rparr>"
  unfolding ghosts_move_def by (auto simp: bind_eq_Some_conv)

lemma game_frame_Inr_cases:
  assumes fr: "game_frame hyp fi g = Some (Inr (out, g'))"
  obtains (events) g1 where "player_update fi g = Some (Inr g1)" "game_evolve fi g1 = Some (Inr g')"
      "loop_events (f_events fi) = Some out"
    | (frame) g1 g2 p g3 where "player_update fi g = Some (Inr g1)" "game_evolve fi g1 = Some (Inr g2)"
      "loop_events (f_events fi) = None" "g_player g2 = Some p" "ghosts_move hyp (f_ticks fi) p g2 = Some g3"
      "frame_book fi g3 = (out, g')"
proof -
  obtain r1 where r1: "player_update fi g = Some r1"
    using fr by (cases "player_update fi g") (simp_all add: game_frame_def)
  then obtain g1 where pu: "player_update fi g = Some (Inr g1)"
    using fr by (cases r1) (simp_all add: game_frame_def)
  obtain r2 where r2: "game_evolve fi g1 = Some r2"
    using fr pu by (cases "game_evolve fi g1") (simp_all add: game_frame_def)
  then obtain g2 where ge: "game_evolve fi g1 = Some (Inr g2)"
    using fr pu by (cases r2) (simp_all add: game_frame_def)
  show ?thesis
  proof (cases "loop_events (f_events fi)")
    case (Some o')
    with fr pu ge show ?thesis by (intro events [OF pu]) (simp_all add: game_frame_def)
  next
    case None
    obtain p where p: "g_player g2 = Some p"
      using fr pu ge None by (cases "g_player g2") (simp_all add: game_frame_def)
    obtain g3 where gm: "ghosts_move hyp (f_ticks fi) p g2 = Some g3"
      using fr pu ge None p by (cases "ghosts_move hyp (f_ticks fi) p g2") (simp_all add: game_frame_def)
    have "frame_book fi g3 = (out, g')"
      using fr pu ge None p gm by (simp add: game_frame_def)
    with pu ge None p gm show ?thesis by (rule frame)
  qed
qed

lemma game_frame_book:
  assumes fr: "game_frame hyp fi g = Some (Inr (out, g'))" and ev: "loop_events (f_events fi) = None"
  shows "\<exists>g3. frame_book fi g3 = (out, g') \<and> score_state g3 = score_state g"
  using fr
proof (cases rule: game_frame_Inr_cases)
  case events
  with ev show ?thesis by simp
next
  case (frame g1 g2 p g3)
  have "score_state g1 = score_state g" by (subst player_update_Inr [OF frame(1)]) (simp add: score_state_def)
  moreover have "score_state g2 = score_state g1" by (subst game_evolve_Inr [OF frame(2)]) (simp add: score_state_def)
  moreover have "score_state g3 = score_state g2" by (subst ghosts_move_Some [OF frame(5)]) (simp add: score_state_def)
  ultimately show ?thesis using frame(6) by auto
qed

lemma game_frame_ga_map:
  assumes fr: "game_frame hyp fi g = Some (Inr (out, g'))"
  shows "ga_tilemap (g_ga g') = ga_tilemap (g_ga g)"
  using fr
proof (cases rule: game_frame_Inr_cases)
  case (events g1)
  have "g_ga g1 = g_ga g" by (subst player_update_Inr [OF events(1)]) simp
  with events(2) show ?thesis by (auto simp: game_evolve_def dest!: evolve_keeps split: option.splits sum.splits)
next
  case (frame g1 g2 p g3)
  have "g_ga g1 = g_ga g" by (subst player_update_Inr [OF frame(1)]) simp
  moreover have "ga_tilemap (g_ga g2) = ga_tilemap (g_ga g1)"
    using frame(2) by (auto simp: game_evolve_def dest!: evolve_keeps split: option.splits sum.splits)
  moreover have "g_ga g3 = g_ga g2" by (subst ghosts_move_Some [OF frame(5)]) simp
  ultimately show ?thesis using frame_book_keeps [OF frame(6)] by simp
qed

lemma demo_game_draws_ok: "draws_ok 100 50 demo_game_draws"
  by (simp add: draws_ok_def demo_game_draws_def perm_of_def list_all_iff)

lemma demo_frames_ok: "frames_ok [demo_frame]"
  using demo_player_draws_ok demo_game_draws_ok by (simp add: frames_ok_def demo_frame_def)

lemma game_init_pre: "game_pre (game_init d draw now)"
  using ga_ok_init [of 100 50]
  by (simp add: game_pre_def game_init_def ghosts_ok_def all_gnames_def get_ghost_def ga_init_def)

lemma game_inv_menu [simp]: "game_inv (g\<lparr>difficulty := d, levels := n\<rparr>) = game_inv g"
  by (simp add: game_inv_def ghosts_ok_def split: option.split)

lemma game_loop_no_levels:
  assumes lv: "levels g \<le> 0"
  shows "\<exists>g'. game_loop hyp li0 lis g = Some (Inr (Completed, g')) \<and> total_score g' = 0 \<and>
           total_elapsed_time g' = total_elapsed_time g"
proof -
  obtain g1 where ig: "init_game (l_ticks li0) (l_draw li0) g = Inr g1" by (metis init_game_eq)
  note f = init_game_fields [OF ig]
  have "play_levels hyp lis (g1\<lparr>total_score := 0, current_level := 1\<rparr>) =
          Some (Inr (Completed, g1\<lparr>total_score := 0, current_level := 1\<rparr>))"
    using lv f by (cases lis) simp_all
  with ig f show ?thesis by (simp add: game_loop_def)
qed

subsection \<open>Properties of the game\<close>

text \<open>C33: \<open>game_loop\<close> (two \<open>init_game\<close>s, then each level's frames: the player's move step, the game's \<open>evolve\<close>, the events, the four ghosts' \<open>move\<close>, the collision and pellet bookkeeping) never raises an exception and never runs forever, for any level count, difficulty and event sequence and any draws the random library can produce; and the state it leaves satisfies the game invariant: the player on a walkable tile of a rectangular map with the blocks as its walls, every ghost object (including ones left from an earlier game) on a walkable tile moving along a walkable path, both genetic algorithms well shaped, the pellet counter equal to the number of pellet sprites.\<close>

theorem game_loop_safe:
  assumes hyp: "hyp_ok hyp" and pre: "game_pre g"
    and fs: "list_all (\<lambda>li. frames_ok (l_frames li)) lis"
  shows "\<exists>r g'. game_loop hyp li0 lis g = Some (Inr (r, g')) \<and> game_inv g'"
proof -
  obtain g1 where ig: "init_game (l_ticks li0) (l_draw li0) g = Inr g1" by (metis init_game_eq)
  have "game_inv (g1\<lparr>total_score := 0, current_level := 1\<rparr>)"
    using init_game_inv [OF pre ig] by simp
  from play_levels_ok [OF this hyp fs] ig show ?thesis by (simp add: game_loop_def)
qed

theorem game_loop_safe_witness:
  "\<exists>r g'. game_loop (\<lambda>a b. \<bar>a\<bar> + \<bar>b\<bar>) demo_level [demo_level] (game_init Easy (\<lambda>i j. UP) 0) =
     Some (Inr (r, g')) \<and> game_inv g'"
  using game_loop_safe [OF hyp_ok_taxi game_init_pre, of "[demo_level]"] demo_frames_ok
  by (simp add: demo_level_def)

text \<open>C35: \<open>init_game\<close> resets the map, creates the player on its \<open>P\<close> tile, Blinky always, Pinky from \<open>medium\<close>, Inky from \<open>hard\<close> and Clyde only at \<open>very_hard\<close> (the enemies in map order), one block per wall and one pellet sprite per pellet tile, counts 169 pellets and zeroes the level score; a ghost the difficulty does not create keeps the object of an earlier game.\<close>

theorem init_game_spawns:
  "\<exists>g'. init_game t0 draw g = Inr g' \<and>
     enemies g' = (case difficulty g of Easy \<Rightarrow> [Blinky] | Medium \<Rightarrow> [Blinky, Pinky]
                   | Hard \<Rightarrow> [Inky, Blinky, Pinky] | VeryHard \<Rightarrow> [Inky, Blinky, Pinky, Clyde]) \<and>
     g_player g' = Some (player_init original_tilemap (2, 9) draw) \<and>
     g_blinky g' = Some (ghost_init t0 (9, 9)) \<and>
     g_pinky g' = (if difficulty g = Easy then g_pinky g else Some (ghost_init t0 (11, 9))) \<and>
     g_inky g' = (if difficulty g \<in> {Hard, VeryHard} then Some (ghost_init t0 (8, 9)) else g_inky g) \<and>
     g_clyde g' = (if difficulty g = VeryHard then Some (ghost_init t0 (12, 9)) else g_clyde g) \<and>
     blocks g' = wall_tiles original_tilemap \<and>
     set (pellets g') = {q. in_bounds original_tilemap q \<and> is_pellet original_tilemap q} \<and>
     pellet_count g' = 169 \<and> score g' = 0"
proof -
  obtain g' where ig: "init_game t0 draw g = Inr g'" by (metis init_game_eq)
  have gh: "g_blinky g' = get_ghost g' Blinky" "g_pinky g' = get_ghost g' Pinky"
    "g_inky g' = get_ghost g' Inky" "g_clyde g' = get_ghost g' Clyde" by (simp_all add: get_ghost_def)
  have "g_blinky g' = Some (ghost_init t0 (9, 9)) \<and>
     g_pinky g' = (if difficulty g = Easy then g_pinky g else Some (ghost_init t0 (11, 9))) \<and>
     g_inky g' = (if difficulty g \<in> {Hard, VeryHard} then Some (ghost_init t0 (8, 9)) else g_inky g) \<and>
     g_clyde g' = (if difficulty g = VeryHard then Some (ghost_init t0 (12, 9)) else g_clyde g)"
    unfolding gh init_game_ghost [OF ig]
    by (cases "difficulty g") (simp_all add: ghost_marker_def get_ghost_def)
  with ig init_game_enemies [OF ig] init_game_player [OF ig] init_game_fields [OF ig] show ?thesis
    by simp
qed

lemma demo_game_inv: "\<exists>g. init_game 0 (\<lambda>i j. UP) (game_init Easy (\<lambda>i j. UP) 0) = Inr g \<and> game_inv g"
proof -
  obtain g where ig: "init_game 0 (\<lambda>i j. UP) (game_init Easy (\<lambda>i j. UP) 0) = Inr g" by (metis init_game_eq)
  with init_game_inv [OF game_init_pre ig] show ?thesis by blast
qed

text \<open>C36: from a state satisfying the game invariant, a frame without a back or quit event completes the level exactly when no pellet sprite is left after its pellet pick-up.\<close>

theorem frame_level_done:
  assumes inv: "game_inv g" and fr: "game_frame hyp fi g = Some (Inr (out, g'))"
    and ev: "loop_events (f_events fi) = None"
  shows "out = LevelDone \<longleftrightarrow> pellets g' = []"
proof -
  from game_frame_book [OF fr ev] obtain g3 where fb: "frame_book fi g3 = (out, g')"
    and ss: "score_state g3 = score_state g" by blast
  from inv ss have "pellet_count g3 = int (length (pellets g3))"
    by (simp add: game_inv_def score_state_def)
  from frame_book_count [OF this fb] show ?thesis by simp
qed

theorem frame_level_done_witness:
  "\<exists>g out g'. init_game 0 (\<lambda>i j. UP) (game_init Easy (\<lambda>i j. UP) 0) = Inr g \<and>
     game_frame (\<lambda>a b. \<bar>a\<bar> + \<bar>b\<bar>) demo_frame g = Some (Inr (out, g')) \<and> (out = LevelDone \<longleftrightarrow> pellets g' = [])"
proof -
  from demo_game_inv obtain g where ig: "init_game 0 (\<lambda>i j. UP) (game_init Easy (\<lambda>i j. UP) 0) = Inr g"
    and inv: "game_inv g" by blast
  from demo_frames_ok have dr: "draws_ok 10 10 (f_pdraws demo_frame)" "draws_ok 100 50 (f_gdraws demo_frame)"
    by (simp_all add: frames_ok_def)
  from game_frame_ok [OF inv hyp_ok_taxi dr] obtain out g' where
    fr: "game_frame (\<lambda>a b. \<bar>a\<bar> + \<bar>b\<bar>) demo_frame g = Some (Inr (out, g'))" by blast
  have ev: "loop_events (f_events demo_frame) = None" by (simp add: demo_frame_def)
  from ig fr frame_level_done [OF inv fr ev] show ?thesis by blast
qed

text \<open>C37: in a frame that does not end the level, the score changes by 100 per collected pellet sprite and by -500 when a collision is charged; a charged collision moves the collision clock to the frame's time, which is at least the cooldown (one second) after the previous charged collision.\<close>

theorem collision_cooldown:
  assumes fb: "frame_book fi g = (Running, g')"
  shows "(last_collision_time g' \<noteq> last_collision_time g \<longrightarrow>
            last_collision_time g' = f_hit_time fi \<and>
            last_collision_time g + collision_cooldown_duration \<le> f_hit_time fi) \<and>
         score g' = score g + 100 * (int (length (pellets g)) - int (length (pellets g'))) -
                    (if last_collision_time g' = last_collision_time g then 0 else 500)"
proof -
  let ?r = "player_rect (f_pxy fi)"
  let ?P = "\<lambda>q. colliderect ?r (pellet_rect q)"
  have g': "g' = collect_pellets ?r (handle_collision ?r (f_hit_time fi) g)"
    using fb by (simp add: frame_book_def Let_def split: if_splits)
  have len: "int (length (pellets g)) - int (length (filter (\<lambda>q. \<not> ?P q) (pellets g))) =
             int (length (filter ?P (pellets g)))"
    using sum_length_filter_compl [of ?P "pellets g"] by linarith
  show ?thesis
    unfolding g' using len
    by (auto simp: collect_pellets_def handle_collision_def collision_cooldown_duration_def Let_def)
qed

theorem collision_cooldown_witness:
  "\<exists>g'. frame_book demo_frame demo_game = (Running, g') \<and> last_collision_time g' = 9/2 \<and> score g' = 100"
proof -
  obtain out g' where fb: "frame_book demo_frame demo_game = (out, g')" by (cases "frame_book demo_frame demo_game")
  have ev: "out = Running \<and> pellets g' = [(5, 9)] \<and> last_collision_time g' = 9/2"
    using fb [symmetric]
    by (simp add: frame_book_def collect_pellets_def handle_collision_def hits_enemy_def colliderect_def
        ghost_rect_def pellet_rect_def player_rect_def py_round_def ghost_init_def px_def tilesize_def
        collision_cooldown_duration_def get_ghost_def demo_frame_def demo_game_def game_init_def Let_def)
  have s0: "score demo_game = 0" "last_collision_time demo_game = 9/2" "pellets demo_game = [(2, 9), (5, 9)]"
    by (simp_all add: demo_game_def game_init_def)
  from ev fb have fb': "frame_book demo_frame demo_game = (Running, g')" by simp
  from collision_cooldown [OF fb'] ev s0 fb' show ?thesis by auto
qed

text \<open>C38: when no level count was entered on the intro screen (\<open>self.levels\<close> stays 0), \<open>game_loop\<close> plays no level and ends the \<open>while\<close> loop at once, so the "YOU WIN!" screen follows with a total score of 0; the total time it reports is the previous games' total time, which is never reset.\<close>

theorem game_loop_zero_levels:
  assumes lv: "levels g \<le> 0"
  shows "\<exists>g'. game_loop hyp li0 lis g = Some (Inr (Completed, g')) \<and> total_score g' = 0 \<and>
           total_elapsed_time g' = total_elapsed_time g"
  using game_loop_no_levels [OF lv] .

theorem game_loop_zero_levels_witness:
  "\<exists>g'. game_loop (\<lambda>a b. \<bar>a\<bar> + \<bar>b\<bar>) demo_level [demo_level] (game_init Easy (\<lambda>i j. UP) 0) =
     Some (Inr (Completed, g')) \<and> total_score g' = 0 \<and> total_elapsed_time g' = 0"
proof -
  have "levels (game_init Easy (\<lambda>i j. UP) 0) \<le> 0" "total_elapsed_time (game_init Easy (\<lambda>i j. UP) 0) = 0"
    by (simp_all add: game_init_def)
  with game_loop_zero_levels [of "game_init Easy (\<lambda>i j. UP) 0" "\<lambda>a b. \<bar>a\<bar> + \<bar>b\<bar>" demo_level "[demo_level]"]
  show ?thesis by simp
qed

text \<open>C34: every state a \<open>Game\<close> object reaches during play (new games, the intro screen's settings, level set-ups and frames with admissible draws) is well formed: the game invariant holds, and the game's own genetic algorithm still plans on the original map, with every pellet present, whatever the player has eaten.\<close>

theorem game_reach_inv:
  assumes "game_reach hyp g" and hyp: "hyp_ok hyp"
  shows "game_inv g \<and> ga_tilemap (g_ga g) = original_tilemap"
  using assms(1)
proof (induction rule: game_reach.induct)
  case (new_game t0 draw' d draw now g)
  from init_game_inv [OF game_init_pre new_game] init_game_fields(6) [OF new_game] show ?case
    by (simp add: game_init_def ga_init_def)
next
  case (menu g d n)
  then show ?case by simp
next
  case (restart g t0 draw g')
  have "game_inv g'" using init_game_inv [OF game_inv_pre [OF conjunct1 [OF restart.IH]] restart.hyps(2)] .
  with restart.IH init_game_fields(6) [OF restart.hyps(2)] show ?case by simp
next
  case (level g t0 draw g' t)
  have "game_inv g'" using init_game_inv [OF game_inv_pre [OF conjunct1 [OF level.IH]] level.hyps(2)] .
  with level.IH init_game_fields(6) [OF level.hyps(2)] show ?case by simp
next
  case (frame g fi out g')
  from frame.hyps(2) have dr: "draws_ok 10 10 (f_pdraws fi)" "draws_ok 100 50 (f_gdraws fi)"
    by (simp_all add: frames_ok_def)
  from game_frame_ok [OF conjunct1 [OF frame.IH] hyp dr] frame.hyps(3) have "game_inv g'" by auto
  with game_frame_ga_map [OF frame.hyps(3)] frame.IH show ?case by simp
qed

theorem game_reach_inv_witness:
  "\<exists>g. init_game 0 (\<lambda>i j. UP) (game_init Easy (\<lambda>i j. UP) 0) = Inr g \<and>
       game_inv g \<and> ga_tilemap (g_ga g) = original_tilemap"
proof -
  obtain g where ig: "init_game 0 (\<lambda>i j. UP) (game_init Easy (\<lambda>i j. UP) 0) = Inr g" by (metis init_game_eq)
  from game_reach_inv [OF game_reach.new_game [OF ig] hyp_ok_taxi] ig show ?thesis by blast
qed

end
