(* ===== verification/GhostTiles.thy ===== *)
theory GhostTiles
  imports Ghosts
begin

text \<open>
  The tile-level view of the ghosts of \<open>src/object.py\<close>. The abstract
  specification is a walker on the maze that, at each tick, stays on its tile or
  steps to an orthogonally adjacent tile the ghosts may enter (\<open>tile_step\<close>).
  A concrete ghost is the record \<open>ghost\<close> with its pixel position, target tile
  and remaining path, driven by \<open>move()\<close> (\<open>ghost_move\<close>) with any search that
  returns walks of enterable tiles; \<open>ghost_run\<close> is the set of its states
  reachable from a spawn tile. The abstraction is the ghost's tile
  (\<open>tile_x, tile_y\<close>); the refinement theorem is a simulation: each \<open>move()\<close>
  maps to a step of the walker, so every reachable ghost state sits on a tile the
  walker reaches from the spawn.
\<close>

definition tile_step :: "tilemap \<Rightarrow> pos \<Rightarrow> pos \<Rightarrow> bool" where
  "tile_step m a b \<longleftrightarrow> a = b \<or> (adjacent a b \<and> can_move_to m b)"

inductive ghost_run :: "(rat \<Rightarrow> rat \<Rightarrow> rat) \<Rightarrow> tilemap \<Rightarrow> pos \<Rightarrow> ghost \<Rightarrow> bool"
  for hyp m q0 where
  spawn: "ghost_run hyp m q0 (ghost_init t0 q0)"
| move: "ghost_run hyp m q0 gh \<Longrightarrow> search_ok m search \<Longrightarrow> ghost_move hyp search goal now gh = Some gh' \<Longrightarrow>
    ghost_run hyp m q0 gh'"

lemma ghost_slide_tile: "gtile (ghost_slide hyp tt gh) = tt \<or> gtile (ghost_slide hyp tt gh) = gtile gh"
  by (simp add: ghost_slide_def Let_def)

lemma ghost_plan_tile:
  assumes pl: "ghost_plan search goal now gh = Some gh'"
  shows "gtile gh' = gtile gh"
proof (cases "\<not> is_moving gh \<and> gpath gh = []")
  case True
  then obtain p where p: "search (gtile gh) goal = Some p"
    using pl by (cases "search (gtile gh) goal") (simp_all add: ghost_plan_def)
  with True pl show ?thesis
    by (cases p) (auto simp: ghost_plan_def start_moving_def)
next
  case False
  with pl show ?thesis
    by (cases "gpath gh") (auto simp: ghost_plan_def start_moving_def)
qed

lemma ghost_move_simulates:
  assumes ok: "ghost_ok m gh" and mv: "ghost_move hyp search goal now gh = Some gh'"
  shows "tile_step m (gtile gh) (gtile gh')"
proof (cases "target_tile gh \<noteq> None \<and> is_moving gh")
  case True
  then obtain tt where tt: "target_tile gh = Some tt" and mov: "is_moving gh" by auto
  from ok tt mov have "adjacent (gtile gh) tt \<and> can_move_to m tt" by (simp add: ghost_ok_def)
  moreover from mv True tt have "gh' = ghost_slide hyp tt gh" by (simp add: ghost_move_def)
  ultimately show ?thesis using ghost_slide_tile [of hyp tt gh] by (auto simp: tile_step_def)
next
  case False
  with mv have "gtile gh' = gtile gh"
    by (auto simp: ghost_move_def dest: ghost_plan_tile split: if_splits)
  then show ?thesis by (simp add: tile_step_def)
qed

text \<open>C28: every state a ghost reaches from a walkable spawn tile by calls of \<open>move()\<close> (with searches that return walks of enterable tiles) refines the abstract tile walker: its tile is reached from the spawn by steps that stay put or move to an orthogonally adjacent enterable tile, and the ghost invariant holds; the pixel motion never makes a ghost skip a tile, cross a wall or leave the map.\<close>

theorem ghost_refines_tile_walk:
  assumes run: "ghost_run hyp m q0 gh" and hyp: "hyp_ok hyp" and q0: "can_move_to m q0"
  shows "(tile_step m)\<^sup>*\<^sup>* q0 (gtile gh) \<and> ghost_ok m gh"
  using run
proof (induction rule: ghost_run.induct)
  case (spawn t0)
  have "gtile (ghost_init t0 q0) = q0" by (simp add: ghost_init_def)
  with q0 ghost_ok_init [of m t0 q0] show ?case by simp
next
  case (move gh search goal now gh')
  from move.IH have ok: "ghost_ok m gh" ..
  have "ghost_ok m gh'" using ghost_move_ok [OF hyp move.hyps(2) ok move.hyps(3)] .
  with move.IH ghost_move_simulates [OF ok move.hyps(3)] show ?case
    by (meson rtranclp.rtrancl_into_rtrancl)
qed

theorem ghost_refines_tile_walk_witness:
  "\<exists>gh'. blinky_move (\<lambda>a b. \<bar>a\<bar> + \<bar>b\<bar>) original_tilemap (2, 9) 10 (ghost_init 0 (9, 9)) = Some gh' \<and>
         (tile_step original_tilemap)\<^sup>*\<^sup>* (9, 9) (gtile gh')"
proof -
  obtain gh' where mv: "blinky_move (\<lambda>a b. \<bar>a\<bar> + \<bar>b\<bar>) original_tilemap (2, 9) 10 (ghost_init 0 (9, 9)) = Some gh'"
    using ghost_move_total [OF bfs_total] unfolding blinky_move_def by blast
  have run: "ghost_run (\<lambda>a b. \<bar>a\<bar> + \<bar>b\<bar>) original_tilemap (9, 9) gh'"
    using ghost_run.move [OF ghost_run.spawn search_ok_bfs mv [unfolded blinky_move_def]] .
  from ghost_refines_tile_walk [OF run hyp_ok_taxi blinky_spawn_ok] mv show ?thesis by blast
qed

end
