(* ===== verification/Menu.thy ===== *)
theory Menu
  imports Game
begin

text \<open>
  The screens around the game loop in \<open>src/main.py\<close>: the event handling of
  \<open>intro_screen\<close> (the difficulty buttons and hotkeys, the level-count input box
  and its conversion with Python's \<open>int()\<close>), the event handling of
  \<open>game_over_screen\<close>, and the \<open>__main__\<close> loop that runs the intro screen,
  \<open>game_loop\<close> and the game-over screen. Drawing, fonts and the fitness chart
  window are not modelled; an event list stands for the events of one frame.
\<close>

subsection \<open>Python's \<open>int()\<close> of a string\<close>

text \<open>\<open>int(s)\<close> for a string of Latin-1 characters: surrounding whitespace
  (\<open>str.isspace\<close>) is stripped, an optional sign follows, then decimal digits
  with single underscores between them; anything else raises \<open>ValueError\<close>
  (\<open>None\<close>).\<close>

definition py_space :: "char \<Rightarrow> bool" where
  "py_space c \<longleftrightarrow> of_char c \<in> {9, 10, 11, 12, 13, 28, 29, 30, 31, 32, 133, 160 :: nat}"

definition py_strip :: "string \<Rightarrow> string" where
  "py_strip s = rev (dropWhile py_space (rev (dropWhile py_space s)))"

definition is_digit :: "char \<Rightarrow> bool" where
  "is_digit c \<longleftrightarrow> 48 \<le> (of_char c :: nat) \<and> (of_char c :: nat) \<le> 57"

fun no_double_underscore :: "string \<Rightarrow> bool" where
  "no_double_underscore (a # b # cs) \<longleftrightarrow>
     \<not> (a = CHR ''_'' \<and> b = CHR ''_'') \<and> no_double_underscore (b # cs)"
| "no_double_underscore cs \<longleftrightarrow> True"

definition digits_value :: "string \<Rightarrow> int" where
  "digits_value s =
     foldl (\<lambda>acc c. if c = CHR ''_'' then acc else 10 * acc + (int (of_char c) - 48)) 0 s"

definition py_digits :: "string \<Rightarrow> int option" where
  "py_digits s =
     (if s \<noteq> [] \<and> list_all (\<lambda>c. is_digit c \<or> c = CHR ''_'') s \<and> is_digit (hd s) \<and> is_digit (last s) \<and>
         no_double_underscore s
      then Some (digits_value s) else None)"

definition py_int :: "string \<Rightarrow> int option" where
  "py_int s =
     (case py_strip s of
        [] \<Rightarrow> None
      | c # cs \<Rightarrow>
          if c = CHR ''-'' then map_option uminus (py_digits cs)
          else if c = CHR ''+'' then py_digits cs
          else py_digits (c # cs))"

subsection \<open>The intro screen\<close>

text \<open>The rectangles of \<open>intro_screen\<close>: the four difficulty buttons and the
  input box.\<close>

definition easy_button :: rect where
  "easy_button = (SCREEN_WIDTH div 2 - 100, SCREEN_HEIGHT div 2 + 50, 200, 50)"

definition medium_button :: rect where
  "medium_button = (SCREEN_WIDTH div 2 - 100, SCREEN_HEIGHT div 2 + 120, 200, 50)"

definition hard_button :: rect where
  "hard_button = (SCREEN_WIDTH div 2 - 100, SCREEN_HEIGHT div 2 + 190, 200, 50)"

definition very_hard_button :: rect where
  "very_hard_button = (SCREEN_WIDTH div 2 - 100, SCREEN_HEIGHT div 2 + 260, 200, 50)"

definition input_box :: rect where
  "input_box = (SCREEN_WIDTH div 2 - 100, SCREEN_HEIGHT div 2 + 320, 200, 40)"

text \<open>The local variables of \<open>intro_screen\<close> that outlive an event.\<close>

record intro_state =
  input_text :: string
  input_active :: bool

definition intro_start :: intro_state where
  "intro_start = \<lparr>input_text = [], input_active = False\<rparr>"

text \<open>How the handling of a frame's events ends: a difficulty was chosen
  (\<open>return 'intro'\<close>), \<open>QUIT\<close> (\<open>sys.exit()\<close>), or the events ran out and the
  screen is drawn again.\<close>

datatype intro_outcome = Chosen | IntroQuit | IntroWaiting

text \<open>Return in the input box: \<open>self.levels = max(1, int(input_text))\<close>, or 5
  when \<open>int\<close> raises \<open>ValueError\<close>.\<close>

definition levels_of_input :: "string \<Rightarrow> int" where
  "levels_of_input s = (case py_int s of Some n \<Rightarrow> max 1 n | None \<Rightarrow> 5)"

text \<open>The \<open>for event in pygame.event.get()\<close> loop of \<open>intro_screen\<close>.\<close>

fun intro_events :: "event list \<Rightarrow> intro_state \<Rightarrow> game \<Rightarrow> intro_outcome \<times> intro_state \<times> game" where
  "intro_events [] s g = (IntroWaiting, s, g)"
| "intro_events (QUIT # es) s g = (IntroQuit, s, g)"
| "intro_events (MOUSEBUTTONDOWN b pt # es) s g =
     (let s' = s\<lparr>input_active := collidepoint input_box pt\<rparr> in
      if b = 1 then
        (if collidepoint easy_button pt then (Chosen, s', g\<lparr>difficulty := Easy\<rparr>)
         else if collidepoint medium_button pt then (Chosen, s', g\<lparr>difficulty := Medium\<rparr>)
         else if collidepoint hard_button pt then (Chosen, s', g\<lparr>difficulty := Hard\<rparr>)
         else if collidepoint very_hard_button pt then (Chosen, s', g\<lparr>difficulty := VeryHard\<rparr>)
         else intro_events es s' g)
      else intro_events es s' g)"
| "intro_events (KEYDOWN k u # es) s g =
     (if input_active s then
        (if k = K_RETURN then
           intro_events es (s\<lparr>input_active := False, input_text := []\<rparr>)
             (g\<lparr>levels := levels_of_input (input_text s)\<rparr>)
         else if k = K_BACKSPACE then intro_events es (s\<lparr>input_text := butlast (input_text s)\<rparr>) g
         else intro_events es (s\<lparr>input_text := input_text s @ u\<rparr>) g)
      else if k = K_1 then (Chosen, s, g\<lparr>difficulty := Easy\<rparr>)
      else if k = K_2 then (Chosen, s, g\<lparr>difficulty := Medium\<rparr>)
      else if k = K_3 then (Chosen, s, g\<lparr>difficulty := Hard\<rparr>)
      else if k = K_4 then (Chosen, s, g\<lparr>difficulty := VeryHard\<rparr>)
      else intro_events es s g)"

text \<open>\<open>intro_screen\<close>: the frames' events in order, from a fresh input box,
  until a difficulty is chosen or the program quits.\<close>

fun intro_frames :: "event list list \<Rightarrow> intro_state \<Rightarrow> game \<Rightarrow> intro_outcome \<times> game" where
  "intro_frames [] s g = (IntroWaiting, g)"
| "intro_frames (es # ess) s g =
     (case intro_events es s g of
        (IntroWaiting, s', g') \<Rightarrow> intro_frames ess s' g'
      | (out, s', g') \<Rightarrow> (out, g'))"

definition intro_screen :: "event list list \<Rightarrow> game \<Rightarrow> intro_outcome \<times> game" where
  "intro_screen ess g = intro_frames ess intro_start g"

subsection \<open>The game-over screen and the main loop\<close>









text \<open>Typing a string into the focused input box: one key press per
  character, with the digit keys for the digits.\<close>

definition key_of :: "char \<Rightarrow> key" where
  "key_of c =
     (if c = CHR ''1'' then K_1 else if c = CHR ''2'' then K_2 else if c = CHR ''3'' then K_3
      else if c = CHR ''4'' then K_4 else K_OTHER)"

definition type_text :: "string \<Rightarrow> event list" where
  "type_text s = map (\<lambda>c. KEYDOWN (key_of c) [c]) s"

text \<open>\<open>str(n)\<close> of a Python int.\<close>

fun nat_digits :: "nat \<Rightarrow> string" where
  "nat_digits n = (if n < 10 then [char_of (48 + n)] else nat_digits (n div 10) @ [char_of (48 + n mod 10)])"

declare nat_digits.simps [simp del]

definition py_str :: "int \<Rightarrow> string" where
  "py_str i = (if i < 0 then CHR ''-'' # nat_digits (nat (- i)) else nat_digits (nat i))"

subsection \<open>Lemmas\<close>

lemma of_char_digit: "k < 10 \<Longrightarrow> (of_char (char_of (48 + k)) :: nat) = 48 + k"
  by simp

lemma char_digit_ne_underscore:
  assumes k: "(k :: nat) < 10"
  shows "char_of (48 + k) \<noteq> CHR ''_''" "CHR ''_'' \<noteq> char_of (48 + k)"
proof -
  have "(of_char (char_of (48 + k)) :: nat) = 48 + k" using k by simp
  moreover have "(of_char CHR ''_'' :: nat) = 95" by simp
  ultimately have "(of_char (char_of (48 + k)) :: nat) \<noteq> of_char CHR ''_''" using k by simp
  then show "char_of (48 + k) \<noteq> CHR ''_''" "CHR ''_'' \<noteq> char_of (48 + k)" by metis+
qed

lemma nat_digits_ne: "nat_digits n \<noteq> []"
  by (induction n rule: nat_digits.induct) (subst nat_digits.simps, simp)

lemma nat_digits_digits: "list_all is_digit (nat_digits n)"
  by (induction n rule: nat_digits.induct) (subst nat_digits.simps, auto simp: is_digit_def list_all_iff)

lemma nat_digits_no_underscore: "CHR ''_'' \<notin> set (nat_digits n)"
  by (induction n rule: nat_digits.induct) (subst nat_digits.simps, simp add: char_digit_ne_underscore)

lemma no_double_underscore_free: "CHR ''_'' \<notin> set s \<Longrightarrow> no_double_underscore s"
  by (induction s rule: no_double_underscore.induct) auto

lemma nat_digits_value: "digits_value (nat_digits n) = int n"
proof (induction n rule: nat_digits.induct)
  case (1 n)
  show ?case
  proof (cases "n < 10")
    case True
    then show ?thesis by (subst nat_digits.simps) (simp add: digits_value_def char_digit_ne_underscore)
  next
    case False
    then have "digits_value (nat_digits n) = 10 * digits_value (nat_digits (n div 10)) + int (n mod 10)"
      by (subst nat_digits.simps) (simp add: digits_value_def char_digit_ne_underscore)
    moreover have "10 * int (n div 10) + int (n mod 10) = int n" by (simp add: of_nat_div of_nat_mod)
    ultimately show ?thesis using "1" False by simp
  qed
qed

lemma nat_digits_hd_last: "is_digit (hd (nat_digits n)) \<and> is_digit (last (nat_digits n))"
  using nat_digits_digits [of n] nat_digits_ne [of n] by (simp add: list_all_iff)

lemma py_digits_nat_digits: "py_digits (nat_digits n) = Some (int n)"
  using nat_digits_ne [of n] nat_digits_digits [of n] nat_digits_hd_last [of n]
    no_double_underscore_free [OF nat_digits_no_underscore [of n]] nat_digits_value [of n]
  by (simp add: py_digits_def list_all_iff)

lemma py_space_digit: "is_digit c \<Longrightarrow> \<not> py_space c"
  by (auto simp: is_digit_def py_space_def)

lemma py_strip_nat_digits:
  assumes "s \<noteq> []" "\<not> py_space (hd s)" "\<not> py_space (last s)"
  shows "py_strip s = s"
proof -
  from assms have "dropWhile py_space s = s" by (cases s) simp_all
  moreover from assms have "dropWhile py_space (rev s) = rev s" by (cases "rev s") (simp_all add: hd_rev [symmetric])
  ultimately show ?thesis by (simp add: py_strip_def)
qed

lemma py_int_py_str: "py_int (py_str i) = Some i"
proof -
  obtain d where d: "nat_digits (nat \<bar>i\<bar>) = d" by blast
  have ne: "d \<noteq> []" and hl: "is_digit (hd d)" "is_digit (last d)"
    using nat_digits_ne nat_digits_hd_last d by blast+
  show ?thesis
  proof (cases "i < 0")
    case True
    have "py_strip (CHR ''-'' # d) = CHR ''-'' # d"
      using ne hl py_space_digit by (intro py_strip_nat_digits) (simp_all add: py_space_def)
    moreover have "py_digits d = Some (- i)" using True d py_digits_nat_digits [of "nat \<bar>i\<bar>"] by simp
    ultimately show ?thesis using True d by (simp add: py_int_def py_str_def)
  next
    case False
    have "py_strip d = d" using ne hl py_space_digit by (intro py_strip_nat_digits) simp_all
    moreover from hl ne have "hd d \<noteq> CHR ''-'' \<and> hd d \<noteq> CHR ''+''" by (auto simp: is_digit_def)
    moreover have "py_digits d = Some i" using False d py_digits_nat_digits [of "nat \<bar>i\<bar>"] by simp
    ultimately show ?thesis using False d ne
      by (cases d) (simp_all add: py_int_def py_str_def)
  qed
qed

lemma key_of_text: "key_of c \<noteq> K_RETURN \<and> key_of c \<noteq> K_BACKSPACE"
  by (simp add: key_of_def)

lemma intro_type_text:
  "input_active s \<Longrightarrow>
   intro_events (type_text t @ es) s g = intro_events es (s\<lparr>input_text := input_text s @ t\<rparr>) g"
proof (induction t arbitrary: s)
  case Nil
  then show ?case by (simp add: type_text_def)
next
  case (Cons c t)
  have "intro_events (type_text (c # t) @ es) s g =
        intro_events (type_text t @ es) (s\<lparr>input_text := input_text s @ [c]\<rparr>) g"
    using Cons.prems key_of_text [of c] by (simp add: type_text_def)
  also have "\<dots> = intro_events es (s\<lparr>input_text := input_text s @ c # t\<rparr>) g"
    using Cons.IH [of "s\<lparr>input_text := input_text s @ [c]\<rparr>"] Cons.prems by simp
  finally show ?case .
qed


subsection \<open>Properties of the screens\<close>

text \<open>C39: clicking the input box of the intro screen, typing the decimal text of any integer n (as Python's \<open>str(n)\<close> prints it) and pressing Return sets the level count to \<open>max(1, n)\<close> and leaves the screen waiting with an empty, inactive input box: \<open>int()\<close> reads back what \<open>str()\<close> prints.\<close>

theorem levels_input_roundtrip:
  "intro_events (MOUSEBUTTONDOWN 1 (400, 780) # type_text (py_str n) @ [KEYDOWN K_RETURN []]) intro_start g =
     (IntroWaiting, intro_start, g\<lparr>levels := max 1 n\<rparr>)"
proof -
  let ?s = "intro_start\<lparr>input_active := True\<rparr>"
  have click: "intro_events (MOUSEBUTTONDOWN 1 (400, 780) # type_text (py_str n) @ [KEYDOWN K_RETURN []]) intro_start g =
               intro_events (type_text (py_str n) @ [KEYDOWN K_RETURN []]) ?s g"
    by (simp add: collidepoint_def input_box_def easy_button_def medium_button_def hard_button_def
        very_hard_button_def SCREEN_WIDTH_def SCREEN_HEIGHT_def)
  have act: "input_active ?s" by simp
  show ?thesis
    unfolding click intro_type_text [OF act]
    by (simp add: intro_start_def levels_of_input_def py_int_py_str)
qed



end
