(* ===== verification/Spec2Isabelle.thy ===== *)
theory Spec2Isabelle
  imports Fitness AStar Genetic Ghosts Player Game GhostTiles Menu
begin

text \<open>
  A verification development for the Pac-Man game with a genetic-algorithm and
  A* planner (\<open>src/config.py\<close>, \<open>src/model.py\<close>, \<open>src/object.py\<close>,
  \<open>src/main.py\<close>). The program's decision engine has these parts:
  \<^item> the maze (\<open>TilemapManager\<close> in \<open>src/config.py\<close>), read through the
    walkability rule and written only when the player eats a pellet;
  \<^item> the A* pathfinder \<open>AStarAlgorithm\<close> (\<open>src/model.py\<close>), used by the
    player and by the genetic algorithm to compute a reference path to the nearest
    pellet, optionally with ghost tiles blocked (\<open>AdversarialAlgorithm\<close>);
  \<^item> the fitness evaluation of \<open>GeneticAlgorithm\<close> (and of
    \<open>AdversarialAlgorithm\<close>), which simulates a chromosome of moves on the maze
    and scores pellets, revisits, ghost proximity and agreement with the reference
    path;
  \<^item> the genetic operators and the evolution step \<open>GeneticAlgorithm.evolve\<close>;
  \<^item> the four ghosts of \<open>src/object.py\<close> (BFS and DFS searches, goal
    selection, a per-tick movement step) and the player's move step;
  \<^item> the game of \<open>src/main.py\<close> (class \<open>Game\<close>): \<open>init_game\<close> builds the
    sprite groups from the map, creating the ghosts the chosen difficulty admits;
    each frame of \<open>game_loop\<close> updates the player (its move step), steps the
    game's own genetic algorithm, handles the back button, moves every ghost,
    charges ghost collisions with a one-second cooldown, collects pellet sprites
    and ends the level when none is left; the intro screen sets the difficulty
    and the level count, the game-over screen and \<open>__main__\<close> loop around it;
  \<^item> the presentation (images, fonts, drawing, the fitness chart).

  \<^bold>\<open>Theories.\<close>
  \<^item> \<open>Prelude\<close>: positions \<open>pos = int \<times> int\<close> (Python's unbounded
    ints), tile maps as lists of character rows, paths, orthogonal adjacency and
    \<open>walk\<close> (a path from, but excluding, a start cell), the neighbour offsets
    \<open>directions\<close>, the list minimum that models \<open>heapq.heappop\<close> and
    \<open>list.index\<close>.
  \<^item> \<open>Grid\<close>: \<open>original_tilemap\<close> verbatim, \<open>tile_at\<close> (\<open>tilemap[y][x]\<close>),
    \<open>in_bounds\<close>, \<open>is_walkable\<close> (\<open>AStarAlgorithm.is_walkable\<close>),
    \<open>count_total_pellets\<close> and \<open>reset_tilemap\<close> (\<open>Game\<close>), \<open>set_tile\<close>
    (the in-place write \<open>tilemap[y][x] = c\<close>); lemmas that a write of a non-wall
    character keeps every cell's walkability (the static layer never changes).
  \<^item> \<open>AStar\<close>: \<open>find_path\<close> with its locals as the record \<open>astar_state\<close>,
    the heap as the list of its \<open>(f, position)\<close> entries popped at the
    lexicographic minimum (exactly what \<open>heapq\<close> returns), the relaxation of one
    neighbour (\<open>relax\<close>), the \<open>for\<close> loop (\<open>expand\<close>), the \<open>while\<close> loop
    (\<open>astar_loop\<close>) and \<open>reconstruct_path\<close>. Both loops are
    \<open>partial_function (option)\<close>, \<open>None\<close> meaning "does not return"; the
    theorems prove they always return: the invariant \<open>astar_inv\<close> bounds every
    g-score by the number of scored cells, so the sum of g-scores over the finite
    set of enterable cells (\<open>astar_pot\<close>) falls with every push and
    \<open>2 * astar_pot + |open_set|\<close> with every iteration; the \<open>came_from\<close>
    chain strictly decreases in g-score. Soundness, blocked-cell avoidance and the
    empty-path cases. Optimality: \<open>astar_settled\<close> states that every scored
    cell still has the heap entry of its current g-score or has been expanded
    with it (its enterable neighbours score at most one more), and
    \<open>astar_fbound\<close> that no entry is below its cell's g-score plus heuristic;
    along any walk to the goal the heap then holds an entry no larger than the
    walk's length (\<open>astar_frontier\<close>, the Manhattan heuristic never exceeds the
    remaining steps), so the goal is found whenever it is reachable and its path is
    a shortest one, with or without re-expansion of cells.
  \<^item> \<open>Fitness\<close>: the move symbols, \<open>simulate_move\<close>, \<open>is_near_enemy\<close>,
    \<open>get_direction\<close>, \<open>follow_a_star_path\<close>, the scoring loop shared by both
    evaluators (\<open>score_loop\<close>) and the dispatcher \<open>evaluate_fitness\<close>; the
    game object is the snapshot record \<open>world\<close>. Bounds of the path bonus, the
    bonus of a retracing chromosome, a closed form of the whole baseline fitness
    (pellets and ghost proximity once per distinct tile, -500 per re-entered tile)
    and of its ghost-proximity term.
  \<^item> \<open>Genetic\<close>: \<open>GeneticAlgorithm\<close> (record \<open>ga\<close>) and
    \<open>AdversarialAlgorithm.evolve\<close>: \<open>initialize_population\<close>, \<open>get_target\<close>,
    \<open>select_population\<close> (with \<open>random.choices\<close> as cumulative weights and
    \<open>bisect\<close>, \<open>random.sample\<close> as a prefix of a drawn permutation),
    \<open>crossover\<close>, \<open>mutate\<close>, \<open>get_best_chromosome\<close>, the breeding loop
    \<open>breed\<close> (a \<open>function\<close> terminating by the missing population size) and
    both \<open>evolve\<close>s. Every random draw is a field of the record \<open>ga_draws\<close>, so
    each theorem holds for every outcome; \<open>draws_ok\<close> states what the library
    guarantees of the draws. Python exceptions are \<open>Inl\<close> values of
    \<open>py_error\<close>. Lemmas: \<open>evolve\<close> returns; with at least 4 chromosomes of
    at least 2 genes it keeps the population's shape; with fewer it raises
    \<open>ValueError\<close>; it returns the new population's chromosome at the index of
    the old population's best score (a run shows it returning a chromosome
    scoring -600 while 2700 is recorded); the operators' contracts.
  \<^item> \<open>Ghosts\<close>: the four ghost classes: \<open>can_move_to\<close>, \<open>bfs\<close> (Blinky,
    Pinky), the two \<open>dfs\<close> variants (Inky skips visited neighbours when pushing,
    Clyde does not), the goals, \<open>__init__\<close>, \<open>start_moving\<close> and the per-tick
    \<open>move\<close> (\<open>ghost_slide\<close> for the pixel step, \<open>ghost_plan\<close> for the
    search and the path pop). The searches are \<open>partial_function (option)\<close>
    proved to return by the measures \<open>bfs_meas\<close> and \<open>dfs_meas\<close>; \<open>bfs\<close>
    returns a shortest path, by the invariant \<open>bfs_layered\<close> (the queue's path
    lengths sorted and within one of every visited tile's, every visited tile
    still queued or expanded) and a frontier lemma as for A*; the two
    DFS variants are proved equal by a simulation \<open>srel\<close> between their
    stacks. Pixel positions are exact rationals (\<open>GHOST_SPEED = 3.5\<close>); the
    float \<open>(dx**2 + dy**2) ** 0.5\<close> is a parameter assumed exact on the axes
    only, and the invariant \<open>ghost_ok\<close> shows a ghost only moves along an axis,
    so no other value of it is ever used. A started move arrives within 10 ticks.
  \<^item> \<open>Player\<close>: \<open>Player.__init__\<close>, \<open>move(use_ga=True)\<close> composed of
    \<open>get_target\<close>, \<open>find_path\<close>, \<open>evolve\<close>, the ghost and wall check and
    the A* fallback, \<open>_execute_move\<close> with Python's list indexing
    (\<open>py_nth\<close>: negative indices wrap, large ones raise), \<open>teleport\<close> and
    \<open>eat_pellet\<close>; the shared map is passed and returned. The invariant
    \<open>player_inv\<close> (player on a walkable tile, walls as blocks, well-shaped GA)
    is kept by every move, and eating a pellet lowers the game's pellet count by one;
    a step off the left edge of a map is accepted and, through index \<open>-1\<close>,
    eats the pellet at the far end of the row.
  \<^item> \<open>GhostTiles\<close>: the refinement of the ghosts' pixel-level state machine
    by an abstract walker on tiles (\<open>tile_step\<close>: stay, or step to an adjacent
    enterable tile). \<open>ghost_run\<close> is the inductive set of ghost states reachable
    from a spawn by \<open>move()\<close> with any search returning walks; by rule induction
    every such state maps (by its tile) to a state the walker reaches, and keeps
    the ghost invariant.
  \<^item> \<open>Game\<close>: the record \<open>game\<close> (the attributes of \<open>Game\<close>; the sprite groups
    by ghost name and by tile; \<open>None\<close> for an attribute never assigned, which
    \<open>hasattr\<close> tests), \<open>game_init\<close> (\<open>Game.__init__\<close>), \<open>init_game\<close> (a fold
    of \<open>spawn\<close> over the map's cells, \<open>ghost_marker\<close> the difficulty gate),
    pygame's rectangle tests \<open>colliderect\<close>/\<open>collidepoint\<close> on the sprites'
    rectangles (\<open>ghost_rect\<close> rounds the ghost's pixel position with Python's
    \<open>round\<close>), one frame \<open>game_frame\<close> composed in the option monad of
    \<open>player_update\<close> (\<open>Player.update\<close>), \<open>game_evolve\<close>, \<open>loop_events\<close>,
    \<open>ghosts_move\<close> and \<open>frame_book\<close> (\<open>handle_collision\<close>,
    \<open>collect_pellets\<close>, \<open>finish_level\<close>), the level loop \<open>run_level\<close>,
    \<open>play_levels\<close> and \<open>game_loop\<close>. What comes from the pixel layer and the
    clocks is an input of a frame (\<open>frame_in\<close>: the player's pixel position,
    whether its animation arrives, the ticks, \<open>time.time()\<close>, the events, the
    draws); \<open>game_reach\<close> is the step relation of a \<open>Game\<close> object across
    games. Lemmas: the invariant \<open>game_inv\<close> (player, ghosts, both genetic
    algorithms, pellet counter) is established by \<open>init_game\<close> and kept by every
    frame, so \<open>game_loop\<close> always returns without an exception; the spawns by
    difficulty; the end of a level; the collision cooldown; a game of zero levels.
    This theory is where the components meet: its proofs use the invariants of
    the player, the genetic algorithm and the ghosts.
  \<^item> \<open>Menu\<close>: \<open>intro_screen\<close> (buttons, hotkeys, the level-count box and
    Python's \<open>int()\<close> on Latin-1 text: whitespace, sign, digits and single
    underscores), \<open>game_over_screen\<close>'s events and a round of \<open>__main__\<close>
    (\<open>main_round\<close>: the game-over screens it shows, each left by its
    \<open>'restart'\<close> or by \<open>QUIT\<close>, with the screens' frames as input). Lemmas:
    \<open>int(str(n)) = n\<close> and the level box; a completed game shows the same
    "YOU WIN!" screen twice before the intro screen returns.
  \<^item> This root theory: imports every component and holds this description.

  \<^bold>\<open>Modelling choices.\<close> Python dictionaries are maps, sets are HOL sets,
  lists are lists; scores and coordinates are \<open>int\<close>, g-scores \<open>nat\<close>. A random
  draw is an explicit argument of the operation that makes it. Floats are exact
  rationals where the code's values are exactly representable (the mutation rate
  is compared with drawn rationals; ghost pixels are multiples of 0.5, the clock
  readings of a frame are rationals). In the player's wall check, \<open>pygame\<close>
  collision of two tile-sized rectangles at tile corners is equality of tiles; the
  game's sprite collisions use the rectangles themselves. Loops that may run
  forever are \<open>partial_function (option)\<close> and are proved to return; no fuel or
  bound is used. The loops of the screens and the game are driven by a list of
  inputs, one per frame, so a run is a finite prefix of the program's run.

  \<^bold>\<open>Not modelled.\<close> The pixel animation of \<open>Player.update\<close>, which adds
  float steps to integer \<open>pygame.Rect\<close> coordinates with pygame's own rounding:
  its result, the player's pixel position and whether it arrived, is an input of
  a frame; the order of the four ghosts' \<open>pygame.time.get_ticks()\<close> readings
  within a frame (one reading is used); rendering, images, fonts, the timer text
  and the fitness chart window (pure output).
\<close>

end
